theory Spec2Isabelle
  imports Complex_Main "HOL-Library.Multiset"
begin

section \<open>Configuration (src/js/config.js)\<close>

text \<open>
  The constants of \<^verbatim>\<open>CONFIG\<close> that the modelled code reads. JavaScript numbers are
  modelled as real numbers. The arithmetic of \<^verbatim>\<open>Utils.random\<close>, \<^verbatim>\<open>Utils.randomInt\<close>,
  \<^verbatim>\<open>Utils.wrapPoint\<close> and of the wrap in \<^verbatim>\<open>Snake.update\<close> is rounded as JavaScript
  rounds it (section Doubles): the number of items that \<^verbatim>\<open>die()\<close> returns and the
  result of a wrap depend on the rounding. The other operations are exact; NaN and the
  infinities are outside the model.
\<close>

definition WORLD_WIDTH :: real where "WORLD_WIDTH = 5000"
definition WORLD_HEIGHT :: real where "WORLD_HEIGHT = 5000"

section \<open>Doubles\<close>

text \<open>
  A JavaScript number is an IEEE 754 double, and the result of \<^verbatim>\<open>a + b\<close>, \<^verbatim>\<open>a - b\<close> and
  \<^verbatim>\<open>a * b\<close> is the double nearest to the exact result, a tie going to the double with
  the even significand. \<open>double v\<close> is that double: for \<open>2\<^sup>k \<le> \<bar>v\<bar> < 2\<^sup>k\<^sup>+\<^sup>1\<close> the doubles
  are the multiples of \<open>2\<^sup>k\<^sup>-\<^sup>5\<^sup>2\<close>, and \<open>v\<close> is rounded to the nearest of them. The
  exponent is not bounded: overflow to infinity and the subnormal numbers below
  \<open>2\<^sup>-\<^sup>1\<^sup>0\<^sup>2\<^sup>2\<close> are not modelled.
  \<^verbatim>\<open>Math.floor\<close>, \<^verbatim>\<open>Math.min\<close> and the remainder \<^verbatim>\<open>%\<close> of two doubles are exact.
\<close>

definition pow2 :: "int \<Rightarrow> real" where
  "pow2 e = 2 powr of_int e"

definition roundEven :: "real \<Rightarrow> int" where
  "roundEven v =
     (let f = \<lfloor>v\<rfloor>; d = v - of_int f
      in if d < 1 / 2 then f else if 1 / 2 < d then f + 1 else if even f then f else f + 1)"

definition double :: "real \<Rightarrow> real" where
  "double v =
     (if v = 0 then 0
      else (let e = \<lfloor>log 2 \<bar>v\<bar>\<rfloor> - 52
            in of_int (roundEven (v / pow2 e)) * pow2 e))"

section \<open>Geometry utilities (src/js/ui.js, object Utils)\<close>

text \<open>
  JavaScript objects are duck-typed: \<^verbatim>\<open>Utils.distance\<close> accepts anything with fields
  \<^verbatim>\<open>x\<close> and \<^verbatim>\<open>y\<close>, \<^verbatim>\<open>Utils.circleCollision\<close> anything that also has
  \<^verbatim>\<open>radius\<close>. Extensible records give the same reading: a function on a
  record scheme applies to every record that extends \<open>point\<close>.
\<close>

record point =
  x :: real
  y :: real

record circle = point +
  radius :: real

definition distance :: "'a point_scheme \<Rightarrow> 'b point_scheme \<Rightarrow> real" where
  "distance point1 point2 =
     (let dx = x point2 - x point1;
          dy = y point2 - y point1
      in sqrt (dx * dx + dy * dy))"

definition circleCollision :: "'a circle_scheme \<Rightarrow> 'b circle_scheme \<Rightarrow> bool" where
  "circleCollision circle1 circle2 =
     (let d = distance circle1 circle2
      in d < radius circle1 + radius circle2)"

definition isInsideWorld :: "'a point_scheme \<Rightarrow> bool" where
  "isInsideWorld p \<longleftrightarrow>
     x p \<ge> 0 \<and> x p < WORLD_WIDTH \<and> y p \<ge> 0 \<and> y p < WORLD_HEIGHT"

text \<open>
  \<^verbatim>\<open>wrapPoint\<close> makes one conditional correction in each direction, in the order of
  the source: first \<^verbatim>\<open>if (x < 0) x += W\<close>, then \<^verbatim>\<open>if (x >= W) x -= W\<close>. The sum
  and the difference are rounded.
\<close>

definition wrapPoint :: "'a point_scheme \<Rightarrow> point" where
  "wrapPoint p =
     (let x1 = (if x p < 0 then double (x p + WORLD_WIDTH) else x p);
          x2 = (if x1 \<ge> WORLD_WIDTH then double (x1 - WORLD_WIDTH) else x1);
          y1 = (if y p < 0 then double (y p + WORLD_HEIGHT) else y p);
          y2 = (if y1 \<ge> WORLD_HEIGHT then double (y1 - WORLD_HEIGHT) else y1)
      in \<lparr>x = x2, y = y2\<rparr>)"

text \<open>One coordinate of \<^verbatim>\<open>wrapPoint\<close>, for a world of the given extent.\<close>

definition wrapAxis :: "real \<Rightarrow> real \<Rightarrow> real" where
  "wrapAxis v extent =
     (let v1 = (if v < 0 then double (v + extent) else v)
      in if v1 \<ge> extent then double (v1 - extent) else v1)"

text \<open>
  The remainder operator \<^verbatim>\<open>a % b\<close> of JavaScript truncates the quotient toward zero,
  so the result has the sign of the dividend. (For \<open>b = 0\<close> JavaScript gives NaN; the
  code only divides by the world size.)
\<close>

definition js_rem :: "real \<Rightarrow> real \<Rightarrow> real" where
  "js_rem a b =
     a - b * of_int (if a / b < 0 then \<lceil>a / b\<rceil> else \<lfloor>a / b\<rfloor>)"

text \<open>
  The wrap of \<^verbatim>\<open>Snake.update\<close> (src/js/snake.js, lines 69-70):
  \<^verbatim>\<open>this.x = (this.x + CONFIG.WORLD.WIDTH) % CONFIG.WORLD.WIDTH\<close>. The sum is rounded,
  the remainder is exact.
\<close>

definition wrapCoord :: "real \<Rightarrow> real \<Rightarrow> real" where
  "wrapCoord v extent = js_rem (double (v + extent)) extent"

section \<open>Quadtree (src/js/quadtree.js)\<close>

definition MAX_OBJECTS :: nat where "MAX_OBJECTS = 10"
definition MAX_LEVELS :: nat where "MAX_LEVELS = 5"

text \<open>
  The boxes stored in the tree are the objects returned by \<^verbatim>\<open>getBounds()\<close>:
  \<^verbatim>\<open>{x, y, width, height}\<close>. The tree functions are written for every record that
  extends \<open>box\<close>, so that two stored objects with equal coordinates can still be
  different objects.
\<close>

record box = point +
  width :: real
  height :: real

text \<open>
  A node of the tree. The field \<^verbatim>\<open>nodes\<close> of the source is either the empty array or,
  after \<^verbatim>\<open>split()\<close>, an array of exactly four subtrees: the two constructors are these
  two shapes, and \<open>node0\<close> .. \<open>node3\<close> are \<^verbatim>\<open>nodes[0]\<close> .. \<^verbatim>\<open>nodes[3]\<close>.
  The field \<^verbatim>\<open>level\<close> is the depth of the node below the root (the constructor sets it
  to 0 for the root and \<^verbatim>\<open>split()\<close> to \<^verbatim>\<open>this.level + 1\<close> for the children); the
  model passes it along as an argument of \<open>insert_qt\<close> instead of storing it. The fields
  \<^verbatim>\<open>maxObjects\<close> and \<^verbatim>\<open>maxLevels\<close> are the two configuration constants.
\<close>

datatype 'o quadtree =
    Leaf (bounds: box) (objects: "'o list")
  | Split (bounds: box) (objects: "'o list")
      (node0: "'o quadtree") (node1: "'o quadtree") (node2: "'o quadtree") (node3: "'o quadtree")

text \<open>
  \<^verbatim>\<open>CollisionSystem.initQuadtree(width, height)\<close> (src/js/collision.js): the empty
  root, at level 0.
\<close>

definition initQuadtree :: "real \<Rightarrow> real \<Rightarrow> 'o quadtree" where
  "initQuadtree w h = Leaf \<lparr>x = 0, y = 0, width = w, height = h\<rparr> []"

definition clear :: "'o quadtree \<Rightarrow> 'o quadtree" where
  "clear t = Leaf (bounds t) []"

text \<open>The four fresh children that \<^verbatim>\<open>split()\<close> stores in \<^verbatim>\<open>nodes[0..3]\<close>.\<close>

definition split :: "box \<Rightarrow> 'o quadtree \<times> 'o quadtree \<times> 'o quadtree \<times> 'o quadtree" where
  "split bnds =
     (let subWidth = width bnds / 2;
          subHeight = height bnds / 2
      in (Leaf \<lparr>x = x bnds + subWidth, y = y bnds, width = subWidth, height = subHeight\<rparr> [],
          Leaf \<lparr>x = x bnds, y = y bnds, width = subWidth, height = subHeight\<rparr> [],
          Leaf \<lparr>x = x bnds, y = y bnds + subHeight, width = subWidth, height = subHeight\<rparr> [],
          Leaf \<lparr>x = x bnds + subWidth, y = y bnds + subHeight,
                width = subWidth, height = subHeight\<rparr> []))"

definition getIndex :: "box \<Rightarrow> 'a box_scheme \<Rightarrow> int" where
  "getIndex bnds rect =
     (let verticalMidpoint = x bnds + (width bnds / 2);
          horizontalMidpoint = y bnds + (height bnds / 2);
          topQuadrant = (y rect < horizontalMidpoint \<and> y rect + height rect < horizontalMidpoint);
          bottomQuadrant = (y rect > horizontalMidpoint)
      in if x rect < verticalMidpoint \<and> x rect + width rect < verticalMidpoint then
           (if topQuadrant then 1 else if bottomQuadrant then 2 else - 1)
         else if x rect > verticalMidpoint then
           (if topQuadrant then 0 else if bottomQuadrant then 3 else - 1)
         else - 1)"

text \<open>
  The redistribution loop of \<^verbatim>\<open>insert\<close> walks over \<^verbatim>\<open>this.objects\<close>; an object with
  \<^verbatim>\<open>getIndex(...) !== -1\<close> is spliced out and inserted into \<^verbatim>\<open>nodes[index]\<close>, any
  other object is kept. \<open>place\<close> is one iteration of that loop on the state (objects
  kept so far, the four children); \<open>ins\<close> is the insertion into a child.
\<close>

type_synonym 'o redistribution =
  "'o list \<times> 'o quadtree \<times> 'o quadtree \<times> 'o quadtree \<times> 'o quadtree"

fun place :: "('a box_scheme quadtree \<Rightarrow> 'a box_scheme \<Rightarrow> 'a box_scheme quadtree) \<Rightarrow> box \<Rightarrow>
    ('a box_scheme) redistribution \<Rightarrow> 'a box_scheme \<Rightarrow> ('a box_scheme) redistribution" where
  "place ins bnds (kept, n0, n1, n2, n3) obj =
     (let index = getIndex bnds obj
      in if index = 0 then (kept, ins n0 obj, n1, n2, n3)
         else if index = 1 then (kept, n0, ins n1 obj, n2, n3)
         else if index = 2 then (kept, n0, n1, ins n2 obj, n3)
         else if index = 3 then (kept, n0, n1, n2, ins n3 obj)
         else (kept @ [obj], n0, n1, n2, n3))"

lemma place_cong [fundef_cong]:
  assumes "bnds = bnds'" "st = st'" "obj = obj'"
    and "\<And>n. n \<in> set [fst (snd st'), fst (snd (snd st')), fst (snd (snd (snd st'))),
             snd (snd (snd (snd st')))] \<Longrightarrow> ins n obj' = ins' n obj'"
  shows "place ins bnds st obj = place ins' bnds' st' obj'"
  using assms by (cases st') (simp add: Let_def)

text \<open>
  \<^verbatim>\<open>insert(obj)\<close> on a node at depth \<open>lvl\<close>. With children and an index, the object goes
  down into \<^verbatim>\<open>nodes[index]\<close>. Otherwise it is pushed onto \<^verbatim>\<open>this.objects\<close>, and when
  the node then holds more than \<open>MAX_OBJECTS\<close> objects and \<open>lvl < MAX_LEVELS\<close> the node
  is split (if it has no children yet) and its objects are redistributed.
\<close>

function insert_qt ::
  "nat \<Rightarrow> 'a box_scheme quadtree \<Rightarrow> 'a box_scheme \<Rightarrow> 'a box_scheme quadtree" where
  "insert_qt lvl (Leaf bnds objs) obj =
     (let objs' = objs @ [obj]
      in if length objs' > MAX_OBJECTS \<and> lvl < MAX_LEVELS then
           (case foldl (place (insert_qt (Suc lvl)) bnds) ([], split bnds) objs' of
              (kept, n0, n1, n2, n3) \<Rightarrow> Split bnds kept n0 n1 n2 n3)
         else Leaf bnds objs')"
| "insert_qt lvl (Split bnds objs n0 n1 n2 n3) obj =
     (let index = getIndex bnds obj
      in if index = 0 then Split bnds objs (insert_qt (Suc lvl) n0 obj) n1 n2 n3
         else if index = 1 then Split bnds objs n0 (insert_qt (Suc lvl) n1 obj) n2 n3
         else if index = 2 then Split bnds objs n0 n1 (insert_qt (Suc lvl) n2 obj) n3
         else if index = 3 then Split bnds objs n0 n1 n2 (insert_qt (Suc lvl) n3 obj)
         else
           (let objs' = objs @ [obj]
            in if length objs' > MAX_OBJECTS \<and> lvl < MAX_LEVELS then
                 (case foldl (place (insert_qt (Suc lvl)) bnds) ([], n0, n1, n2, n3) objs' of
                    (kept, m0, m1, m2, m3) \<Rightarrow> Split bnds kept m0 m1 m2 m3)
               else Split bnds objs' n0 n1 n2 n3))"
  by pat_completeness auto
termination
  by (relation "measures [\<lambda>(lvl, t, obj). MAX_LEVELS - lvl, \<lambda>(lvl, t, obj). size t]") auto

text \<open>
  \<^verbatim>\<open>retrieve(obj)\<close>: the objects of the child that \<open>obj\<close> fits in, or of all four
  children when it fits in none, followed by the objects of this node.
\<close>

fun retrieve :: "'o quadtree \<Rightarrow> 'b box_scheme \<Rightarrow> 'o list" where
  "retrieve (Leaf bnds objs) obj = [] @ objs"
| "retrieve (Split bnds objs n0 n1 n2 n3) obj =
     (let index = getIndex bnds obj
      in (if index = 0 then retrieve n0 obj
          else if index = 1 then retrieve n1 obj
          else if index = 2 then retrieve n2 obj
          else if index = 3 then retrieve n3 obj
          else retrieve n0 obj @ retrieve n1 obj @ retrieve n2 obj @ retrieve n3 obj) @ objs)"

fun getAllObjects :: "'o quadtree \<Rightarrow> 'o list" where
  "getAllObjects (Leaf bnds objs) = objs"
| "getAllObjects (Split bnds objs n0 n1 n2 n3) =
     objs @ getAllObjects n0 @ getAllObjects n1 @ getAllObjects n2 @ getAllObjects n3"

text \<open>
  \<^verbatim>\<open>CollisionSystem.updateQuadtree\<close> (src/js/collision.js): clear the tree, then insert_qt
  the bounds of every entity at the root, which is at level 0.
\<close>

definition updateQuadtree ::
  "'a box_scheme quadtree \<Rightarrow> 'a box_scheme list \<Rightarrow> 'a box_scheme quadtree" where
  "updateQuadtree qt boxes = foldl (insert_qt 0) (clear qt) boxes"

text \<open>
  Two boxes intersect geometrically when they have a point in common; for boxes of
  non-negative width and height that is the comparison below (lemma
  \<open>intersects_iff_common_point\<close>).
\<close>

definition contains :: "'a box_scheme \<Rightarrow> 'b point_scheme \<Rightarrow> bool" where
  "contains b p \<longleftrightarrow>
     x b \<le> x p \<and> x p \<le> x b + width b \<and> y b \<le> y p \<and> y p \<le> y b + height b"

definition intersects :: "'a box_scheme \<Rightarrow> 'b box_scheme \<Rightarrow> bool" where
  "intersects a b \<longleftrightarrow>
     x a \<le> x b + width b \<and> x b \<le> x a + width a \<and>
     y a \<le> y b + height b \<and> y b \<le> y a + height a"

text \<open>
  The placement invariant of a tree: every object below child \<open>i\<close> of a node has index
  \<open>i\<close> with respect to the bounds of that node.
\<close>

fun qt_inv :: "'a box_scheme quadtree \<Rightarrow> bool" where
  "qt_inv (Leaf bnds objs) = True"
| "qt_inv (Split bnds objs n0 n1 n2 n3) =
     ((\<forall>obj \<in> set (getAllObjects n0). getIndex bnds obj = 0) \<and>
      (\<forall>obj \<in> set (getAllObjects n1). getIndex bnds obj = 1) \<and>
      (\<forall>obj \<in> set (getAllObjects n2). getIndex bnds obj = 2) \<and>
      (\<forall>obj \<in> set (getAllObjects n3). getIndex bnds obj = 3) \<and>
      qt_inv n0 \<and> qt_inv n1 \<and> qt_inv n2 \<and> qt_inv n3)"

fun assemble :: "box \<Rightarrow> 'o redistribution \<Rightarrow> 'o quadtree" where
  "assemble bnds (kept, n0, n1, n2, n3) = Split bnds kept n0 n1 n2 n3"

definition ins_ok ::
  "('a box_scheme quadtree \<Rightarrow> 'a box_scheme \<Rightarrow> 'a box_scheme quadtree) \<Rightarrow> 'a box_scheme \<Rightarrow> bool" where
  "ins_ok ins obj \<longleftrightarrow>
     (\<forall>n. mset (getAllObjects (ins n obj)) = add_mset obj (mset (getAllObjects n)) \<and>
          (qt_inv n \<longrightarrow> qt_inv (ins n obj)))"

section \<open>Configuration of the entities (src/js/config.js)\<close>

definition PLAYER_INITIAL_SIZE :: real where "PLAYER_INITIAL_SIZE = 10"
definition PLAYER_SPEED :: real where "PLAYER_SPEED = 3"
definition BOOST_SPEED :: real where "BOOST_SPEED = 5"
definition BOOST_CONSUMPTION :: real where "BOOST_CONSUMPTION = 5 / 100"
definition TURN_SPEED :: real where "TURN_SPEED = 15 / 100"
definition MIN_SEGMENTS_FOR_BOOST :: real where "MIN_SEGMENTS_FOR_BOOST = 5"
definition PLAYER_COLOR :: string where "PLAYER_COLOR = ''#4a90e2''"
definition PLAYER_HEAD_COLOR :: string where "PLAYER_HEAD_COLOR = ''#357abd''"
definition SEGMENT_SPACING :: real where "SEGMENT_SPACING = 5"
definition SEGMENT_RADIUS :: real where "SEGMENT_RADIUS = 10"

definition FOOD_SIZE :: real where "FOOD_SIZE = 5"
definition FOOD_VALUE :: real where "FOOD_VALUE = 1"
definition FOOD_COLORS :: "string list" where
  "FOOD_COLORS = [''#f44336'', ''#e91e63'', ''#9c27b0'', ''#673ab7'', ''#3f51b5'', ''#2196f3'',
     ''#03a9f4'', ''#00bcd4'', ''#009688'', ''#4caf50'', ''#8bc34a'', ''#cddc39'', ''#ffeb3b'',
     ''#ffc107'', ''#ff9800'', ''#ff5722'']"

definition DEATH_FOOD_VALUE :: real where "DEATH_FOOD_VALUE = 1"
definition DEATH_FOOD_SPREAD_RADIUS :: real where "DEATH_FOOD_SPREAD_RADIUS = 100"
definition DEATH_FOOD_MIN_COUNT :: real where "DEATH_FOOD_MIN_COUNT = 10"
definition DEATH_FOOD_MAX_COUNT :: real where "DEATH_FOOD_MAX_COUNT = 50"

section \<open>Random numbers and angles\<close>

text \<open>
  \<^verbatim>\<open>Math.random()\<close> is modelled by an explicit source: the stream of the numbers that
  the coming calls return. A call takes the first number and leaves the rest. JavaScript
  promises \<open>0 \<le> r < 1\<close> for each of them (\<open>rng_ok\<close>).
\<close>

type_synonym rng = "nat \<Rightarrow> real"

definition rng_ok :: "rng \<Rightarrow> bool" where
  "rng_ok g \<longleftrightarrow> (\<forall>n. 0 \<le> g n \<and> g n < 1)"

definition Math_random :: "rng \<Rightarrow> real \<times> rng" where
  "Math_random g = (g 0, \<lambda>n. g (Suc n))"

text \<open>The source in which every call of \<^verbatim>\<open>Math.random()\<close> returns \<open>c\<close>.\<close>

definition constant_rng :: "real \<Rightarrow> rng" where
  "constant_rng c n = c"

text \<open>
  \<^verbatim>\<open>Utils.random\<close>, \<^verbatim>\<open>Utils.randomInt\<close>, \<^verbatim>\<open>Utils.randomItem\<close> (src/js/ui.js):
  \<^verbatim>\<open>Math.random() * (max - min) + min\<close> and \<^verbatim>\<open>Math.floor(this.random(min, max + 1))\<close>.
  Each of the four operations rounds its result to a double.
\<close>

definition random' :: "real \<Rightarrow> real \<Rightarrow> rng \<Rightarrow> real \<times> rng" where
  "random' mn mx g =
     (case Math_random g of (r, g') \<Rightarrow> (double (double (r * double (mx - mn)) + mn), g'))"

definition randomInt :: "real \<Rightarrow> real \<Rightarrow> rng \<Rightarrow> int \<times> rng" where
  "randomInt mn mx g = (case random' mn (double (mx + 1)) g of (v, g') \<Rightarrow> (\<lfloor>v\<rfloor>, g'))"

text \<open>
  \<^verbatim>\<open>array[i]\<close> outside the array is \<^verbatim>\<open>undefined\<close> in JavaScript; \<open>None\<close> stands for it.
\<close>

definition randomItem :: "'a list \<Rightarrow> rng \<Rightarrow> 'a option \<times> rng" where
  "randomItem array g =
     (case randomInt 0 (real (length array) - 1) g of
        (i, g') \<Rightarrow> (if 0 \<le> i \<and> nat i < length array then Some (array ! nat i) else None, g'))"

text \<open>
  \<^verbatim>\<open>Math.atan2(b, a)\<close> on real numbers: the angle in \<open>(-\<pi>, \<pi>]\<close> of the point \<open>(a, b)\<close>,
  and 0 at the origin.
\<close>

definition atan2 :: "real \<Rightarrow> real \<Rightarrow> real" where
  "atan2 b a =
     (if a > 0 then arctan (b / a)
      else if a < 0 \<and> b \<ge> 0 then arctan (b / a) + pi
      else if a < 0 \<and> b < 0 then arctan (b / a) - pi
      else if b > 0 then pi / 2
      else if b < 0 then - (pi / 2)
      else 0)"

text \<open>\<^verbatim>\<open>Utils.angle(point1, point2)\<close>.\<close>

definition angle_between :: "'a point_scheme \<Rightarrow> 'b point_scheme \<Rightarrow> real" where
  "angle_between point1 point2 = atan2 (y point2 - y point1) (x point2 - x point1)"

section \<open>Entities (src/js/entity.js, food.js, snake.js, npc.js)\<close>

text \<open>
  A JavaScript object is a bag of fields, and the classes \<^verbatim>\<open>Entity\<close>, \<^verbatim>\<open>Food\<close>,
  \<^verbatim>\<open>DeathFood\<close>, \<^verbatim>\<open>Snake\<close>, \<^verbatim>\<open>NPC\<close> and \<^verbatim>\<open>Player\<close> differ in the fields they
  set; the code tells them apart by the field \<^verbatim>\<open>type\<close>. The model has one record with
  the fields of all classes and the field \<open>type\<close> as a datatype. A field that a class
  does not have keeps the value of \<open>blank\<close> and is never read for an object of that class.
  The names \<open>id'\<close>, \<open>value'\<close> and \<open>size'\<close> are the fields \<^verbatim>\<open>id\<close>, \<^verbatim>\<open>value\<close> and
  \<^verbatim>\<open>size\<close>.

  The array \<^verbatim>\<open>segments\<close> of a snake is never empty: the constructor pushes the head
  first and at least four more segments, and \<^verbatim>\<open>updateSegments\<close> pops only above five
  elements. The model stores it as the head \<^verbatim>\<open>segments[0]\<close> and the list of the
  segments behind it, so that \<open>segments e\<close> is a non-empty list by construction and
  \<^verbatim>\<open>segments[i]\<close> for \<open>i \<ge> 1\<close> is \<open>bodySegments e ! (i - 1)\<close>.
\<close>

datatype entityType = FoodT | DeathFoodT | SnakeT | NpcT | PlayerT

datatype npcState = Explore | Collect | Attack | Flee | Wander

datatype npcType = NORMAL_NPC | AGGRESSIVE | COWARD

datatype difficulty = EASY | NORMAL | HARD

record entity = circle +
  id' :: real
  markedForDeletion :: bool
  type :: entityType
  value' :: real
  color :: string
  pulseDirection :: real
  pulseAmount :: real
  pulseSpeed :: real
  lifespan :: int
  size' :: real
  headColor :: string
  angle :: real
  speed :: real
  headSegment :: circle
  bodySegments :: "circle list"
  segmentSpacing :: real
  score :: real
  maxScore :: real
  boosting :: bool
  killedNPCs :: nat
  npcType :: npcType
  difficulty :: difficulty
  targetAngle :: real
  turnSpeed :: real
  state :: npcState
  target :: "point option"
  targetTimeout :: int
  decisionRate :: int
  decisionCounter :: int
  visionRange :: real
  detectionRange :: real
  attackRange :: real
  exploreChance :: real
  attackChance :: real
  fleeChance :: real
  lastMousePosition :: point
  startTime :: real
  playTime :: real

definition blank :: entity where
  "blank = \<lparr>x = 0, y = 0, radius = 0, id' = 0, markedForDeletion = False, type = FoodT,
     value' = 0, color = [], pulseDirection = 0, pulseAmount = 0, pulseSpeed = 0, lifespan = 0,
     size' = 0, headColor = [], angle = 0, speed = 0,
     headSegment = \<lparr>x = 0, y = 0, radius = 0\<rparr>, bodySegments = [], segmentSpacing = 0,
     score = 0, maxScore = 0, boosting = False, killedNPCs = 0,
     npcType = NORMAL_NPC, difficulty = NORMAL, targetAngle = 0, turnSpeed = 0, state = Explore,
     target = None, targetTimeout = 0, decisionRate = 0, decisionCounter = 0,
     visionRange = 0, detectionRange = 0, attackRange = 0,
     exploreChance = 0, attackChance = 0, fleeChance = 0,
     lastMousePosition = \<lparr>x = 0, y = 0\<rparr>, startTime = 0, playTime = 0\<rparr>"

definition segments :: "entity \<Rightarrow> circle list" where
  "segments e = headSegment e # bodySegments e"

subsection \<open>Entity and Food\<close>

text \<open>
  \<^verbatim>\<open>Utils.generateId()\<close> prints one random number in base 36; the model keeps the
  number itself as the id. No code reads the id.
\<close>

definition new_Entity :: "real \<Rightarrow> real \<Rightarrow> real \<Rightarrow> rng \<Rightarrow> entity \<times> rng" where
  "new_Entity px py r g =
     (case Math_random g of
        (i, g') \<Rightarrow> (blank\<lparr>id' := i, x := px, y := py, radius := r, markedForDeletion := False\<rparr>, g'))"

definition destroy :: "entity \<Rightarrow> entity" where
  "destroy e = e\<lparr>markedForDeletion := True\<rparr>"

definition randomColor :: "rng \<Rightarrow> string \<times> rng" where
  "randomColor g =
     (case randomItem FOOD_COLORS g of (c, g') \<Rightarrow> (case c of Some s \<Rightarrow> s | None \<Rightarrow> ''undefined'', g'))"

text \<open>
  \<^verbatim>\<open>new Food(x, y, value, color)\<close>; \<open>None\<close> is the default \<^verbatim>\<open>color = null\<close>, and
  \<^verbatim>\<open>color || Utils.randomColor()\<close> also replaces the empty string.
\<close>

definition new_Food :: "real \<Rightarrow> real \<Rightarrow> real \<Rightarrow> string option \<Rightarrow> rng \<Rightarrow> entity \<times> rng" where
  "new_Food px py v col g =
     (case new_Entity px py FOOD_SIZE g of
        (e, g1) \<Rightarrow>
          (case (case col of Some c \<Rightarrow> (if c = [] then randomColor g1 else (c, g1))
                           | None \<Rightarrow> randomColor g1) of
             (c, g2) \<Rightarrow>
               (e\<lparr>value' := v, color := c, type := FoodT,
                   pulseDirection := 1, pulseAmount := 0, pulseSpeed := 5 / 100\<rparr>, g2)))"

definition new_DeathFood :: "real \<Rightarrow> real \<Rightarrow> string \<Rightarrow> rng \<Rightarrow> entity \<times> rng" where
  "new_DeathFood px py col g =
     (case new_Food px py DEATH_FOOD_VALUE (Some col) g of
        (e, g') \<Rightarrow> (e\<lparr>type := DeathFoodT, lifespan := 600, pulseSpeed := 1 / 10\<rparr>, g'))"

text \<open>\<^verbatim>\<open>Food.update()\<close> and \<^verbatim>\<open>DeathFood.update()\<close>.\<close>

definition Food_update :: "entity \<Rightarrow> entity" where
  "Food_update e =
     (let e1 = e\<lparr>pulseAmount := pulseAmount e + pulseSpeed e * pulseDirection e\<rparr>
      in if pulseAmount e1 \<ge> 1 then e1\<lparr>pulseDirection := - 1\<rparr>
         else if pulseAmount e1 \<le> 0 then e1\<lparr>pulseDirection := 1\<rparr>
         else e1)"

definition DeathFood_update :: "entity \<Rightarrow> entity" where
  "DeathFood_update e =
     (let e1 = Food_update e;
          e2 = e1\<lparr>lifespan := lifespan e1 - 1\<rparr>
      in if lifespan e2 \<le> 0 then destroy e2 else e2)"

text \<open>\<^verbatim>\<open>Entity.getBounds()\<close>.\<close>

definition Entity_getBounds :: "entity \<Rightarrow> box" where
  "Entity_getBounds e =
     \<lparr>x = x e - radius e, y = y e - radius e, width = radius e * 2, height = radius e * 2\<rparr>"

subsection \<open>Snake (src/js/snake.js)\<close>

text \<open>
  The loop of \<^verbatim>\<open>initSegments\<close>, \<^verbatim>\<open>for (i = 1; i < segmentCount; i++)\<close>: the segments
  pushed from index \<open>i\<close> on, where \<open>prevSegment\<close> is \<^verbatim>\<open>segments[i - 1]\<close>.
\<close>

function initBody :: "real \<Rightarrow> real \<Rightarrow> real \<Rightarrow> int \<Rightarrow> int \<Rightarrow> circle \<Rightarrow> circle list" where
  "initBody ang spacing r segmentCount i prevSegment =
     (if i < segmentCount then
        (let seg = \<lparr>x = x prevSegment + cos ang * spacing,
                    y = y prevSegment + sin ang * spacing,
                    radius = r * (1 - of_int i / (of_int segmentCount * 2))\<rparr>
         in seg # initBody ang spacing r segmentCount (i + 1) seg)
      else [])"
  by pat_completeness auto
termination
  by (relation "measure (\<lambda>(ang, spacing, r, segmentCount, i, prevSegment). nat (segmentCount - i))")
    auto

declare initBody.simps [simp del]

definition initSegments :: "entity \<Rightarrow> entity" where
  "initSegments e =
     (let hd_seg = \<lparr>x = x e, y = y e, radius = radius e\<rparr>;
          segmentCount = max 5 \<lfloor>size' e / 2\<rfloor>
      in e\<lparr>headSegment := hd_seg,
           bodySegments := initBody (angle e - pi) (segmentSpacing e) (radius e) segmentCount 1 hd_seg\<rparr>)"

definition new_Snake :: "real \<Rightarrow> real \<Rightarrow> real \<Rightarrow> string \<Rightarrow> string \<Rightarrow> rng \<Rightarrow> entity \<times> rng" where
  "new_Snake px py sz col hcol g =
     (case new_Entity px py SEGMENT_RADIUS g of
        (e, g') \<Rightarrow>
          (initSegments
             (e\<lparr>size' := sz, color := col, headColor := hcol, angle := 0, speed := PLAYER_SPEED,
                 segmentSpacing := SEGMENT_SPACING, type := SnakeT, score := sz, maxScore := sz,
                 boosting := False, killedNPCs := 0\<rparr>), g'))"

text \<open>
  \<^verbatim>\<open>updateSegments\<close>. Both while statements compare \<^verbatim>\<open>segments.length\<close> with
  \<open>idealSegmentCount = max 5 \<lfloor>size / 2\<rfloor>\<close>. The first pushes a segment behind the last
  one; \<^verbatim>\<open>segments[length - 2] || lastSegment\<close> is the last segment when the array has
  one element. The second pops; since the ideal count is at least 5 it never reaches the
  head.
\<close>

function growBody :: "circle \<Rightarrow> real \<Rightarrow> real \<Rightarrow> int \<Rightarrow> circle list \<Rightarrow> circle list" where
  "growBody h spacing r idealSegmentCount body =
     (let segs = h # body;
          len = length segs
      in if int len < idealSegmentCount then
           (let lastSegment = last segs;
                secondLastSegment = (if len \<ge> 2 then segs ! (len - 2) else lastSegment);
                ang = angle_between secondLastSegment lastSegment;
                seg = \<lparr>x = x lastSegment + cos ang * spacing,
                       y = y lastSegment + sin ang * spacing,
                       radius = r * (1 - real len / (of_int idealSegmentCount * 2))\<rparr>
            in growBody h spacing r idealSegmentCount (body @ [seg]))
         else body)"
  by pat_completeness auto
termination
  by (relation "measure (\<lambda>(h, spacing, r, idealSegmentCount, body).
        nat (idealSegmentCount - int (length body)))") auto

declare growBody.simps [simp del]

function shrinkBody :: "real \<Rightarrow> circle list \<Rightarrow> circle list" where
  "shrinkBody sz body =
     (if int (Suc (length body)) > max 5 \<lfloor>sz / 2\<rfloor> then shrinkBody sz (butlast body) else body)"
  by pat_completeness auto
termination
  by (relation "measure (\<lambda>(sz, body). length body)") auto

declare shrinkBody.simps [simp del]

definition updateSegments :: "entity \<Rightarrow> entity" where
  "updateSegments e =
     (let idealSegmentCount = max 5 \<lfloor>size' e / 2\<rfloor>;
          grown = growBody (headSegment e) (segmentSpacing e) (radius e) idealSegmentCount
                    (bodySegments e)
      in e\<lparr>bodySegments := shrinkBody (size' e) grown\<rparr>)"

text \<open>
  The body loop of \<^verbatim>\<open>Snake.update\<close>, \<^verbatim>\<open>for (i = length - 1; i > 0; i--)\<close>: segment
  \<open>i\<close> moves half of its excess distance toward segment \<open>i - 1\<close>. With
  \<open>segments = h # body\<close> and \<open>i = Suc k\<close>, the segment written is \<open>body ! k\<close>.
\<close>

definition follow :: "real \<Rightarrow> circle \<Rightarrow> circle \<Rightarrow> circle" where
  "follow idealDistance segment prevSegment =
     (let ang = angle_between segment prevSegment;
          d = distance segment prevSegment
      in if d > idealDistance then
           (let moveAmount = (d - idealDistance) * (1 / 2)
            in segment\<lparr>x := x segment + cos ang * moveAmount,
                       y := y segment + sin ang * moveAmount\<rparr>)
         else segment)"

fun followBody :: "real \<Rightarrow> circle \<Rightarrow> nat \<Rightarrow> circle list \<Rightarrow> circle list" where
  "followBody idealDistance h 0 body = body"
| "followBody idealDistance h (Suc k) body =
     followBody idealDistance h k
       (body[k := follow idealDistance ((h # body) ! Suc k) ((h # body) ! k)])"

text \<open>
  \<^verbatim>\<open>Snake.update()\<close>. The result is the food dropped (\<open>None\<close> for \<^verbatim>\<open>null\<close>), the snake
  and the rest of the random source. When the boosting snake drops food the function
  returns at once, before \<^verbatim>\<open>updateSegments()\<close> and the update of the score.
\<close>

definition Snake_update :: "entity \<Rightarrow> rng \<Rightarrow> entity option \<times> entity \<times> rng" where
  "Snake_update e g =
     (let spd = (if boosting e then BOOST_SPEED else speed e);
          dx = cos (angle e) * spd;
          dy = sin (angle e) * spd;
          x1 = wrapCoord (x e + dx) WORLD_WIDTH;
          y1 = wrapCoord (y e + dy) WORLD_HEIGHT;
          h = (headSegment e)\<lparr>x := x1, y := y1\<rparr>;
          e1 = e\<lparr>x := x1, y := y1, headSegment := h,
                 bodySegments := followBody (segmentSpacing e) h (length (bodySegments e))
                                   (bodySegments e)\<rparr>;
          finish = (\<lambda>e2. let e3 = updateSegments e2;
                             e4 = e3\<lparr>score := size' e3\<rparr>
                         in e4\<lparr>maxScore := max (maxScore e4) (score e4)\<rparr>)
      in if boosting e1 \<and> size' e1 > MIN_SEGMENTS_FOR_BOOST then
           (let e2 = e1\<lparr>size' := size' e1 - BOOST_CONSUMPTION\<rparr>
            in case Math_random g of
                 (r, g1) \<Rightarrow>
                   if r < 1 / 10 then
                     (let lastSegment = last (segments e2)
                      in case new_DeathFood (x lastSegment) (y lastSegment) (color e2) g1 of
                           (f, g2) \<Rightarrow> (Some f, e2, g2))
                   else (None, finish e2, g1))
         else (None, finish e1, g))"

definition eatFood :: "entity \<Rightarrow> entity \<Rightarrow> entity" where
  "eatFood e fd = e\<lparr>size' := size' e + value' fd\<rparr>"

text \<open>
  \<^verbatim>\<open>isCollidingWithSnake\<close> and \<^verbatim>\<open>isHeadCollidingWithHead\<close> first compare the two
  objects by reference (\<^verbatim>\<open>this === other\<close>); the argument \<open>same\<close> is the result of that
  comparison. The loop of the first skips index 0, so it runs over the body segments.
\<close>

definition isCollidingWithSnake :: "bool \<Rightarrow> entity \<Rightarrow> entity \<Rightarrow> bool" where
  "isCollidingWithSnake same this other =
     (if same then False
      else list_ex (\<lambda>segment. circleCollision (headSegment this) segment) (bodySegments other))"

definition isHeadCollidingWithHead :: "bool \<Rightarrow> entity \<Rightarrow> entity \<Rightarrow> bool" where
  "isHeadCollidingWithHead same this other =
     (if same then False else circleCollision (headSegment this) (headSegment other))"

text \<open>
  \<^verbatim>\<open>die()\<close>. The loop \<^verbatim>\<open>for (i = 0; i < foodCount; i++)\<close> draws, for each item, an angle
  and a distance and then the id of the new \<^verbatim>\<open>DeathFood\<close>. The index
  \<open>\<lfloor>i * length / foodCount\<rfloor>\<close> is inside the array for \<open>0 \<le> i < foodCount\<close> (lemma
  \<open>die_index_in_range\<close>).
\<close>

function dieLoop :: "entity \<Rightarrow> int \<Rightarrow> int \<Rightarrow> rng \<Rightarrow> entity list \<times> rng" where
  "dieLoop e foodCount i g =
     (if i < foodCount then
        (let segmentIndex = \<lfloor>of_int i * real (length (segments e)) / of_int foodCount\<rfloor>;
             segment = segments e ! nat segmentIndex
         in case random' 0 (pi * 2) g of
              (ang, g1) \<Rightarrow>
                (case random' 0 DEATH_FOOD_SPREAD_RADIUS g1 of
                   (dst, g2) \<Rightarrow>
                     (let foodX = x segment + cos ang * dst;
                          foodY = y segment + sin ang * dst
                      in case new_DeathFood foodX foodY (color e) g2 of
                           (f, g3) \<Rightarrow>
                             (case dieLoop e foodCount (i + 1) g3 of
                                (fs, g4) \<Rightarrow> (f # fs, g4)))))
      else ([], g))"
  by pat_completeness auto
termination
  by (relation "measure (\<lambda>(e, foodCount, i, g). nat (foodCount - i))") auto

declare dieLoop.simps [simp del]

definition die :: "entity \<Rightarrow> rng \<Rightarrow> entity list \<times> entity \<times> rng" where
  "die e g =
     (case randomInt DEATH_FOOD_MIN_COUNT (min DEATH_FOOD_MAX_COUNT (size' e)) g of
        (foodCount, g1) \<Rightarrow>
          (case dieLoop e foodCount 0 g1 of
             (foodItems, g2) \<Rightarrow> (foodItems, destroy e, g2)))"

text \<open>
  \<^verbatim>\<open>Snake.getBounds()\<close>: the box around all segments. The source starts the minimum at
  \<^verbatim>\<open>Infinity\<close> and the maximum at \<^verbatim>\<open>-Infinity\<close>; after the head segment they are the
  values of the head, where the fold starts.
\<close>

definition Snake_getBounds :: "entity \<Rightarrow> box" where
  "Snake_getBounds e =
     (let h = headSegment e;
          minX = foldl (\<lambda>m segment. min m (x segment - radius segment)) (x h - radius h)
                   (bodySegments e);
          minY = foldl (\<lambda>m segment. min m (y segment - radius segment)) (y h - radius h)
                   (bodySegments e);
          maxX = foldl (\<lambda>m segment. max m (x segment + radius segment)) (x h + radius h)
                   (bodySegments e);
          maxY = foldl (\<lambda>m segment. max m (y segment + radius segment)) (y h + radius h)
                   (bodySegments e)
      in \<lparr>x = minX, y = minY, width = maxX - minX, height = maxY - minY\<rparr>)"

text \<open>The method \<^verbatim>\<open>getBounds\<close> of an entity: the class of a snake overrides it.\<close>

definition getBounds :: "entity \<Rightarrow> box" where
  "getBounds e =
     (if type e = SnakeT \<or> type e = NpcT \<or> type e = PlayerT then Snake_getBounds e
      else Entity_getBounds e)"

subsection \<open>Configuration of the NPCs (src/js/config.js)\<close>

fun NPC_COLOR :: "npcType \<Rightarrow> string" where
  "NPC_COLOR NORMAL_NPC = ''#4ae24a''"
| "NPC_COLOR AGGRESSIVE = ''#e24a4a''"
| "NPC_COLOR COWARD = ''#e2e24a''"

fun NPC_HEAD_COLOR :: "npcType \<Rightarrow> string" where
  "NPC_HEAD_COLOR NORMAL_NPC = ''#35bd35''"
| "NPC_HEAD_COLOR AGGRESSIVE = ''#bd3535''"
| "NPC_HEAD_COLOR COWARD = ''#bdbd35''"

fun EXPLORE_CHANCE :: "npcType \<Rightarrow> real" where
  "EXPLORE_CHANCE NORMAL_NPC = 7 / 10"
| "EXPLORE_CHANCE AGGRESSIVE = 3 / 10"
| "EXPLORE_CHANCE COWARD = 8 / 10"

fun ATTACK_CHANCE :: "npcType \<Rightarrow> real" where
  "ATTACK_CHANCE NORMAL_NPC = 2 / 10"
| "ATTACK_CHANCE AGGRESSIVE = 6 / 10"
| "ATTACK_CHANCE COWARD = 5 / 100"

fun FLEE_CHANCE :: "npcType \<Rightarrow> real" where
  "FLEE_CHANCE NORMAL_NPC = 1 / 10"
| "FLEE_CHANCE AGGRESSIVE = 1 / 10"
| "FLEE_CHANCE COWARD = 15 / 100"

fun DECISION_RATE :: "npcType \<Rightarrow> int" where
  "DECISION_RATE NORMAL_NPC = 30"
| "DECISION_RATE AGGRESSIVE = 20"
| "DECISION_RATE COWARD = 40"

fun SPEED_MULTIPLIER :: "difficulty \<Rightarrow> real" where
  "SPEED_MULTIPLIER EASY = 7 / 10"
| "SPEED_MULTIPLIER NORMAL = 1"
| "SPEED_MULTIPLIER HARD = 12 / 10"

definition VISION_RANGE :: real where "VISION_RANGE = 500"
definition DETECTION_RANGE :: real where "DETECTION_RANGE = 300"
definition ATTACK_RANGE :: real where "ATTACK_RANGE = 200"

subsection \<open>Angles (src/js/ui.js)\<close>

text \<open>
  \<^verbatim>\<open>Utils.normalizeAngle\<close>: \<^verbatim>\<open>while (angle < 0) angle += 2\<pi>\<close>, then
  \<^verbatim>\<open>while (angle >= 2\<pi>) angle -= 2\<pi>\<close>. On real numbers both terminate.
\<close>

function normalizeUp :: "real \<Rightarrow> real" where
  "normalizeUp a = (if a < 0 then normalizeUp (a + pi * 2) else a)"
  by pat_completeness auto
termination
proof (relation "measure (\<lambda>a. nat \<lceil>- a / (pi * 2)\<rceil>)")
  show "wf (measure (\<lambda>a. nat \<lceil>- a / (pi * 2)\<rceil>))" by simp
next
  fix a :: real
  assume a: "a < 0"
  have "- (a + pi * 2) / (pi * 2) = - a / (pi * 2) - 1"
    by (simp add: field_simps)
  then have c: "\<lceil>- (a + pi * 2) / (pi * 2)\<rceil> = \<lceil>- a / (pi * 2)\<rceil> - 1"
    by (simp only: ceiling_diff_one)
  have "0 < - a / (pi * 2)" using a by (intro divide_pos_pos) simp_all
  then have "0 < \<lceil>- a / (pi * 2)\<rceil>" by (subst less_ceiling_iff) simp
  with c have "nat \<lceil>- (a + pi * 2) / (pi * 2)\<rceil> < nat \<lceil>- a / (pi * 2)\<rceil>"
    by linarith
  then show "(a + pi * 2, a) \<in> measure (\<lambda>a. nat \<lceil>- a / (pi * 2)\<rceil>)"
    unfolding in_measure .
qed

declare normalizeUp.simps [simp del]

function normalizeDown :: "real \<Rightarrow> real" where
  "normalizeDown a = (if a \<ge> pi * 2 then normalizeDown (a - pi * 2) else a)"
  by pat_completeness auto
termination
proof (relation "measure (\<lambda>a. nat \<lfloor>a / (pi * 2)\<rfloor>)")
  show "wf (measure (\<lambda>a. nat \<lfloor>a / (pi * 2)\<rfloor>))" by simp
next
  fix a :: real
  assume a: "pi * 2 \<le> a"
  have "(a - pi * 2) / (pi * 2) = a / (pi * 2) - 1"
    by (simp add: field_simps)
  then have c: "\<lfloor>(a - pi * 2) / (pi * 2)\<rfloor> = \<lfloor>a / (pi * 2)\<rfloor> - 1"
    by (simp only: floor_diff_one)
  have "1 \<le> a / (pi * 2)" using a by (simp add: pos_le_divide_eq)
  then have "1 \<le> \<lfloor>a / (pi * 2)\<rfloor>" by (subst le_floor_iff) simp
  with c have "nat \<lfloor>(a - pi * 2) / (pi * 2)\<rfloor> < nat \<lfloor>a / (pi * 2)\<rfloor>"
    by linarith
  then show "(a - pi * 2, a) \<in> measure (\<lambda>a. nat \<lfloor>a / (pi * 2)\<rfloor>)"
    unfolding in_measure .
qed

declare normalizeDown.simps [simp del]

definition normalizeAngle :: "real \<Rightarrow> real" where
  "normalizeAngle a = normalizeDown (normalizeUp a)"

definition angleDifference :: "real \<Rightarrow> real \<Rightarrow> real" where
  "angleDifference angle1 angle2 =
     (let a1 = normalizeAngle angle1;
          a2 = normalizeAngle angle2;
          diff = a2 - a1;
          diff1 = (if diff > pi then diff - pi * 2 else diff);
          diff2 = (if diff1 < - pi then diff1 + pi * 2 else diff1)
      in diff2)"

subsection \<open>Player (src/js/npc.js, class Player)\<close>

text \<open>
  What the player's update reads from outside the game: the size of the window and the
  clock \<^verbatim>\<open>Date.now()\<close>.
\<close>

record env =
  innerWidth :: real
  innerHeight :: real
  now :: real

definition new_Player :: "real \<Rightarrow> real \<Rightarrow> real \<Rightarrow> env \<Rightarrow> rng \<Rightarrow> entity \<times> rng" where
  "new_Player px py sz ev g =
     (case new_Snake px py sz PLAYER_COLOR PLAYER_HEAD_COLOR g of
        (e, g') \<Rightarrow>
          (e\<lparr>type := PlayerT, targetAngle := angle e, turnSpeed := TURN_SPEED,
              lastMousePosition := \<lparr>x = 0, y = 0\<rparr>, startTime := now ev, playTime := 0\<rparr>, g'))"

text \<open>
  The three listeners of \<^verbatim>\<open>setupEventListeners\<close>; the browser runs them between
  ticks. They are the only code that sets the player's \<^verbatim>\<open>boosting\<close> flag.
\<close>

definition onMouseMove :: "real \<Rightarrow> real \<Rightarrow> entity \<Rightarrow> entity" where
  "onMouseMove clientX clientY e = e\<lparr>lastMousePosition := \<lparr>x = clientX, y = clientY\<rparr>\<rparr>"

definition onMouseDown :: "entity \<Rightarrow> entity" where
  "onMouseDown e = (if size' e > MIN_SEGMENTS_FOR_BOOST then e\<lparr>boosting := True\<rparr> else e)"

definition onMouseUp :: "entity \<Rightarrow> entity" where
  "onMouseUp e = e\<lparr>boosting := False\<rparr>"

definition Player_update :: "env \<Rightarrow> entity \<Rightarrow> rng \<Rightarrow> entity option \<times> entity \<times> rng" where
  "Player_update ev e g =
     (let centerX = innerWidth ev / 2;
          centerY = innerHeight ev / 2;
          e1 = e\<lparr>targetAngle := atan2 (y (lastMousePosition e) - centerY)
                                     (x (lastMousePosition e) - centerX)\<rparr>;
          angleDiff = angleDifference (angle e1) (targetAngle e1);
          e2 = e1\<lparr>angle := angle e1 + angleDiff * turnSpeed e1\<rparr>;
          e3 = e2\<lparr>playTime := (now ev - startTime e2) / 1000\<rparr>
      in Snake_update e3 g)"

subsection \<open>NPC (src/js/npc.js, class NPC)\<close>

definition new_NPC ::
  "real \<Rightarrow> real \<Rightarrow> real \<Rightarrow> npcType \<Rightarrow> difficulty \<Rightarrow> rng \<Rightarrow> entity \<times> rng" where
  "new_NPC px py sz typ diff g =
     (case new_Snake px py sz (NPC_COLOR typ) (NPC_HEAD_COLOR typ) g of
        (e, g1) \<Rightarrow>
          (case randomInt 0 (of_int (DECISION_RATE typ)) g1 of
             (counter, g2) \<Rightarrow>
               (e\<lparr>type := NpcT, npcType := typ, difficulty := diff, targetAngle := angle e,
                   turnSpeed := TURN_SPEED * SPEED_MULTIPLIER diff,
                   speed := PLAYER_SPEED * SPEED_MULTIPLIER diff,
                   state := Explore, target := None, targetTimeout := 0,
                   decisionRate := DECISION_RATE typ, decisionCounter := counter,
                   visionRange := VISION_RANGE, detectionRange := DETECTION_RANGE,
                   attackRange := ATTACK_RANGE,
                   exploreChance := EXPLORE_CHANCE typ, attackChance := ATTACK_CHANCE typ,
                   fleeChance := FLEE_CHANCE typ\<rparr>, g2)))"

text \<open>
  \<^verbatim>\<open>makeDecision\<close> looks at the objects that \<^verbatim>\<open>quadtree.retrieve(searchArea)\<close>
  returns. The tree holds the results of \<^verbatim>\<open>getBounds()\<close>, objects with the fields
  \<^verbatim>\<open>x\<close>, \<^verbatim>\<open>y\<close>, \<^verbatim>\<open>width\<close> and \<^verbatim>\<open>height\<close> only: reading \<^verbatim>\<open>entity.type\<close> or
  \<^verbatim>\<open>entity.size\<close> from one of them gives \<^verbatim>\<open>undefined\<close> (\<open>None\<close>), every comparison
  with \<^verbatim>\<open>undefined\<close> is false, and none of them is the NPC itself.
\<close>

definition box_type :: "box \<Rightarrow> entityType option" where
  "box_type b = None"

definition box_size :: "box \<Rightarrow> real option" where
  "box_size b = None"

definition as_point :: "'a point_scheme \<Rightarrow> point" where
  "as_point p = \<lparr>x = x p, y = y p\<rparr>"

definition chooseExploreTarget :: "entity \<Rightarrow> (box \<times> real) list \<Rightarrow> rng \<Rightarrow> entity \<times> rng" where
  "chooseExploreTarget e nearbyFood g =
     (if length nearbyFood > 0 then
        (let sorted = sort_key snd nearbyFood;
             deathFood = filter (\<lambda>f. box_type (fst f) = Some DeathFoodT) sorted
         in if length deathFood > 0 \<and> snd (hd deathFood) < visionRange e * (7 / 10) then
              (e\<lparr>state := Collect, target := Some (as_point (fst (hd deathFood))),
                  targetTimeout := 60\<rparr>, g)
            else
              (e\<lparr>state := Collect, target := Some (as_point (fst (hd sorted))),
                  targetTimeout := 60\<rparr>, g))
      else
        (case random' 0 WORLD_WIDTH g of
           (tx, g1) \<Rightarrow>
             (case random' 0 WORLD_HEIGHT g1 of
                (ty, g2) \<Rightarrow>
                  (e\<lparr>state := Explore, target := Some \<lparr>x = tx, y = ty\<rparr>,
                      targetTimeout := 180\<rparr>, g2))))"

definition makeDecision :: "entity \<Rightarrow> box quadtree \<Rightarrow> rng \<Rightarrow> entity \<times> rng" where
  "makeDecision e quadtree g =
     (let searchArea = \<lparr>x = x e - visionRange e, y = y e - visionRange e,
                         width = visionRange e * 2, height = visionRange e * 2\<rparr>;
          nearbyEntities = retrieve quadtree searchArea;
          visible = filter (\<lambda>p. snd p \<le> visionRange e)
                      (map (\<lambda>entity. (entity, distance e entity)) nearbyEntities);
          nearbyFood = filter (\<lambda>p. box_type (fst p) = Some FoodT \<or>
                                     box_type (fst p) = Some DeathFoodT) visible;
          nearbySnakes = filter (\<lambda>p. box_type (fst p) = Some SnakeT \<or>
                                       box_type (fst p) = Some PlayerT \<or>
                                       box_type (fst p) = Some NpcT) visible;
          threats = filter (\<lambda>p. case box_size (fst p) of
                                   Some s \<Rightarrow> s > size' e * (12 / 10) | None \<Rightarrow> False)
                      nearbySnakes;
          wander = (\<lambda>g0. case random' 0 (pi * 2) g0 of
                            (a, g1) \<Rightarrow>
                              (e\<lparr>state := Wander, target := None, targetAngle := a,
                                  targetTimeout := 60\<rparr>, g1));
          explore = (\<lambda>g0. case Math_random g0 of
                             (r, g1) \<Rightarrow>
                               if r < exploreChance e then chooseExploreTarget e nearbyFood g1
                               else wander g1);
          attack = (\<lambda>g0. if length nearbySnakes > 0 then
                            (case Math_random g0 of
                               (r, g1) \<Rightarrow>
                                 if r < attackChance e then
                                   (let prey = filter (\<lambda>p. case box_size (fst p) of
                                                  Some s \<Rightarrow> s < size' e * (8 / 10)
                                                | None \<Rightarrow> False) nearbySnakes
                                    in if length prey > 0 then
                                         (e\<lparr>state := Attack,
                                             target := Some (as_point (fst (hd (sort_key snd prey)))),
                                             targetTimeout := 120\<rparr>, g1)
                                       else chooseExploreTarget e nearbyFood g1)
                                 else explore g1)
                          else explore g0)
      in if length threats > 0 then
           (case Math_random g of
              (r, g1) \<Rightarrow>
                if r < fleeChance e then
                  (e\<lparr>state := Flee, target := Some (as_point (fst (hd (sort_key snd threats)))),
                      targetTimeout := 60, boosting := True\<rparr>, g1)
                else attack g1)
         else attack g)"

text \<open>
  \<^verbatim>\<open>avoidObstacles(entities)\<close>. The argument \<open>others\<close> is the array \<^verbatim>\<open>entities\<close> without
  the NPC itself (the source skips it by the comparison \<^verbatim>\<open>entity === this\<close>). The two
  nested for statements stop at the first segment, in the order of the array, that is near the
  look-ahead point.
\<close>

definition isSnakeType :: "entity \<Rightarrow> bool" where
  "isSnakeType e \<longleftrightarrow> type e = SnakeT \<or> type e = PlayerT \<or> type e = NpcT"

definition avoidObstacles :: "entity \<Rightarrow> entity list \<Rightarrow> entity" where
  "avoidObstacles e others =
     (let lookAheadDistance = speed e * 10;
          lookAheadPoint = \<lparr>x = x e + cos (targetAngle e) * lookAheadDistance,
                             y = y e + sin (targetAngle e) * lookAheadDistance\<rparr>;
          collisionPoint =
            find (\<lambda>segment. distance lookAheadPoint segment < radius segment + radius e * 2)
              (concat (map segments (filter isSnakeType others)))
      in case collisionPoint of
           Some segment \<Rightarrow>
             (let collisionAngle = angle_between e segment;
                  angleToCollision = angleDifference (angle e) collisionAngle
              in if angleToCollision > 0 then e\<lparr>targetAngle := angle e - pi / 4\<rparr>
                 else e\<lparr>targetAngle := angle e + pi / 4\<rparr>)
         | None \<Rightarrow> e)"

text \<open>
  \<^verbatim>\<open>updateTargetAngle(entities)\<close>. A target is one of the plain objects above, so
  \<^verbatim>\<open>this.target.markedForDeletion\<close> is \<^verbatim>\<open>undefined\<close> and the test
  \<^verbatim>\<open>this.target && !this.target.markedForDeletion\<close> asks whether there is a target. The
  field \<open>state\<close> only takes the five values of the \<^verbatim>\<open>switch\<close>.
\<close>

definition updateTargetAngle :: "entity \<Rightarrow> entity list \<Rightarrow> rng \<Rightarrow> entity \<times> rng" where
  "updateTargetAngle e others g =
     (let e1 =
            (case state e of
               Explore \<Rightarrow>
                 (case target e of
                    Some t \<Rightarrow> e\<lparr>targetAngle := angle_between e t\<rparr> | None \<Rightarrow> e)
             | Collect \<Rightarrow>
                 (case target e of
                    Some t \<Rightarrow> e\<lparr>targetAngle := angle_between e t\<rparr> | None \<Rightarrow> e)
             | Attack \<Rightarrow>
                 (case target e of
                    Some t \<Rightarrow>
                      e\<lparr>targetAngle := angle_between e t,
                        boosting := (distance e t < attackRange e \<and>
                                     size' e > MIN_SEGMENTS_FOR_BOOST)\<rparr>
                  | None \<Rightarrow> e\<lparr>state := Explore, target := None, boosting := False\<rparr>)
             | Flee \<Rightarrow>
                 (case target e of
                    Some t \<Rightarrow>
                      e\<lparr>targetAngle := angle_between e t + pi,
                        boosting := (distance e t < detectionRange e \<and>
                                     size' e > MIN_SEGMENTS_FOR_BOOST)\<rparr>
                  | None \<Rightarrow> e\<lparr>state := Explore, target := None, boosting := False\<rparr>)
             | Wander \<Rightarrow> e)
      in case Math_random g of
           (r, g1) \<Rightarrow>
             if r < 5 / 100 then
               (case random' (- (3 / 10)) (3 / 10) g1 of
                  (j, g2) \<Rightarrow>
                    (avoidObstacles (e1\<lparr>targetAngle := targetAngle e1 + j\<rparr>) others, g2))
             else (avoidObstacles e1 others, g1))"

definition handleBoosting :: "entity \<Rightarrow> rng \<Rightarrow> entity \<times> rng" where
  "handleBoosting e g =
     (let e1 = (if size' e \<le> MIN_SEGMENTS_FOR_BOOST then e\<lparr>boosting := False\<rparr> else e)
      in if boosting e1 then
           (case Math_random g of
              (r, g1) \<Rightarrow> if r < 2 / 100 then (e1\<lparr>boosting := False\<rparr>, g1) else (e1, g1))
         else (e1, g))"

text \<open>\<^verbatim>\<open>NPC.update(entities, quadtree)\<close>.\<close>

definition NPC_update ::
  "entity \<Rightarrow> entity list \<Rightarrow> box quadtree \<Rightarrow> rng \<Rightarrow> entity option \<times> entity \<times> rng" where
  "NPC_update e others quadtree g =
     (let e1 = e\<lparr>decisionCounter := decisionCounter e + 1\<rparr>
      in case (if decisionCounter e1 \<ge> decisionRate e1 then
                 (case makeDecision e1 quadtree g of
                    (d, g') \<Rightarrow> (d\<lparr>decisionCounter := 0\<rparr>, g'))
               else (e1, g)) of
           (e2, g1) \<Rightarrow>
             (case updateTargetAngle e2 others g1 of
                (e3, g2) \<Rightarrow>
                  (let angleDiff = angleDifference (angle e3) (targetAngle e3);
                       e4 = e3\<lparr>angle := angle e3 + angleDiff * turnSpeed e3\<rparr>
                   in case handleBoosting e4 g2 of
                        (e5, g3) \<Rightarrow>
                          (let e6 =
                                 (if targetTimeout e5 > 0 then
                                    (let e' = e5\<lparr>targetTimeout := targetTimeout e5 - 1\<rparr>
                                     in if targetTimeout e' = 0 then e'\<lparr>target := None\<rparr>
                                        else e')
                                  else e5)
                           in Snake_update e6 g3))))"

section \<open>The store of objects\<close>

text \<open>
  The game shares its objects: \<^verbatim>\<open>GameState.player\<close> is also an element of
  \<^verbatim>\<open>GameState.entities\<close>, and the collision code marks objects that the array holds.
  The model has an explicit store: a reference is a natural number, \<open>heap\<close> maps a
  reference to the object, and an array of objects is a list of references. The random
  source is part of the same state.
\<close>

record sim =
  heap :: "nat \<Rightarrow> entity"
  rng :: rng

definition modify :: "nat \<Rightarrow> (entity \<Rightarrow> entity) \<Rightarrow> 'a sim_scheme \<Rightarrow> 'a sim_scheme" where
  "modify r f s = s\<lparr>heap := (heap s)(r := f (heap s r))\<rparr>"

text \<open>
  A call \<^verbatim>\<open>snake.die()\<close> on the object at \<open>r\<close>, followed by
  \<^verbatim>\<open>newEntities.push(...foodItems)\<close>.
\<close>

definition die_at :: "nat \<Rightarrow> 'a sim_scheme \<times> entity list \<Rightarrow> 'a sim_scheme \<times> entity list" where
  "die_at r sn =
     (case sn of
        (s, newEntities) \<Rightarrow>
          (case die (heap s r) (rng s) of
             (foodItems, e', g') \<Rightarrow>
               (s\<lparr>heap := (heap s)(r := e'), rng := g'\<rparr>, newEntities @ foodItems)))"

section \<open>Collision system (src/js/collision.js)\<close>

definition isFoodType :: "entity \<Rightarrow> bool" where
  "isFoodType e \<longleftrightarrow> type e = FoodT \<or> type e = DeathFoodT"

text \<open>
  One iteration of the statement \<^verbatim>\<open>for (const entity of entities)\<close> in
  \<^verbatim>\<open>checkPlayerFoodCollisions\<close> and in the food part of \<^verbatim>\<open>checkNPCCollisions\<close>: the
  snake at \<open>p\<close> eats the food at \<open>r\<close> when its head overlaps it. (The result of
  \<^verbatim>\<open>quadtree.retrieve\<close> in \<^verbatim>\<open>checkPlayerFoodCollisions\<close> is not used.)
\<close>

definition eatStep :: "nat \<Rightarrow> 'a sim_scheme \<Rightarrow> nat \<Rightarrow> 'a sim_scheme" where
  "eatStep p s r =
     (let entity = heap s r
      in if \<not> isFoodType entity \<or> markedForDeletion entity then s
         else if circleCollision (headSegment (heap s p)) entity then
           modify r destroy (modify p (\<lambda>snake. eatFood snake entity) s)
         else s)"

definition checkPlayerFoodCollisions :: "nat \<Rightarrow> nat list \<Rightarrow> 'a sim_scheme \<Rightarrow> 'a sim_scheme" where
  "checkPlayerFoodCollisions p entities s = foldl (eatStep p) s entities"

text \<open>
  \<^verbatim>\<open>checkPlayerSnakeCollisions\<close>. \<open>killNpc\<close> is the death of the other snake with the
  increment of the player's counter, and \<open>bodyStrikeOnPlayer\<close> the second test of an
  iteration (the other snake's head against the player's body). The recursion runs over
  the array; where the source returns from the function, the recursion stops. After the
  second test the source goes on to the head-to-head test, also when the other snake has
  just died.
\<close>

definition killNpc ::
  "nat \<Rightarrow> nat \<Rightarrow> 'a sim_scheme \<times> entity list \<Rightarrow> 'a sim_scheme \<times> entity list" where
  "killNpc p r sn =
     (case die_at r sn of
        (s', n') \<Rightarrow> (modify p (\<lambda>pl. pl\<lparr>killedNPCs := killedNPCs pl + 1\<rparr>) s', n'))"

definition bodyStrikeOnPlayer ::
  "nat \<Rightarrow> nat \<Rightarrow> 'a sim_scheme \<times> entity list \<Rightarrow> 'a sim_scheme \<times> entity list" where
  "bodyStrikeOnPlayer p r sn =
     (if isCollidingWithSnake (r = p) (heap (fst sn) r) (heap (fst sn) p) then killNpc p r sn
      else sn)"

fun playerSnakeLoop ::
  "nat \<Rightarrow> nat list \<Rightarrow> 'a sim_scheme \<times> entity list \<Rightarrow> 'a sim_scheme \<times> entity list" where
  "playerSnakeLoop p [] sn = sn"
| "playerSnakeLoop p (r # rs) sn =
     (let entity = heap (fst sn) r
      in if (type entity \<noteq> SnakeT \<and> type entity \<noteq> NpcT) \<or> r = p \<or> markedForDeletion entity
         then playerSnakeLoop p rs sn
         else if isCollidingWithSnake (p = r) (heap (fst sn) p) entity then die_at p sn
         else
           (let sn1 = bodyStrikeOnPlayer p r sn
            in if isHeadCollidingWithHead (p = r) (heap (fst sn1) p) (heap (fst sn1) r) then
                 (if size' (heap (fst sn1) p) < size' (heap (fst sn1) r) then die_at p sn1
                  else playerSnakeLoop p rs (killNpc p r sn1))
               else playerSnakeLoop p rs sn1))"

definition checkPlayerSnakeCollisions ::
  "nat \<Rightarrow> nat list \<Rightarrow> 'a sim_scheme \<times> entity list \<Rightarrow> 'a sim_scheme \<times> entity list" where
  "checkPlayerSnakeCollisions p entities sn =
     (if markedForDeletion (heap (fst sn) p) then sn else playerSnakeLoop p entities sn)"

text \<open>
  \<^verbatim>\<open>checkNPCCollisions\<close>. \<open>npcInner r1 rs\<close> is the inner statement
  \<^verbatim>\<open>for (j = i + 1; ...)\<close> for \<open>npc1\<close> at \<open>r1\<close> and the rest \<open>rs\<close> of the array \<open>npcs\<close>;
  \<^verbatim>\<open>break\<close> ends the recursion and \<^verbatim>\<open>continue\<close> goes on with the next element.
\<close>

fun npcInner ::
  "nat \<Rightarrow> nat list \<Rightarrow> 'a sim_scheme \<times> entity list \<Rightarrow> 'a sim_scheme \<times> entity list" where
  "npcInner r1 [] sn = sn"
| "npcInner r1 (r2 # rs) sn =
     (let npc1 = heap (fst sn) r1;
          npc2 = heap (fst sn) r2
      in if markedForDeletion npc2 then npcInner r1 rs sn
         else if isCollidingWithSnake (r1 = r2) npc1 npc2 then die_at r1 sn
         else if isCollidingWithSnake (r2 = r1) npc2 npc1 then npcInner r1 rs (die_at r2 sn)
         else if isHeadCollidingWithHead (r1 = r2) npc1 npc2 then
           (if size' npc1 < size' npc2 then die_at r1 sn
            else if size' npc2 < size' npc1 then npcInner r1 rs (die_at r2 sn)
            else die_at r2 (die_at r1 sn))
         else npcInner r1 rs sn)"

fun npcOuter ::
  "nat list \<Rightarrow> 'a sim_scheme \<times> entity list \<Rightarrow> 'a sim_scheme \<times> entity list" where
  "npcOuter [] sn = sn"
| "npcOuter (r1 # rs) sn =
     (if markedForDeletion (heap (fst sn) r1) then npcOuter rs sn
      else npcOuter rs (npcInner r1 rs sn))"

text \<open>
  The array \<^verbatim>\<open>npcs\<close> of \<^verbatim>\<open>checkNPCCollisions\<close>: the snakes other than the player that
  are not marked when the function starts.
\<close>

definition liveSnakes :: "nat list \<Rightarrow> 'a sim_scheme \<Rightarrow> nat list" where
  "liveSnakes entities s =
     filter (\<lambda>r. (type (heap s r) = NpcT \<or> type (heap s r) = SnakeT) \<and>
                 type (heap s r) \<noteq> PlayerT \<and> \<not> markedForDeletion (heap s r))
       entities"

definition checkNPCCollisions ::
  "nat list \<Rightarrow> 'a sim_scheme \<times> entity list \<Rightarrow> 'a sim_scheme \<times> entity list" where
  "checkNPCCollisions entities sn =
     (let npcs = liveSnakes entities (fst sn);
          s1 = foldl (\<lambda>s0 npc. foldl (eatStep npc) s0 entities) (fst sn) npcs
      in npcOuter npcs (s1, snd sn))"

definition checkCollisions ::
  "nat list \<Rightarrow> nat \<Rightarrow> 'a sim_scheme \<Rightarrow> 'a sim_scheme \<times> entity list" where
  "checkCollisions entities p s =
     checkNPCCollisions entities
       (checkPlayerSnakeCollisions p entities (checkPlayerFoodCollisions p entities s, []))"

section \<open>Predicates on the collision pass\<close>

text \<open>
  What the collision tests read of a snake (its head, its body segments and its type); no
  step of the pass changes it.
\<close>

definition shape :: "entity \<Rightarrow> circle \<times> circle list \<times> entityType" where
  "shape e = (headSegment e, bodySegments e, type e)"

definition sameShapes :: "'a sim_scheme \<Rightarrow> 'a sim_scheme \<Rightarrow> bool" where
  "sameShapes s s' \<longleftrightarrow> (\<forall>r. shape (heap s' r) = shape (heap s r))"

text \<open>
  A snake other than the player that is not marked; the head of \<open>a\<close> on a body segment
  of the live snake \<open>b\<close>; and two snakes that do not touch.
\<close>

definition liveSnake :: "nat \<Rightarrow> 'a sim_scheme \<Rightarrow> bool" where
  "liveSnake r s \<longleftrightarrow>
     (type (heap s r) = NpcT \<or> type (heap s r) = SnakeT) \<and> \<not> markedForDeletion (heap s r)"

definition strikes :: "nat \<Rightarrow> nat \<Rightarrow> 'a sim_scheme \<Rightarrow> bool" where
  "strikes a b s \<longleftrightarrow>
     a \<noteq> b \<and> (type (heap s b) = NpcT \<or> type (heap s b) = SnakeT) \<and>
     \<not> markedForDeletion (heap s b) \<and>
     isCollidingWithSnake False (heap s a) (heap s b)"

definition noContact :: "nat \<Rightarrow> nat \<Rightarrow> 'a sim_scheme \<Rightarrow> bool" where
  "noContact p r s \<longleftrightarrow>
     \<not> isCollidingWithSnake False (heap s p) (heap s r) \<and>
     \<not> isCollidingWithSnake False (heap s r) (heap s p) \<and>
     \<not> isHeadCollidingWithHead False (heap s p) (heap s r)"

text \<open>
  A snake of the game whose player is \<open>p\<close>: the player itself or an object of type
  \<^verbatim>\<open>npc\<close> or \<^verbatim>\<open>snake\<close>. \<open>headOnBody a b\<close>: the head of \<open>a\<close> overlaps a non-head
  segment of another snake \<open>b\<close>; \<open>headOnHead a b\<close>: the two heads overlap.
  \<open>headClear b\<close>: the head of \<open>b\<close> lies on no body segment of another snake of the
  array, and it overlaps the head of another snake only where \<open>b\<close> is not the player
  and the head of that snake lies on the body of \<open>b\<close> (the body test of a pair comes
  before its head test, and that snake dies in it).
\<close>

definition isSnakeOf :: "nat \<Rightarrow> nat \<Rightarrow> 'a sim_scheme \<Rightarrow> bool" where
  "isSnakeOf p r s \<longleftrightarrow> r = p \<or> type (heap s r) = NpcT \<or> type (heap s r) = SnakeT"

definition headOnBody :: "nat \<Rightarrow> nat \<Rightarrow> 'a sim_scheme \<Rightarrow> bool" where
  "headOnBody a b s \<longleftrightarrow> a \<noteq> b \<and> isCollidingWithSnake False (heap s a) (heap s b)"

definition headOnHead :: "nat \<Rightarrow> nat \<Rightarrow> 'a sim_scheme \<Rightarrow> bool" where
  "headOnHead a b s \<longleftrightarrow> a \<noteq> b \<and> isHeadCollidingWithHead False (heap s a) (heap s b)"

definition headClear :: "nat \<Rightarrow> nat list \<Rightarrow> nat \<Rightarrow> 'a sim_scheme \<Rightarrow> bool" where
  "headClear b es p s \<longleftrightarrow>
     (\<forall>r\<in>set (p # es). r \<noteq> b \<and> isSnakeOf p r s \<longrightarrow>
        \<not> headOnBody b r s \<and> (headOnHead b r s \<longrightarrow> b \<noteq> p \<and> headOnBody r b s))"

section \<open>Game map (class GameMap) and game state (src/js/gameState.js)\<close>

fun NPC_COUNT :: "difficulty \<Rightarrow> nat" where
  "NPC_COUNT EASY = 20"
| "NPC_COUNT NORMAL = 40"
| "NPC_COUNT HARD = 60"

fun INITIAL_SIZE_MIN :: "difficulty \<Rightarrow> real" where
  "INITIAL_SIZE_MIN EASY = 5"
| "INITIAL_SIZE_MIN NORMAL = 10"
| "INITIAL_SIZE_MIN HARD = 20"

fun INITIAL_SIZE_MAX :: "difficulty \<Rightarrow> real" where
  "INITIAL_SIZE_MAX EASY = 15"
| "INITIAL_SIZE_MAX NORMAL = 30"
| "INITIAL_SIZE_MAX HARD = 50"

fun DISTRIBUTION_NORMAL :: "difficulty \<Rightarrow> real" where
  "DISTRIBUTION_NORMAL EASY = 7 / 10"
| "DISTRIBUTION_NORMAL NORMAL = 4 / 10"
| "DISTRIBUTION_NORMAL HARD = 3 / 10"

fun DISTRIBUTION_AGGRESSIVE :: "difficulty \<Rightarrow> real" where
  "DISTRIBUTION_AGGRESSIVE EASY = 1 / 10"
| "DISTRIBUTION_AGGRESSIVE NORMAL = 3 / 10"
| "DISTRIBUTION_AGGRESSIVE HARD = 4 / 10"

fun FOOD_COUNT :: "difficulty \<Rightarrow> nat" where
  "FOOD_COUNT EASY = 500"
| "FOOD_COUNT NORMAL = 400"
| "FOOD_COUNT HARD = 300"

fun SPAWN_RATE :: "difficulty \<Rightarrow> nat" where
  "SPAWN_RATE EASY = 5"
| "SPAWN_RATE NORMAL = 3"
| "SPAWN_RATE HARD = 2"

text \<open>\<^verbatim>\<open>GameMap.getRandomPosition(padding)\<close>: the x coordinate is drawn first.\<close>

definition getRandomPosition :: "real \<Rightarrow> rng \<Rightarrow> point \<times> rng" where
  "getRandomPosition padding g =
     (case random' padding (WORLD_WIDTH - padding) g of
        (px, g1) \<Rightarrow>
          (case random' padding (WORLD_HEIGHT - padding) g1 of
             (py, g2) \<Rightarrow> (\<lparr>x = px, y = py\<rparr>, g2)))"

text \<open>
  \<^verbatim>\<open>GameMap.getRandomPositionAwayFromEntities\<close>. \<open>awayLoop\<close> is the statement
  \<^verbatim>\<open>while (!valid && attempts < maxAttempts)\<close> on the variables \<open>position\<close>, \<open>valid\<close> and
  \<open>attempts\<close>; a position that was never assigned is \<open>None\<close>.
\<close>

function awayLoop ::
  "entity list \<Rightarrow> real \<Rightarrow> real \<Rightarrow> nat \<Rightarrow> point option \<Rightarrow> bool \<Rightarrow> nat \<Rightarrow> rng \<Rightarrow> point option \<times> rng"
  where
  "awayLoop ents minDistance padding maxAttempts position valid attempts g =
     (if \<not> valid \<and> attempts < maxAttempts then
        (case getRandomPosition padding g of
           (pos, g') \<Rightarrow>
             awayLoop ents minDistance padding maxAttempts (Some pos)
               (list_all (\<lambda>entity. \<not> distance pos entity < minDistance) ents)
               (attempts + 1) g')
      else (position, g))"
  by pat_completeness auto
termination
  by (relation "measure (\<lambda>(ents, minDistance, padding, maxAttempts, position, valid, attempts, g).
        maxAttempts - attempts)") auto

declare awayLoop.simps [simp del]

definition getRandomPositionAwayFromEntities ::
  "entity list \<Rightarrow> real \<Rightarrow> real \<Rightarrow> nat \<Rightarrow> rng \<Rightarrow> point \<times> rng" where
  "getRandomPositionAwayFromEntities ents minDistance padding maxAttempts g =
     (case awayLoop ents minDistance padding maxAttempts None False 0 g of
        (Some pos, g') \<Rightarrow> (pos, g')
      | (None, g') \<Rightarrow> getRandomPosition padding g')"

text \<open>
  The fields of \<^verbatim>\<open>GameState\<close> after \<^verbatim>\<open>init()\<close>, on top of the store. \<open>nextRef\<close> is
  the next unused reference, \<open>quadtree\<close> is the tree of the collision system, and
  \<open>gameOverEvents\<close> collects the details of the \<^verbatim>\<open>game:over\<close> events that the state
  dispatches. The statistics of \<^verbatim>\<open>Player.getStats()\<close> are the four fields
  \<^verbatim>\<open>score\<close>, \<^verbatim>\<open>maxSize\<close>, \<^verbatim>\<open>playTime\<close> and \<^verbatim>\<open>killedNPCs\<close>.
\<close>

record stats =
  finalScore :: int
  finalMaxSize :: int
  finalPlayTime :: real
  finalKilledNPCs :: nat

definition getStats :: "entity \<Rightarrow> stats" where
  "getStats e =
     \<lparr>finalScore = \<lfloor>score e\<rfloor>, finalMaxSize = \<lfloor>maxScore e\<rfloor>,
      finalPlayTime = playTime e, finalKilledNPCs = killedNPCs e\<rparr>"

record world = sim +
  nextRef :: nat
  entities :: "nat list"
  player :: nat
  quadtree :: "box quadtree"
  gameDifficulty :: difficulty
  isRunning :: bool
  frameCount :: nat
  spawnCounter :: nat
  gameOverEvents :: "stats list"

text \<open>\<^verbatim>\<open>this.entities.push(e)\<close> for a new object \<open>e\<close>: it gets the next reference.\<close>

definition push_entity :: "world \<Rightarrow> entity \<Rightarrow> world" where
  "push_entity w e =
     w\<lparr>heap := (heap w)(nextRef w := e),
       entities := entities w @ [nextRef w],
       nextRef := Suc (nextRef w)\<rparr>"

definition spawnFood :: "world \<Rightarrow> world" where
  "spawnFood w =
     (let spawnRate = SPAWN_RATE (gameDifficulty w);
          w1 = w\<lparr>spawnCounter := spawnCounter w + 1\<rparr>
      in if spawnCounter w1 \<ge> spawnRate then
           (case getRandomPosition 100 (rng w1) of
              (foodPos, g1) \<Rightarrow>
                (case new_Food (x foodPos) (y foodPos) FOOD_VALUE None g1 of
                   (fd, g2) \<Rightarrow> (push_entity (w1\<lparr>rng := g2\<rparr>) fd)\<lparr>spawnCounter := 0\<rparr>))
         else w1)"

text \<open>One iteration of the spawning statement of \<^verbatim>\<open>maintainNPCCount\<close>.\<close>

definition spawnNPC :: "world \<Rightarrow> world" where
  "spawnNPC w =
     (let diff = gameDifficulty w
      in case Math_random (rng w) of
           (typeRoll, g1) \<Rightarrow>
             (let typ = (if typeRoll < DISTRIBUTION_NORMAL diff then NORMAL_NPC
                         else if typeRoll < DISTRIBUTION_NORMAL diff + DISTRIBUTION_AGGRESSIVE diff
                         then AGGRESSIVE else COWARD);
                  gameTimeMinutes = real (frameCount w) / (60 * 60);
                  minSize = INITIAL_SIZE_MIN diff + min 50 (gameTimeMinutes * 5);
                  maxSize = INITIAL_SIZE_MAX diff + min 100 (gameTimeMinutes * 10)
              in case random' minSize maxSize g1 of
                   (sz, g2) \<Rightarrow>
                     (case getRandomPositionAwayFromEntities [heap w (player w)] 300 100 10 g2 of
                        (npcPos, g3) \<Rightarrow>
                          (case new_NPC (x npcPos) (y npcPos) sz typ diff g3 of
                             (n, g4) \<Rightarrow> push_entity (w\<lparr>rng := g4\<rparr>) n))))"

definition maintainNPCCount :: "world \<Rightarrow> world" where
  "maintainNPCCount w =
     (let npcCount = length (filter (\<lambda>r. type (heap w r) = NpcT) (entities w));
          targetCount = NPC_COUNT (gameDifficulty w)
      in if npcCount < targetCount then (spawnNPC ^^ (targetCount - npcCount)) w else w)"

text \<open>
  The first part of \<^verbatim>\<open>GameState.update\<close>: the update of the player, and one
  iteration of \<^verbatim>\<open>for (const entity of this.entities)\<close> at index \<open>i\<close>. The iteration
  reads the array as it is at that moment, so that food pushed during the statement is
  visited later in the same statement.
\<close>

definition updatePlayer :: "env \<Rightarrow> world \<Rightarrow> world" where
  "updatePlayer ev w =
     (case Player_update ev (heap w (player w)) (rng w) of
        (droppedFood, e', g') \<Rightarrow>
          (let w1 = w\<lparr>heap := (heap w)(player w := e'), rng := g'\<rparr>
           in case droppedFood of Some fd \<Rightarrow> push_entity w1 fd | None \<Rightarrow> w1))"

definition updateEntity :: "nat \<Rightarrow> world \<Rightarrow> world" where
  "updateEntity i w =
     (let r = entities w ! i;
          entity = heap w r
      in if type entity = NpcT \<and> \<not> markedForDeletion entity then
           (case NPC_update entity (map (heap w) (filter (\<lambda>r'. r' \<noteq> r) (entities w)))
                   (quadtree w) (rng w) of
              (droppedFood, e', g') \<Rightarrow>
                (let w1 = w\<lparr>heap := (heap w)(r := e'), rng := g'\<rparr>
                 in case droppedFood of Some fd \<Rightarrow> push_entity w1 fd | None \<Rightarrow> w1))
         else if type entity = FoodT then w\<lparr>heap := (heap w)(r := Food_update entity)\<rparr>
         else if type entity = DeathFoodT then w\<lparr>heap := (heap w)(r := DeathFood_update entity)\<rparr>
         else w)"


text \<open>
  The statement \<^verbatim>\<open>for (const entity of this.entities)\<close> ends although the array grows
  while it runs: only the update of a live NPC pushes an object, the object pushed is a
  \<^verbatim>\<open>DeathFood\<close>, and no update changes the type of an object or revives one.
  \<open>pendingNpcs w i\<close> counts the live NPCs from index \<open>i\<close> on.
\<close>

definition liveNpc :: "(nat \<Rightarrow> entity) \<Rightarrow> nat \<Rightarrow> bool" where
  "liveNpc h r \<longleftrightarrow> type (h r) = NpcT \<and> \<not> markedForDeletion (h r)"

definition pendingNpcs :: "world \<Rightarrow> nat \<Rightarrow> nat" where
  "pendingNpcs w i = length (filter (liveNpc (heap w)) (drop i (entities w)))"

lemma type_updateSegments [simp]: "type (updateSegments e) = type e"
  and marked_updateSegments [simp]: "markedForDeletion (updateSegments e) = markedForDeletion e"
  by (simp_all add: updateSegments_def Let_def)

lemma Snake_update_keeps:
  "type (fst (snd (Snake_update e g))) = type e"
  "markedForDeletion (fst (snd (Snake_update e g))) = markedForDeletion e"
  by (simp_all add: Snake_update_def Let_def case_prod_beta)

lemma Snake_update_drops_DeathFood:
  "fst (Snake_update e g) = Some fd \<Longrightarrow> type fd = DeathFoodT \<and> \<not> markedForDeletion fd"
  by (auto simp add: Snake_update_def Let_def case_prod_beta new_DeathFood_def new_Food_def
      new_Entity_def split: if_splits option.splits)

lemma chooseExploreTarget_keeps [simp]:
  "type (fst (chooseExploreTarget e nf g)) = type e"
  "markedForDeletion (fst (chooseExploreTarget e nf g)) = markedForDeletion e"
  by (simp_all add: chooseExploreTarget_def Let_def case_prod_beta)

lemma makeDecision_keeps [simp]:
  "type (fst (makeDecision e q g)) = type e"
  "markedForDeletion (fst (makeDecision e q g)) = markedForDeletion e"
  by (simp_all add: makeDecision_def Let_def case_prod_beta)

lemma avoidObstacles_keeps [simp]:
  "type (avoidObstacles e others) = type e"
  "markedForDeletion (avoidObstacles e others) = markedForDeletion e"
  by (simp_all add: avoidObstacles_def Let_def split: option.splits)

lemma updateTargetAngle_keeps [simp]:
  "type (fst (updateTargetAngle e others g)) = type e"
  "markedForDeletion (fst (updateTargetAngle e others g)) = markedForDeletion e"
  by (simp_all add: updateTargetAngle_def Let_def case_prod_beta split: npcState.splits option.splits)

lemma handleBoosting_keeps [simp]:
  "type (fst (handleBoosting e g)) = type e"
  "markedForDeletion (fst (handleBoosting e g)) = markedForDeletion e"
  by (simp_all add: handleBoosting_def Let_def case_prod_beta)

lemma NPC_update_keeps:
  "type (fst (snd (NPC_update e others q g))) = type e"
  "markedForDeletion (fst (snd (NPC_update e others q g))) = markedForDeletion e"
  by (simp_all add: NPC_update_def Let_def case_prod_beta Snake_update_keeps)

lemma NPC_update_drops_DeathFood:
  "fst (NPC_update e others q g) = Some fd \<Longrightarrow> type fd = DeathFoodT \<and> \<not> markedForDeletion fd"
  unfolding NPC_update_def Let_def case_prod_beta by (rule Snake_update_drops_DeathFood)

lemma Player_update_keeps:
  "type (fst (snd (Player_update ev e g))) = type e"
  "markedForDeletion (fst (snd (Player_update ev e g))) = markedForDeletion e"
  by (simp_all add: Player_update_def Let_def Snake_update_keeps)

lemma Player_update_drops_DeathFood:
  "fst (Player_update ev e g) = Some fd \<Longrightarrow> type fd = DeathFoodT \<and> \<not> markedForDeletion fd"
  unfolding Player_update_def Let_def by (rule Snake_update_drops_DeathFood)

lemma type_Food_update [simp]: "type (Food_update e) = type e"
  by (simp add: Food_update_def Let_def)

lemma type_DeathFood_update [simp]: "type (DeathFood_update e) = type e"
  by (simp add: DeathFood_update_def Let_def destroy_def)

lemma length_filter_mono:
  "(\<And>a. a \<in> set xs \<Longrightarrow> P a \<Longrightarrow> Q a) \<Longrightarrow> length (filter P xs) \<le> length (filter Q xs)"
  by (induction xs) auto

lemma updateEntity_pending:
  assumes i: "i < length (entities w)"
  shows "2 * pendingNpcs (updateEntity i w) (Suc i) + (length (entities (updateEntity i w)) - Suc i)
         < 2 * pendingNpcs w i + (length (entities w) - i)"
proof -
  define r where "r = entities w ! i"
  define e where "e = heap w r"
  have d: "drop i (entities w) = r # drop (Suc i) (entities w)"
    using i by (simp add: r_def Cons_nth_drop_Suc)
  show ?thesis
  proof (cases "type e = NpcT \<and> \<not> markedForDeletion e")
    case True
    define res where "res = NPC_update e (map (heap w) (filter (\<lambda>r'. r' \<noteq> r) (entities w)))
                   (quadtree w) (rng w)"
    define e' where "e' = fst (snd res)"
    define w1 where "w1 = w\<lparr>heap := (heap w)(r := e'), rng := snd (snd res)\<rparr>"
    have u: "updateEntity i w = (case fst res of Some fd \<Rightarrow> push_entity w1 fd | None \<Rightarrow> w1)"
      using True by (simp add: updateEntity_def Let_def case_prod_beta r_def [symmetric]
          e_def [symmetric] res_def [symmetric] w1_def e'_def split: option.splits)
    have le': "liveNpc (heap w1) = liveNpc (heap w)"
      using True NPC_update_keeps [of e _ "quadtree w" "rng w"]
      by (auto simp add: fun_eq_iff liveNpc_def w1_def e'_def res_def e_def)
    have p: "liveNpc (heap w) r" using True by (simp add: liveNpc_def e_def)
    have c: "pendingNpcs w i = Suc (length (filter (liveNpc (heap w)) (drop (Suc i) (entities w))))"
      using p by (simp add: pendingNpcs_def d)
    have ents1: "entities w1 = entities w" by (simp add: w1_def)
    show ?thesis
    proof (cases "fst res")
      case None
      then have "updateEntity i w = w1" by (simp add: u)
      then show ?thesis
        using c i by (simp add: pendingNpcs_def le' ents1)
    next
      case (Some fd)
      then have uw: "updateEntity i w = push_entity w1 fd" by (simp add: u)
      have fd: "type fd = DeathFoodT"
        using NPC_update_drops_DeathFood [of e _ "quadtree w" "rng w" fd] Some
        by (simp add: res_def)
      have "liveNpc (heap (push_entity w1 fd)) a \<Longrightarrow> liveNpc (heap w1) a" for a
        using fd by (auto simp add: push_entity_def liveNpc_def split: if_splits)
      then have imp: "liveNpc (heap (push_entity w1 fd)) a \<Longrightarrow> liveNpc (heap w) a" for a
        by (simp add: le')
      have nn: "\<not> liveNpc (heap (push_entity w1 fd)) (nextRef w1)"
        using fd by (simp add: push_entity_def liveNpc_def)
      have "pendingNpcs (push_entity w1 fd) (Suc i) =
            length (filter (liveNpc (heap (push_entity w1 fd))) (drop (Suc i) (entities w)))"
        using i nn by (simp add: pendingNpcs_def push_entity_def ents1)
      also have "\<dots> \<le> length (filter (liveNpc (heap w)) (drop (Suc i) (entities w)))"
        by (rule length_filter_mono) (rule imp)
      finally have "pendingNpcs (push_entity w1 fd) (Suc i) < pendingNpcs w i"
        using c by simp
      moreover have "length (entities (push_entity w1 fd)) = Suc (length (entities w))"
        by (simp add: push_entity_def ents1)
      ultimately show ?thesis using i by (simp add: uw)
    qed
  next
    case False
    have ents: "entities (updateEntity i w) = entities w"
      using False by (auto simp add: updateEntity_def Let_def r_def [symmetric] e_def [symmetric])
    have "liveNpc (heap (updateEntity i w)) = liveNpc (heap w)"
      using False
      by (auto simp add: updateEntity_def Let_def r_def [symmetric] e_def [symmetric]
          fun_eq_iff liveNpc_def)
    then have "pendingNpcs (updateEntity i w) (Suc i) \<le> pendingNpcs w i"
      by (simp add: pendingNpcs_def ents d)
    then show ?thesis using i ents by simp
  qed
qed

function updateLoop :: "nat \<Rightarrow> world \<Rightarrow> world" where
  "updateLoop i w = (if i < length (entities w) then updateLoop (Suc i) (updateEntity i w) else w)"
  by pat_completeness auto
termination
proof (relation "measure (\<lambda>(i, w). 2 * pendingNpcs w i + (length (entities w) - i))")
  show "wf (measure (\<lambda>(i, w). 2 * pendingNpcs w i + (length (entities w) - i)))"
    by simp
next
  fix i :: nat and w :: world
  assume "i < length (entities w)"
  then show "((Suc i, updateEntity i w), (i, w))
      \<in> measure (\<lambda>(i, w). 2 * pendingNpcs w i + (length (entities w) - i))"
    using updateEntity_pending [of i w] by (simp only: in_measure prod.case)
qed

declare updateLoop.simps [simp del]

text \<open>
  \<^verbatim>\<open>GameState.update()\<close> in three parts: everything up to the push of the new
  entities of the collision system (the new tree, the updates of the player and of the
  other entities, the collisions); the filter \<^verbatim>\<open>entity => !entity.markedForDeletion\<close>;
  and what follows it (new food, the \<^verbatim>\<open>game:over\<close> event, new NPCs).
\<close>

definition rebuildQuadtree :: "world \<Rightarrow> world" where
  "rebuildQuadtree w =
     w\<lparr>quadtree := updateQuadtree (quadtree w) (map (\<lambda>r. getBounds (heap w r)) (entities w))\<rparr>"

definition beforeCollisions :: "env \<Rightarrow> world \<Rightarrow> world" where
  "beforeCollisions ev w =
     updateLoop 0 (updatePlayer ev (rebuildQuadtree (w\<lparr>frameCount := frameCount w + 1\<rparr>)))"

definition beforeCompaction :: "env \<Rightarrow> world \<Rightarrow> world" where
  "beforeCompaction ev w =
     (let w4 = beforeCollisions ev w
      in case checkCollisions (entities w4) (player w4) w4 of
           (w5, newEntities) \<Rightarrow> foldl push_entity w5 newEntities)"

definition compact :: "world \<Rightarrow> world" where
  "compact w = w\<lparr>entities := filter (\<lambda>r. \<not> markedForDeletion (heap w r)) (entities w)\<rparr>"

definition checkGameOver :: "world \<Rightarrow> world" where
  "checkGameOver w =
     (if markedForDeletion (heap w (player w)) then
        w\<lparr>isRunning := False,
          gameOverEvents := gameOverEvents w @ [getStats (heap w (player w))]\<rparr>
      else w)"

definition afterCompaction :: "world \<Rightarrow> world" where
  "afterCompaction w = maintainNPCCount (checkGameOver (spawnFood w))"

definition update :: "env \<Rightarrow> world \<Rightarrow> world" where
  "update ev w =
     (if \<not> isRunning w then w else afterCompaction (compact (beforeCompaction ev w)))"

text \<open>
  The constructor of \<^verbatim>\<open>GameState\<close>, \<^verbatim>\<open>reset()\<close> and \<^verbatim>\<open>init(difficulty)\<close>; the game
  calls \<^verbatim>\<open>reset()\<close> and then \<^verbatim>\<open>init\<close> when it starts. Before \<^verbatim>\<open>init\<close> the fields
  \<^verbatim>\<open>player\<close> and \<^verbatim>\<open>collisionSystem\<close> are \<^verbatim>\<open>null\<close> and nothing reads them, since
  \<^verbatim>\<open>update()\<close> returns at once unless \<^verbatim>\<open>isRunning\<close> is set; the model keeps a
  reference and an empty tree there.
\<close>

definition new_GameState :: "rng \<Rightarrow> world" where
  "new_GameState g =
     \<lparr>heap = (\<lambda>r. blank), rng = g, nextRef = 0, entities = [], player = 0,
      quadtree = initQuadtree 0 0, gameDifficulty = NORMAL, isRunning = False,
      frameCount = 0, spawnCounter = 0, gameOverEvents = []\<rparr>"

definition reset :: "world \<Rightarrow> world" where
  "reset w = w\<lparr>entities := [], isRunning := False, frameCount := 0, spawnCounter := 0\<rparr>"

definition createNPC :: "world \<Rightarrow> world" where
  "createNPC w =
     (let diff = gameDifficulty w
      in case Math_random (rng w) of
           (typeRoll, g1) \<Rightarrow>
             (let typ = (if typeRoll < DISTRIBUTION_NORMAL diff then NORMAL_NPC
                         else if typeRoll < DISTRIBUTION_NORMAL diff + DISTRIBUTION_AGGRESSIVE diff
                         then AGGRESSIVE else COWARD)
              in case random' (INITIAL_SIZE_MIN diff) (INITIAL_SIZE_MAX diff) g1 of
                   (sz, g2) \<Rightarrow>
                     (case getRandomPositionAwayFromEntities [heap w (player w)] 200 100 10 g2 of
                        (npcPos, g3) \<Rightarrow>
                          (case new_NPC (x npcPos) (y npcPos) sz typ diff g3 of
                             (n, g4) \<Rightarrow> push_entity (w\<lparr>rng := g4\<rparr>) n))))"

definition createFood :: "world \<Rightarrow> world" where
  "createFood w =
     (case getRandomPosition 100 (rng w) of
        (foodPos, g1) \<Rightarrow>
          (case new_Food (x foodPos) (y foodPos) FOOD_VALUE None g1 of
             (fd, g2) \<Rightarrow> push_entity (w\<lparr>rng := g2\<rparr>) fd))"

definition init :: "difficulty \<Rightarrow> env \<Rightarrow> world \<Rightarrow> world" where
  "init diff ev w =
     (let w1 = w\<lparr>gameDifficulty := diff, quadtree := initQuadtree WORLD_WIDTH WORLD_HEIGHT\<rparr>
      in case getRandomPosition 100 (rng w1) of
           (playerPos, g1) \<Rightarrow>
             (case new_Player (x playerPos) (y playerPos) PLAYER_INITIAL_SIZE ev g1 of
                (pl, g2) \<Rightarrow>
                  (let w2 = (push_entity (w1\<lparr>rng := g2\<rparr>) pl)\<lparr>player := nextRef w1\<rparr>;
                       w3 = (createNPC ^^ NPC_COUNT diff) w2;
                       w4 = (createFood ^^ FOOD_COUNT diff) w3
                   in w4\<lparr>isRunning := True, frameCount := 0\<rparr>)))"

text \<open>No object in the array \<^verbatim>\<open>entities\<close> is marked for deletion.\<close>

definition noneMarked :: "world \<Rightarrow> bool" where
  "noneMarked w \<longleftrightarrow> (\<forall>r \<in> set (entities w). \<not> markedForDeletion (heap w r))"

text \<open>Every reference in use is below the next free one.\<close>

definition refsAllocated :: "world \<Rightarrow> bool" where
  "refsAllocated w \<longleftrightarrow> (\<forall>r \<in> set (entities w). r < nextRef w) \<and> player w < nextRef w"


text \<open>
  Two relations between a state and a later one: the array, the next reference and the
  player are the same; and the array has only gained references that were not in use.
\<close>

definition sameRefs :: "world \<Rightarrow> world \<Rightarrow> bool" where
  "sameRefs w w' \<longleftrightarrow> entities w' = entities w \<and> nextRef w' = nextRef w \<and> player w' = player w"

definition onlyFresh :: "world \<Rightarrow> world \<Rightarrow> bool" where
  "onlyFresh w w' \<longleftrightarrow>
     nextRef w \<le> nextRef w' \<and> (\<forall>r \<in> set (entities w'). r \<in> set (entities w) \<or> nextRef w \<le> r)"

section \<open>Small worlds\<close>

text \<open>
  A \<^verbatim>\<open>GameState\<close> whose array \<^verbatim>\<open>entities\<close> holds two or three given objects, the
  first one (reference 0) being \<^verbatim>\<open>GameState.player\<close>, and snakes of size 10 built by the
  constructors \<^verbatim>\<open>new Player(x, y, 10)\<close> and \<^verbatim>\<open>new NPC(x, y, 10, 'NORMAL', 'NORMAL')\<close>.
  A new snake of size 10 has its head at \<open>(x, y)\<close> with radius 10 and four body segments
  at \<open>(x - 5k, y)\<close> with radius \<open>10 - k\<close>.
\<close>

abbreviation window :: env where
  "window \<equiv> \<lparr>innerWidth = 800, innerHeight = 600, now = 0\<rparr>"

abbreviation world2 :: "entity \<Rightarrow> entity \<Rightarrow> world" where
  "world2 e0 e1 \<equiv> push_entity (push_entity (new_GameState (constant_rng (1 / 2))) e0) e1"

abbreviation world3 :: "entity \<Rightarrow> entity \<Rightarrow> entity \<Rightarrow> world" where
  "world3 e0 e1 e2 \<equiv> push_entity (world2 e0 e1) e2"

abbreviation world4 :: "entity \<Rightarrow> entity \<Rightarrow> entity \<Rightarrow> entity \<Rightarrow> world" where
  "world4 e0 e1 e2 e3 \<equiv> push_entity (world3 e0 e1 e2) e3"

abbreviation playerAt :: "real \<Rightarrow> real \<Rightarrow> entity" where
  "playerAt px py \<equiv> fst (new_Player px py 10 window (constant_rng (1 / 2)))"

abbreviation npcAt :: "real \<Rightarrow> real \<Rightarrow> entity" where
  "npcAt px py \<equiv> fst (new_NPC px py 10 NORMAL_NPC NORMAL (constant_rng (1 / 2)))"

text \<open>A snake of the given size: \<^verbatim>\<open>new Snake(100, 100, size, color, headColor)\<close>.\<close>

abbreviation snakeOfSize :: "real \<Rightarrow> entity" where
  "snakeOfSize sz \<equiv>
     fst (new_Snake 100 100 sz PLAYER_COLOR PLAYER_HEAD_COLOR (constant_rng (1 / 2)))"

section \<open>Properties of the rounding\<close>

lemma pow2_pos [simp]: "0 < pow2 e"
  by (simp add: pow2_def)

lemma pow2_nonneg [simp]: "0 \<le> pow2 e"
  by (simp add: pow2_def)

lemma pow2_neq0 [simp]: "pow2 e \<noteq> 0"
  using pow2_pos [of e] by linarith

lemma pow2_add: "pow2 (a + b) = pow2 a * pow2 b"
  by (simp add: pow2_def powr_add)

lemma pow2_diff: "pow2 (a - b) = pow2 a / pow2 b"
  by (simp add: pow2_def powr_diff)

lemma pow2_0 [simp]: "pow2 0 = 1"
  by (simp add: pow2_def)

lemma pow2_nat: "pow2 (int n) = 2 ^ n"
  by (simp add: pow2_def powr_realpow)

lemma pow2_neg_nat: "pow2 (- int n) = 1 / 2 ^ n"
  by (simp add: pow2_def powr_minus powr_realpow inverse_eq_divide)

lemma pow2_numeral: "pow2 (numeral n) = 2 ^ numeral n"
  using pow2_nat [of "numeral n"] by simp

lemma pow2_neg_numeral: "pow2 (- numeral n) = 1 / 2 ^ numeral n"
  using pow2_neg_nat [of "numeral n"] by simp

lemma pow2_le_iff [simp]: "pow2 a \<le> pow2 b \<longleftrightarrow> a \<le> b"
  by (simp add: pow2_def)

lemma pow2_less_iff [simp]: "pow2 a < pow2 b \<longleftrightarrow> a < b"
  by (simp add: pow2_def)

lemma pow2_int: "0 \<le> e \<Longrightarrow> pow2 e = of_int (2 ^ nat e)"
  using pow2_nat [of "nat e"] by simp

lemma pow2_split:
  "pow2 k = 2 ^ 52 * pow2 (k - 52)"
  "pow2 (k + 1) = 2 ^ 53 * pow2 (k - 52)"
proof -
  have "pow2 k = pow2 (52 + (k - 52))" by simp
  then show "pow2 k = 2 ^ 52 * pow2 (k - 52)"
    unfolding pow2_add using pow2_nat [of 52] by simp
  have "k + 1 = 53 + (k - 52)" by simp
  then have "pow2 (k + 1) = pow2 (53 + (k - 52))" by (rule arg_cong)
  then show "pow2 (k + 1) = 2 ^ 53 * pow2 (k - 52)"
    unfolding pow2_add using pow2_nat [of 53] by simp
qed

lemma floor_log2: "0 < v \<Longrightarrow> \<lfloor>log 2 v\<rfloor> = k \<longleftrightarrow> pow2 k \<le> v \<and> v < pow2 (k + 1)"
  using floor_log_eq_powr_iff [of v 2 k] by (simp add: pow2_def)

lemma binade:
  assumes "v \<noteq> 0"
  shows "pow2 \<lfloor>log 2 \<bar>v\<bar>\<rfloor> \<le> \<bar>v\<bar>" "\<bar>v\<bar> < pow2 (\<lfloor>log 2 \<bar>v\<bar>\<rfloor> + 1)"
  using floor_log2 [of "\<bar>v\<bar>" "\<lfloor>log 2 \<bar>v\<bar>\<rfloor>"] assms by simp_all

text \<open>Rounding to the nearest integer, ties to even.\<close>

lemma roundEven_int [simp]: "roundEven (of_int n) = n"
  by (simp add: roundEven_def)

lemma roundEven_error: "\<bar>of_int (roundEven v) - v\<bar> \<le> 1 / 2"
proof -
  have "of_int \<lfloor>v\<rfloor> \<le> v" "v < of_int \<lfloor>v\<rfloor> + 1" by linarith+
  then show ?thesis
    by (auto simp add: roundEven_def Let_def)
qed

lemma roundEven_near:
  assumes "\<bar>v - of_int n\<bar> < 1 / 2"
  shows "roundEven v = n"
proof -
  have "\<bar>of_int (roundEven v) - (of_int n :: real)\<bar> < 1"
    using roundEven_error [of v] assms by linarith
  then have "\<bar>(of_int (roundEven v - n) :: real)\<bar> < 1" by simp
  then have "\<bar>roundEven v - n\<bar> < 1"
    by (metis of_int_abs of_int_less_1_iff)
  then show ?thesis by linarith
qed

lemma roundEven_half: "roundEven (of_int n + 1 / 2) = (if even n then n else n + 1)"
proof -
  have "\<lfloor>of_int n + (1 / 2 :: real)\<rfloor> = n" by linarith
  then show ?thesis by (simp add: roundEven_def Let_def)
qed

lemma roundEven_le: "roundEven v \<le> \<lfloor>v\<rfloor> + 1"
  by (simp add: roundEven_def Let_def)

lemma roundEven_ge: "\<lfloor>v\<rfloor> \<le> roundEven v"
  by (simp add: roundEven_def Let_def)

lemma roundEven_mono:
  assumes "v \<le> w"
  shows "roundEven v \<le> roundEven w"
proof (cases "\<lfloor>v\<rfloor> = \<lfloor>w\<rfloor>")
  case True
  then show ?thesis
    using assms by (auto simp add: roundEven_def Let_def)
next
  case False
  moreover have "\<lfloor>v\<rfloor> \<le> \<lfloor>w\<rfloor>" using assms by (rule floor_mono)
  ultimately have "\<lfloor>v\<rfloor> + 1 \<le> \<lfloor>w\<rfloor>" by linarith
  then show ?thesis
    using roundEven_le [of v] roundEven_ge [of w] by linarith
qed

lemma roundEven_uminus: "roundEven (- v) = - roundEven v"
proof (cases "v = of_int \<lfloor>v\<rfloor>")
  case True
  then obtain n where "v = of_int n" by blast
  then have "- v = of_int (- n)" by simp
  then show ?thesis
    using \<open>v = of_int n\<close> by (metis roundEven_int)
next
  case False
  define f where "f = \<lfloor>v\<rfloor>"
  have a: "of_int f < v" "v < of_int f + 1"
    using False unfolding f_def by linarith+
  have fl: "\<lfloor>- v\<rfloor> = - f - 1"
    using a by linarith
  show ?thesis
    using a
    by (auto simp add: roundEven_def Let_def fl f_def [symmetric])
qed

text \<open>The nearest double.\<close>

lemma double_0 [simp]: "double 0 = 0"
  by (simp add: double_def)

lemma double_uminus: "double (- v) = - double v"
  by (simp add: double_def Let_def roundEven_uminus)

lemma double_binade:
  assumes "pow2 k \<le> \<bar>v\<bar>" "\<bar>v\<bar> < pow2 (k + 1)"
  shows "double v = of_int (roundEven (v / pow2 (k - 52))) * pow2 (k - 52)"
proof -
  have "0 < \<bar>v\<bar>" using assms(1) pow2_pos [of k] by linarith
  then have v: "v \<noteq> 0" by simp
  have "\<lfloor>log 2 \<bar>v\<bar>\<rfloor> = k"
    using floor_log2 [of "\<bar>v\<bar>" k] assms \<open>0 < \<bar>v\<bar>\<close> by simp
  then show ?thesis
    using v by (simp add: double_def Let_def)
qed

lemma scaled_range:
  assumes "pow2 k \<le> v" "v < pow2 (k + 1)"
  shows "2 ^ 52 \<le> v / pow2 (k - 52)" "v / pow2 (k - 52) < 2 ^ 53"
proof -
  have a: "pow2 k / pow2 (k - 52) = 2 ^ 52"
    using pow2_diff [of k "k - 52"] pow2_nat [of 52] by simp
  have b: "pow2 (k + 1) / pow2 (k - 52) = 2 ^ 53"
    using pow2_diff [of "k + 1" "k - 52"] pow2_nat [of 53] by simp
  have "pow2 k / pow2 (k - 52) \<le> v / pow2 (k - 52)"
    using assms(1) by (simp add: divide_right_mono)
  then show "2 ^ 52 \<le> v / pow2 (k - 52)" using a by simp
  have "v / pow2 (k - 52) < pow2 (k + 1) / pow2 (k - 52)"
    using assms(2) by (simp add: divide_strict_right_mono)
  then show "v / pow2 (k - 52) < 2 ^ 53" using b by simp
qed

lemma double_pos_range:
  assumes "pow2 k \<le> v" "v < pow2 (k + 1)"
  shows "pow2 k \<le> double v" "double v \<le> pow2 (k + 1)"
proof -
  have v: "\<bar>v\<bar> = v" using assms(1) pow2_pos [of k] by linarith
  have d: "double v = of_int (roundEven (v / pow2 (k - 52))) * pow2 (k - 52)"
    using double_binade [of k v] assms v by simp
  note r = scaled_range [OF assms]
  have "roundEven (of_int (2 ^ 52)) \<le> roundEven (v / pow2 (k - 52))"
    using r(1) by (intro roundEven_mono) simp
  then have lo: "(2 ^ 52 :: real) \<le> of_int (roundEven (v / pow2 (k - 52)))"
    by (simp only: roundEven_int) (metis of_int_le_iff of_int_numeral of_int_power)
  have "roundEven (v / pow2 (k - 52)) \<le> roundEven (of_int (2 ^ 53))"
    using r(2) by (intro roundEven_mono) simp
  then have hi: "of_int (roundEven (v / pow2 (k - 52))) \<le> (2 ^ 53 :: real)"
    by (simp only: roundEven_int) (metis of_int_le_iff of_int_numeral of_int_power)
  note a = pow2_split(1) [of k]
  note b = pow2_split(2) [of k]
  show "pow2 k \<le> double v"
    unfolding d a using lo by (intro mult_right_mono) simp_all
  show "double v \<le> pow2 (k + 1)"
    unfolding d b using hi by (intro mult_right_mono) simp_all
qed

lemma double_mono_pos:
  assumes "0 < v" "v \<le> w"
  shows "double v \<le> double w"
proof -
  define k where "k = \<lfloor>log 2 v\<rfloor>"
  define j where "j = \<lfloor>log 2 w\<rfloor>"
  have w: "0 < w" using assms by linarith
  have kv: "pow2 k \<le> v" "v < pow2 (k + 1)"
    using floor_log2 [of v k] assms(1) by (simp_all add: k_def)
  have jw: "pow2 j \<le> w" "w < pow2 (j + 1)"
    using floor_log2 [of w j] w by (simp_all add: j_def)
  have "pow2 k < pow2 (j + 1)" using kv(1) assms(2) jw(2) by linarith
  then have kj: "k \<le> j" by simp
  show ?thesis
  proof (cases "k = j")
    case True
    have dv: "double v = of_int (roundEven (v / pow2 (k - 52))) * pow2 (k - 52)"
      using double_binade [of k v] kv assms(1) by simp
    have dw: "double w = of_int (roundEven (w / pow2 (k - 52))) * pow2 (k - 52)"
      using double_binade [of k w] jw w True by simp
    have "v / pow2 (k - 52) \<le> w / pow2 (k - 52)"
      using assms(2) by (simp add: divide_right_mono)
    then have "roundEven (v / pow2 (k - 52)) \<le> roundEven (w / pow2 (k - 52))"
      by (rule roundEven_mono)
    then have "(of_int (roundEven (v / pow2 (k - 52))) :: real)
        \<le> of_int (roundEven (w / pow2 (k - 52)))"
      by simp
    then show ?thesis
      unfolding dv dw by (intro mult_right_mono) simp_all
  next
    case False
    then have "k + 1 \<le> j" using kj by linarith
    then have "pow2 (k + 1) \<le> pow2 j" by simp
    then show ?thesis
      using double_pos_range(2) [OF kv] double_pos_range(1) [OF jw] by linarith
  qed
qed

lemma double_nonneg: "0 \<le> v \<Longrightarrow> 0 \<le> double v"
proof (cases "v = 0")
  case True
  then show ?thesis by simp
next
  case False
  assume "0 \<le> v"
  then have v: "0 < v" using False by simp
  define k where "k = \<lfloor>log 2 v\<rfloor>"
  have kv: "pow2 k \<le> v" "v < pow2 (k + 1)"
    using floor_log2 [of v k] v by (simp_all add: k_def)
  show ?thesis
    using double_pos_range(1) [OF kv] pow2_pos [of k] by linarith
qed

lemma double_nonpos: "v \<le> 0 \<Longrightarrow> double v \<le> 0"
  using double_nonneg [of "- v"] by (simp add: double_uminus)

lemma double_mono:
  assumes "v \<le> w"
  shows "double v \<le> double w"
proof -
  consider "0 < v" | "v \<le> 0" "0 \<le> w" | "w < 0" using assms by linarith
  then show ?thesis
  proof cases
    case 1
    then show ?thesis using assms by (rule double_mono_pos)
  next
    case 2
    then show ?thesis using double_nonpos [of v] double_nonneg [of w] by linarith
  next
    case 3
    then have "0 < - w" "- w \<le> - v" using assms by simp_all
    then have "double (- w) \<le> double (- v)" by (rule double_mono_pos)
    then show ?thesis by (simp add: double_uminus)
  qed
qed

text \<open>Numbers that are doubles.\<close>

lemma double_dyadic:
  assumes "\<bar>m\<bar> < 2 ^ 53"
  shows "double (of_int m * pow2 q) = of_int m * pow2 q"
proof (cases "m = 0")
  case True
  then show ?thesis by simp
next
  case False
  define v where "v = of_int m * pow2 q"
  have v0: "v \<noteq> 0" using False by (simp add: v_def)
  define k where "k = \<lfloor>log 2 \<bar>v\<bar>\<rfloor>"
  have kv: "pow2 k \<le> \<bar>v\<bar>" "\<bar>v\<bar> < pow2 (k + 1)"
    using binade [OF v0] by (simp_all add: k_def)
  have av: "\<bar>v\<bar> = of_int \<bar>m\<bar> * pow2 q"
    by (simp add: v_def abs_mult)
  have "(of_int \<bar>m\<bar> :: real) < of_int (2 ^ 53)"
    using assms by (simp only: of_int_less_iff)
  then have "(of_int \<bar>m\<bar> :: real) < 2 ^ 53" by simp
  then have "of_int \<bar>m\<bar> * pow2 q < 2 ^ 53 * pow2 q"
    by (intro mult_strict_right_mono) simp_all
  also have "\<dots> = pow2 (53 + q)"
    unfolding pow2_add using pow2_nat [of 53] by simp
  finally have lt: "of_int \<bar>m\<bar> * pow2 q < pow2 (53 + q)" .
  have "pow2 k < pow2 (53 + q)" using kv(1) av lt by linarith
  then have "k < 53 + q" by (simp only: pow2_less_iff)
  then have kq: "0 \<le> q - (k - 52)" by simp
  define j where "j = q - (k - 52)"
  have pq: "pow2 q = pow2 j * pow2 (k - 52)"
    using pow2_add [of j "k - 52"] by (simp add: j_def)
  have pj: "pow2 j = of_int (2 ^ nat j)"
    using kq by (simp add: pow2_int j_def)
  have "v / pow2 (k - 52) = of_int m * pow2 j"
    by (simp add: v_def pq)
  also have "\<dots> = of_int (m * 2 ^ nat j)"
    by (simp add: pj)
  finally have s: "v / pow2 (k - 52) = of_int (m * 2 ^ nat j)" .
  have "double v = of_int (roundEven (v / pow2 (k - 52))) * pow2 (k - 52)"
    using double_binade [OF kv] .
  also have "\<dots> = of_int (m * 2 ^ nat j) * pow2 (k - 52)"
    by (simp only: s roundEven_int)
  also have "\<dots> = v"
    by (simp add: v_def pq pj)
  finally show ?thesis by (simp add: v_def)
qed

lemma double_int: "\<bar>n\<bar> < 2 ^ 53 \<Longrightarrow> double (of_int n) = of_int n"
  using double_dyadic [of n 0] by simp

lemma double_pow2 [simp]: "double (pow2 k) = pow2 k"
  using double_dyadic [of 1 k] by simp

lemma double_idem [simp]: "double (double v) = double v"
proof (cases "v = 0")
  case True
  then show ?thesis by simp
next
  case False
  define k where "k = \<lfloor>log 2 \<bar>v\<bar>\<rfloor>"
  have kv: "pow2 k \<le> \<bar>v\<bar>" "\<bar>v\<bar> < pow2 (k + 1)"
    using binade [OF False] by (simp_all add: k_def)
  have pos: "double (double w) = double w" if "pow2 k \<le> w" "w < pow2 (k + 1)" for w
  proof -
    have w: "\<bar>w\<bar> = w" using that(1) pow2_pos [of k] by linarith
    define M where "M = roundEven (w / pow2 (k - 52))"
    have d: "double w = of_int M * pow2 (k - 52)"
      using double_binade [of k w] that w by (simp add: M_def)
    have up: "double w \<le> pow2 (k + 1)" using double_pos_range(2) [OF that] .
    show ?thesis
    proof (cases "double w = pow2 (k + 1)")
      case True
      then show ?thesis by simp
    next
      case False
      then have "of_int M * pow2 (k - 52) < pow2 (k + 1)" using up d by simp
      also have "pow2 (k + 1) = 2 ^ 53 * pow2 (k - 52)"
        by (rule pow2_split(2))
      finally have "(of_int M :: real) < 2 ^ 53" by simp
      then have "(of_int M :: real) < of_int (2 ^ 53)" by simp
      then have m1: "M < 2 ^ 53" by (simp only: of_int_less_iff)
      have "0 \<le> double w" using double_pos_range(1) [OF that] pow2_pos [of k] by linarith
      then have "0 \<le> of_int M * pow2 (k - 52)" unfolding d .
      then have "0 \<le> (of_int M :: real)"
        using pow2_pos [of "k - 52"] by (simp only: zero_le_mult_iff) linarith
      then have "0 \<le> M" by simp
      with m1 have "\<bar>M\<bar> < 2 ^ 53" by simp
      from double_dyadic [OF this, of "k - 52"] show ?thesis by (simp add: d)
    qed
  qed
  show ?thesis
  proof (cases "0 < v")
    case True
    then show ?thesis using pos [of v] kv by simp
  next
    case False
    then have "\<bar>v\<bar> = - v" by simp
    then have "double (double (- v)) = double (- v)" using pos [of "- v"] kv by simp
    then show ?thesis by (simp add: double_uminus)
  qed
qed

lemma double_grid:
  assumes "double v = v" "pow2 k \<le> \<bar>v\<bar>"
  shows "\<exists>m. v = of_int m * pow2 (k - 52)"
proof -
  have v0: "v \<noteq> 0" using assms(2) pow2_pos [of k] by linarith
  define j where "j = \<lfloor>log 2 \<bar>v\<bar>\<rfloor>"
  have jv: "pow2 j \<le> \<bar>v\<bar>" "\<bar>v\<bar> < pow2 (j + 1)"
    using binade [OF v0] by (simp_all add: j_def)
  have "pow2 k < pow2 (j + 1)" using assms(2) jv(2) by linarith
  then have kj: "0 \<le> j - k" by simp
  define M where "M = roundEven (v / pow2 (j - 52))"
  have "v = of_int M * pow2 (j - 52)"
    using double_binade [OF jv] assms(1) by (simp add: M_def)
  also have "pow2 (j - 52) = pow2 (j - k) * pow2 (k - 52)"
    using pow2_add [of "j - k" "k - 52"] by simp
  also have "pow2 (j - k) = of_int (2 ^ nat (j - k))"
    using kj by (simp add: pow2_int)
  finally have "v = of_int (M * 2 ^ nat (j - k)) * pow2 (k - 52)"
    by simp
  then show ?thesis by blast
qed

lemma double_error:
  assumes "\<bar>v\<bar> < pow2 (k + 1)"
  shows "\<bar>double v - v\<bar> \<le> pow2 (k - 53)"
proof (cases "v = 0")
  case True
  then show ?thesis by simp
next
  case False
  define j where "j = \<lfloor>log 2 \<bar>v\<bar>\<rfloor>"
  have jv: "pow2 j \<le> \<bar>v\<bar>" "\<bar>v\<bar> < pow2 (j + 1)"
    using binade [OF False] by (simp_all add: j_def)
  have "pow2 j < pow2 (k + 1)" using assms jv(1) by linarith
  then have jk: "j \<le> k" by simp
  define M where "M = roundEven (v / pow2 (j - 52))"
  have d: "double v = of_int M * pow2 (j - 52)"
    using double_binade [OF jv] by (simp add: M_def)
  have "double v - v = (of_int M - v / pow2 (j - 52)) * pow2 (j - 52)"
    by (simp add: d field_simps)
  then have "\<bar>double v - v\<bar> = \<bar>of_int M - v / pow2 (j - 52)\<bar> * pow2 (j - 52)"
    by (simp add: abs_mult)
  also have "\<dots> \<le> 1 / 2 * pow2 (j - 52)"
    using roundEven_error [of "v / pow2 (j - 52)"]
    by (intro mult_right_mono) (simp_all add: M_def)
  also have "\<dots> = pow2 (j - 53)"
    using pow2_add [of 1 "j - 53"] pow2_nat [of 1] by simp
  also have "\<dots> \<le> pow2 (k - 53)" using jk by simp
  finally show ?thesis .
qed

text \<open>Evaluation at a given number.\<close>

lemma double_near:
  assumes "pow2 k \<le> \<bar>v\<bar>" "\<bar>v\<bar> < pow2 (k + 1)"
    and "\<bar>v / pow2 (k - 52) - of_int n\<bar> < 1 / 2"
  shows "double v = of_int n * pow2 (k - 52)"
  using double_binade [OF assms(1,2)] roundEven_near [OF assms(3)] by simp

lemma double_tie:
  assumes "pow2 k \<le> \<bar>v\<bar>" "\<bar>v\<bar> < pow2 (k + 1)"
    and "v / pow2 (k - 52) = of_int n + 1 / 2"
  shows "double v = of_int (if even n then n else n + 1) * pow2 (k - 52)"
  using double_binade [OF assms(1,2)] roundEven_half [of n] by (simp only: assms(3))

lemma double_numeral [simp]: "numeral n < (2 ^ 53 :: int) \<Longrightarrow> double (numeral n) = numeral n"
  using double_int [of "numeral n"] by simp

lemma double_neg_numeral [simp]:
  "numeral n < (2 ^ 53 :: int) \<Longrightarrow> double (- numeral n) = - numeral n"
  using double_int [of "- numeral n"] by simp

lemma double_1 [simp]: "double 1 = 1"
  using double_int [of 1] by simp

lemma double_fraction:
  assumes "\<bar>m\<bar> < 2 ^ 53"
  shows "double (of_int m / 2 ^ n) = of_int m / 2 ^ n"
  using double_dyadic [OF assms, of "- int n"] by (simp add: pow2_neg_nat)

section \<open>Properties of the geometry utilities\<close>

lemma distance_commute: "distance a b = distance b a"
proof -
  have "(x b - x a) * (x b - x a) = (x a - x b) * (x a - x b)"
    by (simp add: algebra_simps)
  moreover have "(y b - y a) * (y b - y a) = (y a - y b) * (y a - y b)"
    by (simp add: algebra_simps)
  ultimately show ?thesis
    by (simp add: distance_def Let_def)
qed

text \<open>
  Claim C8. \<^verbatim>\<open>circleCollision\<close> is symmetric in its two circles, and two circles
  whose centre distance is exactly the sum of the radii (tangent circles) do not collide:
  the comparison is strict.
\<close>

theorem circleCollision_symmetric_strict:
  "circleCollision a b = circleCollision b a \<and>
   (distance a b = radius a + radius b \<longrightarrow> \<not> circleCollision a b)"
  by (simp add: circleCollision_def Let_def distance_commute [of a b] add.commute)

theorem circleCollision_symmetric_strict_witness:
  "distance \<lparr>x = 0, y = 0, radius = 3\<rparr> \<lparr>x = 0, y = 5, radius = 2\<rparr> = 3 + 2 \<and>
   \<not> circleCollision \<lparr>x = 0, y = 0, radius = 3\<rparr> \<lparr>x = 0, y = 5, radius = 2\<rparr> \<and>
   circleCollision \<lparr>x = 0, y = 0, radius = 3\<rparr> \<lparr>x = 0, y = 4, radius = 2\<rparr> =
   circleCollision \<lparr>x = 0, y = 4, radius = 2\<rparr> \<lparr>x = 0, y = 0, radius = 3\<rparr>"
proof -
  have d: "distance \<lparr>x = 0, y = 0, radius = 3\<rparr> \<lparr>x = 0, y = 5, radius = 2\<rparr> = 3 + 2"
    by (simp add: distance_def)
  have d': "distance \<lparr>x = 0, y = 0, radius = 3\<rparr> \<lparr>x = 0, y = 5, radius = 2\<rparr> =
     radius \<lparr>x = 0, y = 0, radius = 3\<rparr> + radius \<lparr>x = 0, y = 5, radius = 2\<rparr>"
    using d by simp
  have t: "\<not> circleCollision \<lparr>x = 0, y = 0, radius = 3\<rparr> \<lparr>x = 0, y = 5, radius = 2\<rparr>"
    using circleCollision_symmetric_strict
            [of "\<lparr>x = 0, y = 0, radius = 3\<rparr>" "\<lparr>x = 0, y = 5, radius = 2\<rparr>",
             THEN conjunct2, THEN mp, OF d'] .
  have s: "circleCollision \<lparr>x = 0, y = 0, radius = 3\<rparr> \<lparr>x = 0, y = 4, radius = 2\<rparr> =
     circleCollision \<lparr>x = 0, y = 4, radius = 2\<rparr> \<lparr>x = 0, y = 0, radius = 3\<rparr>"
    using circleCollision_symmetric_strict
            [of "\<lparr>x = 0, y = 0, radius = 3\<rparr>" "\<lparr>x = 0, y = 4, radius = 2\<rparr>",
             THEN conjunct1] .
  from d t s show ?thesis by blast
qed

subsection \<open>Toroidal wrap\<close>

lemma js_rem_small:
  assumes "0 \<le> a" "a < b"
  shows "js_rem a b = a"
proof -
  have b: "0 < b" using assms by linarith
  have n: "\<not> a / b < 0" using assms b by (simp add: not_less)
  have "\<lfloor>a / b\<rfloor> = 0" using assms b by (simp add: floor_eq_iff)
  with n show ?thesis by (simp add: js_rem_def)
qed

lemma js_rem_nonneg_range:
  assumes "0 < b" "0 \<le> a"
  shows "0 \<le> js_rem a b \<and> js_rem a b < b"
proof -
  have n: "\<not> a / b < 0" using assms by (simp add: not_less)
  define k where "k = \<lfloor>a / b\<rfloor>"
  have "of_int k \<le> a / b" and "a / b < of_int k + 1"
    unfolding k_def by linarith+
  then have "of_int k * b \<le> a" and "a < (of_int k + 1) * b"
    using assms(1) by (simp_all add: pos_le_divide_eq pos_divide_less_eq)
  then have "0 \<le> a - b * of_int k" and "a - b * of_int k < b"
    by (simp_all add: algebra_simps)
  then show ?thesis
    using n by (simp add: js_rem_def k_def)
qed

lemma js_rem_second:
  assumes "b \<le> a" "a < 2 * b"
  shows "js_rem a b = a - b"
proof -
  have b: "0 < b" using assms by linarith
  have n: "\<not> a / b < 0" using assms b by (simp add: not_less)
  have "\<lfloor>a / b\<rfloor> = 1" using assms b by (simp add: floor_eq_iff field_simps)
  with n show ?thesis by (simp add: js_rem_def)
qed

lemma js_rem_twice: "0 < b \<Longrightarrow> js_rem (2 * b) b = 0"
  by (simp add: js_rem_def)

lemma wrapCoord_range:
  assumes "0 < w" "- w \<le> v"
  shows "0 \<le> wrapCoord v w \<and> wrapCoord v w < w"
proof -
  have "0 \<le> double (v + w)" using assms(2) by (intro double_nonneg) simp
  then show ?thesis
    unfolding wrapCoord_def using assms(1) by (intro js_rem_nonneg_range)
qed

text \<open>
  Between 4096 and 8192 the doubles are the multiples of \<open>2\<^sup>-\<^sup>4\<^sup>0\<close>, so a double of that
  size minus 5000 is a double.
\<close>

lemma double_minus_5000:
  assumes d: "double v = v" and r: "5000 \<le> v" "v < 10000"
  shows "double (v - 5000) = v - 5000"
proof -
  have "pow2 12 \<le> \<bar>v\<bar>" using r by (simp add: pow2_numeral)
  from double_grid [OF d this] obtain m where m: "v = of_int m * pow2 (- 40)" by auto
  then have v: "v = of_int m / 2 ^ 40" by (simp add: pow2_neg_numeral)
  have e: "v - 5000 = of_int (m - 5000 * 2 ^ 40) / 2 ^ 40"
    by (simp add: v field_simps)
  have "0 \<le> of_int (m - 5000 * 2 ^ 40) / (2 ^ 40 :: real)"
    "of_int (m - 5000 * 2 ^ 40) / (2 ^ 40 :: real) < 5000"
    using r unfolding e [symmetric] by simp_all
  then have "(0 :: real) \<le> of_int (m - 5000 * 2 ^ 40)"
    "(of_int (m - 5000 * 2 ^ 40) :: real) < 5000 * 2 ^ 40"
    by (simp_all add: field_simps)
  then have "0 \<le> m - 5000 * 2 ^ 40" "(of_int (m - 5000 * 2 ^ 40) :: real) < of_int (5000 * 2 ^ 40)"
    by simp_all
  then have "0 \<le> m - 5000 * 2 ^ 40" "m - 5000 * 2 ^ 40 < 5000 * 2 ^ 40"
    by (simp_all only: of_int_less_iff)
  then have "\<bar>m - 5000 * 2 ^ 40\<bar> < 2 ^ 53" by simp
  from double_fraction [OF this, of 40] show ?thesis
    by (simp only: e)
qed

lemma wrapPoint_wrapAxis:
  "wrapPoint p = \<lparr>x = wrapAxis (x p) WORLD_WIDTH, y = wrapAxis (y p) WORLD_HEIGHT\<rparr>"
  by (simp add: wrapPoint_def wrapAxis_def Let_def)

lemma wrapAxis_inside: "0 \<le> v \<Longrightarrow> v < 5000 \<Longrightarrow> wrapAxis v 5000 = v"
  by (simp add: wrapAxis_def)

lemma wrapAxis_range:
  assumes d: "double v = v" and r: "- 5000 \<le> v" "v < 10000"
  shows "0 \<le> wrapAxis v 5000 \<and> wrapAxis v 5000 < 5000"
proof -
  consider "v < 0" | "0 \<le> v" "v < 5000" | "5000 \<le> v" by linarith
  then show ?thesis
  proof cases
    case 1
    have "double 0 \<le> double (v + 5000)" using r(1) by (intro double_mono) simp
    then have lo: "0 \<le> double (v + 5000)" by simp
    have "double (v + 5000) \<le> double 5000" using 1 by (intro double_mono) simp
    then have hi: "double (v + 5000) \<le> 5000" by simp
    show ?thesis
    proof (cases "5000 \<le> double (v + 5000)")
      case True
      then have "double (v + 5000) = 5000" using hi by linarith
      then show ?thesis using 1 by (simp add: wrapAxis_def)
    next
      case False
      then show ?thesis using 1 lo by (simp add: wrapAxis_def)
    qed
  next
    case 2
    then show ?thesis by (simp add: wrapAxis_inside)
  next
    case 3
    then have "wrapAxis v 5000 = v - 5000"
      using double_minus_5000 [OF d 3 r(2)] by (simp add: wrapAxis_def)
    then show ?thesis using 3 r(2) by simp
  qed
qed

lemma wrapPoint_inside: "isInsideWorld p \<Longrightarrow> wrapPoint p = \<lparr>x = x p, y = y p\<rparr>"
  by (simp add: wrapPoint_def isInsideWorld_def Let_def)

lemma wrapPoint_range:
  assumes "double (x p) = x p" "double (y p) = y p"
    and "- WORLD_WIDTH \<le> x p" "x p < 2 * WORLD_WIDTH"
    and "- WORLD_HEIGHT \<le> y p" "y p < 2 * WORLD_HEIGHT"
  shows "isInsideWorld (wrapPoint p)"
  using wrapAxis_range [of "x p"] wrapAxis_range [of "y p"] assms
  by (simp add: wrapPoint_wrapAxis isInsideWorld_def WORLD_WIDTH_def WORLD_HEIGHT_def)

text \<open>
  The sum \<open>v + 5000\<close> of the modular wrap lies below \<open>2\<^sup>1\<^sup>4\<close>, where two neighbouring
  doubles are at most \<open>2\<^sup>-\<^sup>3\<^sup>9\<close> apart.
\<close>

lemma wrapCoord_close:
  assumes "0 \<le> v" "v < 5000"
  shows "\<bar>wrapCoord v 5000 - v\<bar> \<le> 1 / 2 ^ 40 \<or>
         wrapCoord v 5000 = 0 \<and> 5000 - v \<le> 1 / 2 ^ 40"
proof -
  define s where "s = double (v + 5000)"
  have "\<bar>v + 5000\<bar> < pow2 (13 + 1)" using assms by (simp add: pow2_numeral)
  from double_error [OF this] have e: "\<bar>s - (v + 5000)\<bar> \<le> 1 / 2 ^ 40"
    by (simp add: s_def pow2_neg_numeral)
  have "double 5000 \<le> double (v + 5000)" using assms(1) by (intro double_mono) simp
  then have lo: "5000 \<le> s" by (simp add: s_def)
  have "double (v + 5000) \<le> double 10000" using assms(2) by (intro double_mono) simp
  then have hi: "s \<le> 10000" by (simp add: s_def)
  have w: "wrapCoord v 5000 = js_rem s 5000" by (simp add: wrapCoord_def s_def)
  show ?thesis
  proof (cases "s = 10000")
    case True
    then have "wrapCoord v 5000 = 0" using js_rem_twice [of 5000] by (simp add: w)
    moreover have "5000 - v \<le> 1 / 2 ^ 40" using e True by linarith
    ultimately show ?thesis by blast
  next
    case False
    then have "js_rem s 5000 = s - 5000" using lo hi by (intro js_rem_second) simp_all
    then have "wrapCoord v 5000 - v = s - (v + 5000)" by (simp add: w)
    then have "\<bar>wrapCoord v 5000 - v\<bar> \<le> 1 / 2 ^ 40" using e by (simp only:)
    then show ?thesis by blast
  qed
qed

text \<open>
  From 0 on the modular wrap is idempotent: its result plus 5000 is again a double (it
  is the rounded sum itself, or differs from it by a multiple of 5000 where the doubles
  are the multiples of \<open>2\<^sup>-\<^sup>3\<^sup>9\<close> or coarser).
\<close>

lemma wrapCoord_idem_nonneg:
  assumes "0 \<le> v"
  shows "wrapCoord (wrapCoord v 5000) 5000 = wrapCoord v 5000"
proof -
  define s where "s = double (v + 5000)"
  define j where "j = \<lfloor>s / 5000\<rfloor>"
  define u where "u = js_rem s 5000"
  define t where "t = u + 5000"
  have "double 5000 \<le> double (v + 5000)" using assms by (intro double_mono) simp
  then have lo: "5000 \<le> s" by (simp add: s_def)
  have ds: "double s = s" by (simp add: s_def)
  have ur: "0 \<le> u \<and> u < 5000"
    unfolding u_def using lo by (intro js_rem_nonneg_range) simp_all
  have u: "u = s - 5000 * of_int j"
    using lo by (simp add: u_def js_rem_def j_def)
  have tr: "5000 \<le> t" "t < 10000" using ur by (simp_all add: t_def)
  have dt: "double t = t"
  proof (cases "s < 8192")
    case True
    have "1 \<le> s / 5000" "s / 5000 < 2" using lo True by simp_all
    then have "j = 1" unfolding j_def by linarith
    then have "t = s" by (simp add: t_def u)
    then show ?thesis using ds by simp
  next
    case False
    then have "pow2 13 \<le> \<bar>s\<bar>" by (simp add: pow2_numeral)
    from double_grid [OF ds this] obtain m where "s = of_int m * pow2 (- 39)" by auto
    then have m: "s = of_int m / 2 ^ 39" by (simp add: pow2_neg_numeral)
    define n where "n = m - 5000 * (j - 1) * 2 ^ 39"
    have e: "t = of_int n / 2 ^ 39"
      by (simp add: t_def u m n_def field_simps)
    have "0 \<le> of_int n / (2 ^ 39 :: real)" "of_int n / (2 ^ 39 :: real) < 10000"
      using tr unfolding e by simp_all
    then have "(0 :: real) \<le> of_int n" "(of_int n :: real) < 10000 * 2 ^ 39"
      by (simp_all add: field_simps)
    then have "0 \<le> n" "(of_int n :: real) < of_int (10000 * 2 ^ 39)" by simp_all
    then have "0 \<le> n" "n < 10000 * 2 ^ 39" by (simp_all only: of_int_less_iff)
    then have "\<bar>n\<bar> < 2 ^ 53" by simp
    from double_fraction [OF this, of 39] show ?thesis by (simp only: e)
  qed
  have "wrapCoord u 5000 = js_rem t 5000"
    by (simp add: wrapCoord_def t_def [symmetric] dt)
  also have "\<dots> = t - 5000" using tr by (intro js_rem_second) simp_all
  also have "\<dots> = u" by (simp add: t_def)
  finally show ?thesis by (simp add: u_def wrapCoord_def s_def)
qed

lemma wrap_examples:
  "double (1 / 2 ^ 50) = 1 / 2 ^ 50"
  "wrapCoord (1 / 2 ^ 50) 5000 = 0"
  "double (- (1 / 2 ^ 40)) = - (1 / 2 ^ 40)"
  "wrapCoord (- (1 / 2 ^ 40)) 5000 = 5000 - 1 / 2 ^ 40"
  "wrapCoord (5000 - 1 / 2 ^ 40) 5000 = 0"
proof -
  show "double (1 / 2 ^ 50) = 1 / 2 ^ 50"
    using double_fraction [of 1 50] by simp
  have "double (1 / 2 ^ 50 + 5000) = of_int (5000 * 2 ^ 40) * pow2 (12 - 52)"
    by (rule double_near) (simp_all add: pow2_numeral pow2_neg_numeral)
  then have u: "double (1 / 2 ^ 50 + 5000) = 5000" by (simp add: pow2_neg_numeral)
  show "wrapCoord (1 / 2 ^ 50) 5000 = 0"
    unfolding wrapCoord_def u by (simp add: js_rem_def)
  show "double (- (1 / 2 ^ 40)) = - (1 / 2 ^ 40)"
    using double_fraction [of "- 1" 40] by simp
  have "double (of_int (5000 * 2 ^ 40 - 1) / 2 ^ 40) = of_int (5000 * 2 ^ 40 - 1) / 2 ^ 40"
    by (rule double_fraction) simp
  then have a: "double (5000 - 1 / 2 ^ 40) = 5000 - 1 / 2 ^ 40"
    by (simp add: field_simps)
  have j: "js_rem (5000 - 1 / 2 ^ 40) 5000 = 5000 - 1 / 2 ^ 40"
    by (rule js_rem_small) simp_all
  have s: "- (1 / 2 ^ 40) + 5000 = (5000 - 1 / 2 ^ 40 :: real)" by simp
  show "wrapCoord (- (1 / 2 ^ 40)) 5000 = 5000 - 1 / 2 ^ 40"
    unfolding wrapCoord_def s a by (rule j)
  have "double (10000 - 1 / 2 ^ 40) =
      of_int (if even (10000 * 2 ^ 39 - 1 :: int) then 10000 * 2 ^ 39 - 1
              else 10000 * 2 ^ 39 - 1 + 1) * pow2 (13 - 52)"
    by (rule double_tie) (simp_all add: pow2_numeral pow2_neg_numeral)
  then have t: "double (10000 - 1 / 2 ^ 40) = 10000" by (simp add: pow2_neg_numeral)
  have s2: "5000 - 1 / 2 ^ 40 + 5000 = (10000 - 1 / 2 ^ 40 :: real)" by simp
  show "wrapCoord (5000 - 1 / 2 ^ 40) 5000 = 0"
    unfolding wrapCoord_def s2 t by (simp add: js_rem_def)
qed

text \<open>
  Claim C7, as stated: wrapping twice equals wrapping once at every position, for
  \<^verbatim>\<open>Utils.wrapPoint\<close> and for the modular wrap of \<^verbatim>\<open>Snake.update\<close>, and a point inside
  the world is returned unchanged. It fails in three ways. Two world widths to the left
  of the world \<^verbatim>\<open>wrapPoint\<close> takes \<open>x = -7000\<close> to \<open>-2000\<close> and then to \<open>3000\<close>. The
  modular wrap rounds the sum \<open>x + 5000\<close>: the point \<open>x = 2\<^sup>-\<^sup>5\<^sup>0\<close> inside the world is
  taken to 0, and \<open>x = -2\<^sup>-\<^sup>4\<^sup>0\<close> is taken to \<open>5000 - 2\<^sup>-\<^sup>4\<^sup>0\<close> and then to 0.
\<close>

theorem wrap_twice_counterexample:
  "wrapPoint (wrapPoint \<lparr>x = - 7000, y = 0\<rparr>) \<noteq> wrapPoint \<lparr>x = - 7000, y = 0\<rparr> \<and>
   double (1 / 2 ^ 50) = 1 / 2 ^ 50 \<and>
   isInsideWorld \<lparr>x = 1 / 2 ^ 50, y = 0\<rparr> \<and>
   wrapCoord (1 / 2 ^ 50) WORLD_WIDTH \<noteq> 1 / 2 ^ 50 \<and>
   double (- (1 / 2 ^ 40)) = - (1 / 2 ^ 40) \<and>
   wrapCoord (wrapCoord (- (1 / 2 ^ 40)) WORLD_WIDTH) WORLD_WIDTH
     \<noteq> wrapCoord (- (1 / 2 ^ 40)) WORLD_WIDTH"
proof -
  have 1: "wrapPoint (wrapPoint \<lparr>x = - 7000, y = 0\<rparr>) \<noteq> wrapPoint \<lparr>x = - 7000, y = 0\<rparr>"
    by (simp add: wrapPoint_def WORLD_WIDTH_def WORLD_HEIGHT_def)
  have 2: "isInsideWorld \<lparr>x = 1 / 2 ^ 50, y = 0\<rparr>"
    by (simp add: isInsideWorld_def WORLD_WIDTH_def WORLD_HEIGHT_def)
  have 3: "wrapCoord (1 / 2 ^ 50) WORLD_WIDTH \<noteq> 1 / 2 ^ 50"
    unfolding WORLD_WIDTH_def wrap_examples(2) by simp
  have 4: "wrapCoord (wrapCoord (- (1 / 2 ^ 40)) WORLD_WIDTH) WORLD_WIDTH
     \<noteq> wrapCoord (- (1 / 2 ^ 40)) WORLD_WIDTH"
    unfolding WORLD_WIDTH_def wrap_examples(4) wrap_examples(5) by simp
  from 1 2 3 4 wrap_examples(1,3) show ?thesis by blast
qed

text \<open>
  Claim C7, amended. For a position with double coordinates at most one world size
  outside the world (\<open>-W \<le> x < 2W\<close> and \<open>-H \<le> y < 2H\<close>) \<^verbatim>\<open>wrapPoint\<close> lands inside
  the world and wrapping twice equals wrapping once. The modular wrap of
  \<^verbatim>\<open>Snake.update\<close> lands inside the world for every coordinate \<open>\<ge> -W\<close> (resp.
  \<open>\<ge> -H\<close>), and from 0 on wrapping twice equals wrapping once. \<^verbatim>\<open>wrapPoint\<close> leaves a
  point inside the world unchanged; the modular wrap moves each coordinate of such a
  point by at most \<open>2\<^sup>-\<^sup>4\<^sup>0\<close>, or takes a coordinate within \<open>2\<^sup>-\<^sup>4\<^sup>0\<close> of the far edge
  to 0.
\<close>

theorem wrap_lands_inside_world:
  "(double (x p) = x p \<and> double (y p) = y p \<and>
    - WORLD_WIDTH \<le> x p \<and> x p < 2 * WORLD_WIDTH \<and>
    - WORLD_HEIGHT \<le> y p \<and> y p < 2 * WORLD_HEIGHT \<longrightarrow>
      isInsideWorld (wrapPoint p) \<and> wrapPoint (wrapPoint p) = wrapPoint p) \<and>
   (- WORLD_WIDTH \<le> x p \<and> - WORLD_HEIGHT \<le> y p \<longrightarrow>
      isInsideWorld \<lparr>x = wrapCoord (x p) WORLD_WIDTH, y = wrapCoord (y p) WORLD_HEIGHT\<rparr>) \<and>
   (0 \<le> x p \<and> 0 \<le> y p \<longrightarrow>
      wrapCoord (wrapCoord (x p) WORLD_WIDTH) WORLD_WIDTH = wrapCoord (x p) WORLD_WIDTH \<and>
      wrapCoord (wrapCoord (y p) WORLD_HEIGHT) WORLD_HEIGHT = wrapCoord (y p) WORLD_HEIGHT) \<and>
   (isInsideWorld p \<longrightarrow>
      wrapPoint p = \<lparr>x = x p, y = y p\<rparr> \<and>
      (\<bar>wrapCoord (x p) WORLD_WIDTH - x p\<bar> \<le> 1 / 2 ^ 40 \<or>
       wrapCoord (x p) WORLD_WIDTH = 0 \<and> WORLD_WIDTH - x p \<le> 1 / 2 ^ 40) \<and>
      (\<bar>wrapCoord (y p) WORLD_HEIGHT - y p\<bar> \<le> 1 / 2 ^ 40 \<or>
       wrapCoord (y p) WORLD_HEIGHT = 0 \<and> WORLD_HEIGHT - y p \<le> 1 / 2 ^ 40))"
proof -
  have 1: "isInsideWorld (wrapPoint p) \<and> wrapPoint (wrapPoint p) = wrapPoint p"
    if r: "double (x p) = x p \<and> double (y p) = y p \<and>
      - WORLD_WIDTH \<le> x p \<and> x p < 2 * WORLD_WIDTH \<and>
      - WORLD_HEIGHT \<le> y p \<and> y p < 2 * WORLD_HEIGHT"
  proof -
    have i: "isInsideWorld (wrapPoint p)"
      using r by (simp add: wrapPoint_range)
    from wrapPoint_inside [OF i] i show ?thesis by simp
  qed
  have w: "0 < WORLD_WIDTH" and h: "0 < WORLD_HEIGHT"
    by (simp_all add: WORLD_WIDTH_def WORLD_HEIGHT_def)
  have 2: "isInsideWorld \<lparr>x = wrapCoord (x p) WORLD_WIDTH, y = wrapCoord (y p) WORLD_HEIGHT\<rparr>"
    if r: "- WORLD_WIDTH \<le> x p \<and> - WORLD_HEIGHT \<le> y p"
    using wrapCoord_range [OF w, of "x p"] wrapCoord_range [OF h, of "y p"] r
    by (simp add: isInsideWorld_def)
  have 4: "wrapCoord (wrapCoord (x p) WORLD_WIDTH) WORLD_WIDTH = wrapCoord (x p) WORLD_WIDTH \<and>
      wrapCoord (wrapCoord (y p) WORLD_HEIGHT) WORLD_HEIGHT = wrapCoord (y p) WORLD_HEIGHT"
    if "0 \<le> x p \<and> 0 \<le> y p"
    using that by (simp add: WORLD_WIDTH_def WORLD_HEIGHT_def wrapCoord_idem_nonneg)
  have 3: "wrapPoint p = \<lparr>x = x p, y = y p\<rparr> \<and>
      (\<bar>wrapCoord (x p) WORLD_WIDTH - x p\<bar> \<le> 1 / 2 ^ 40 \<or>
       wrapCoord (x p) WORLD_WIDTH = 0 \<and> WORLD_WIDTH - x p \<le> 1 / 2 ^ 40) \<and>
      (\<bar>wrapCoord (y p) WORLD_HEIGHT - y p\<bar> \<le> 1 / 2 ^ 40 \<or>
       wrapCoord (y p) WORLD_HEIGHT = 0 \<and> WORLD_HEIGHT - y p \<le> 1 / 2 ^ 40)"
    if i: "isInsideWorld p"
  proof -
    have "0 \<le> x p" "x p < 5000" "0 \<le> y p" "y p < 5000"
      using i by (simp_all add: isInsideWorld_def WORLD_WIDTH_def WORLD_HEIGHT_def)
    from wrapCoord_close [OF this(1,2)] wrapCoord_close [OF this(3,4)] wrapPoint_inside [OF i]
    show ?thesis by (simp add: WORLD_WIDTH_def WORLD_HEIGHT_def)
  qed
  from 1 2 3 4 show ?thesis by blast
qed

theorem wrap_lands_inside_world_witness:
  "double (- 100) = - 100 \<and> double 6000 = 6000 \<and>
   - WORLD_WIDTH \<le> - 100 \<and> - 100 < 2 * WORLD_WIDTH \<and>
   - WORLD_HEIGHT \<le> 6000 \<and> 6000 < 2 * WORLD_HEIGHT \<and>
   wrapPoint \<lparr>x = - 100, y = 6000\<rparr> = \<lparr>x = 4900, y = 1000\<rparr> \<and>
   isInsideWorld (wrapPoint \<lparr>x = - 100, y = 6000\<rparr>) \<and>
   wrapPoint (wrapPoint \<lparr>x = - 100, y = 6000\<rparr>) = wrapPoint \<lparr>x = - 100, y = 6000\<rparr> \<and>
   isInsideWorld \<lparr>x = wrapCoord (- 100) WORLD_WIDTH, y = wrapCoord 6000 WORLD_HEIGHT\<rparr> \<and>
   isInsideWorld \<lparr>x = 10, y = 1 / 2 ^ 50\<rparr> \<and>
   wrapPoint \<lparr>x = 10, y = 1 / 2 ^ 50\<rparr> = \<lparr>x = 10, y = 1 / 2 ^ 50\<rparr> \<and>
   wrapCoord 10 WORLD_WIDTH = 10 \<and>
   wrapCoord (wrapCoord 10 WORLD_WIDTH) WORLD_WIDTH = wrapCoord 10 WORLD_WIDTH \<and>
   wrapCoord (1 / 2 ^ 50) WORLD_HEIGHT = 0 \<and>
   \<bar>wrapCoord (1 / 2 ^ 50) WORLD_HEIGHT - 1 / 2 ^ 50\<bar> \<le> 1 / 2 ^ 40"
proof -
  have d: "double (- 100) = - 100" "double 6000 = 6000" by simp_all
  have r: "- WORLD_WIDTH \<le> - 100" "- 100 < 2 * WORLD_WIDTH"
    "- WORLD_HEIGHT \<le> 6000" "6000 < 2 * WORLD_HEIGHT"
    by (simp_all add: WORLD_WIDTH_def WORLD_HEIGHT_def)
  have a: "wrapPoint \<lparr>x = - 100, y = 6000\<rparr> = \<lparr>x = 4900, y = 1000\<rparr>"
    by (simp add: wrapPoint_def WORLD_WIDTH_def WORLD_HEIGHT_def)
  have i: "isInsideWorld \<lparr>x = 10, y = 1 / 2 ^ 50\<rparr>"
    by (simp add: isInsideWorld_def WORLD_WIDTH_def WORLD_HEIGHT_def)
  have c: "wrapCoord 10 WORLD_WIDTH = 10"
    by (simp add: wrapCoord_def WORLD_WIDTH_def js_rem_def)
  have e: "wrapCoord (1 / 2 ^ 50) WORLD_HEIGHT = 0"
    unfolding WORLD_HEIGHT_def by (rule wrap_examples(2))
  have f: "\<bar>wrapCoord (1 / 2 ^ 50) WORLD_HEIGHT - 1 / 2 ^ 50\<bar> \<le> 1 / 2 ^ 40"
    unfolding e by simp
  note t1 = wrap_lands_inside_world [of "\<lparr>x = - 100, y = 6000\<rparr>", simplified point.simps]
  note t2 = wrap_lands_inside_world [of "\<lparr>x = 10, y = 1 / 2 ^ 50\<rparr>", simplified point.simps]
  have n: "(0 :: real) \<le> 10" "(0 :: real) \<le> 1 / 2 ^ 50" by simp_all
  from d r a i c e f n t1 t2 show ?thesis by blast
qed

section \<open>Properties of the quadtree\<close>

lemma intersects_iff_common_point:
  assumes "0 \<le> width a" "0 \<le> height a" "0 \<le> width b" "0 \<le> height b"
  shows "intersects a b \<longleftrightarrow> (\<exists>p::point. contains a p \<and> contains b p)"
proof
  assume i: "intersects a b"
  have "contains a \<lparr>x = max (x a) (x b), y = max (y a) (y b)\<rparr> \<and>
        contains b \<lparr>x = max (x a) (x b), y = max (y a) (y b)\<rparr>"
    using i assms by (simp add: intersects_def contains_def max_def)
  then show "\<exists>p::point. contains a p \<and> contains b p" by blast
next
  assume "\<exists>p::point. contains a p \<and> contains b p"
  then show "intersects a b"
    by (auto simp: intersects_def contains_def)
qed

lemma getIndex_range: "getIndex bnds r \<in> {- 1, 0, 1, 2, 3}"
  by (simp add: getIndex_def Let_def)

lemma getIndex_separates:
  assumes "getIndex bnds a = i" "getIndex bnds b = j" "i \<noteq> j" "i \<noteq> - 1" "j \<noteq> - 1"
  shows "\<not> intersects a b"
  using assms unfolding getIndex_def intersects_def Let_def
  by (auto split: if_splits)

lemma set_getAllObjects_ins:
  "ins_ok ins obj \<Longrightarrow> set (getAllObjects (ins n obj)) = insert obj (set (getAllObjects n))"
proof -
  assume "ins_ok ins obj"
  then have "mset (getAllObjects (ins n obj)) = add_mset obj (mset (getAllObjects n))"
    by (simp add: ins_ok_def)
  then have "set_mset (mset (getAllObjects (ins n obj))) = set_mset (add_mset obj (mset (getAllObjects n)))"
    by simp
  then show ?thesis by simp
qed

lemma place_mset:
  assumes "ins_ok ins obj"
  shows "mset (getAllObjects (assemble bnds (place ins bnds st obj))) =
         add_mset obj (mset (getAllObjects (assemble bnds st)))"
proof (cases st)
  case (fields kept n0 n1 n2 n3)
  have m: "\<And>n. mset (getAllObjects (ins n obj)) = add_mset obj (mset (getAllObjects n))"
    using assms by (simp add: ins_ok_def)
  show ?thesis
    by (simp add: fields Let_def m)
qed

lemma place_inv:
  assumes "ins_ok ins obj" "qt_inv (assemble bnds st)"
  shows "qt_inv (assemble bnds (place ins bnds st obj))"
proof (cases st)
  case (fields kept n0 n1 n2 n3)
  have i: "\<And>n. qt_inv n \<Longrightarrow> qt_inv (ins n obj)"
    using assms(1) by (simp add: ins_ok_def)
  note s = set_getAllObjects_ins [OF assms(1)]
  show ?thesis
    using assms(2) by (auto simp add: fields Let_def i s)
qed

lemma foldl_place:
  assumes "\<forall>obj \<in> set objs. ins_ok ins obj"
  shows "mset (getAllObjects (assemble bnds (foldl (place ins bnds) st objs))) =
           mset objs + mset (getAllObjects (assemble bnds st)) \<and>
         (qt_inv (assemble bnds st) \<longrightarrow> qt_inv (assemble bnds (foldl (place ins bnds) st objs)))"
  using assms
proof (induction objs arbitrary: st)
  case Nil
  then show ?case by simp
next
  case (Cons obj objs)
  then have o: "ins_ok ins obj" and r: "\<forall>obj \<in> set objs. ins_ok ins obj"
    by simp_all
  show ?case
    using Cons.IH [OF r, of "place ins bnds st obj"] place_mset [OF o, of bnds st] place_inv [OF o, of bnds st]
    by simp
qed

lemma assemble_split: "getAllObjects (assemble bnds ([], split bnds)) = [] \<and> qt_inv (assemble bnds ([], split bnds))"
  by (simp add: split_def Let_def)

lemma assemble_case: "(case st of (kept, n0, n1, n2, n3) \<Rightarrow> Split bnds kept n0 n1 n2 n3) = assemble bnds st"
  by (cases st) simp

lemma insert_ok: "ins_ok (insert_qt lvl) obj"
  unfolding ins_ok_def
proof
  fix t :: "'a box_scheme quadtree"
  show "mset (getAllObjects (insert_qt lvl t obj)) = add_mset obj (mset (getAllObjects t)) \<and>
        (qt_inv t \<longrightarrow> qt_inv (insert_qt lvl t obj))"
  proof (induction lvl t obj rule: insert_qt.induct)
    case (1 lvl bnds objs obj)
    show ?case
    proof (cases "length (objs @ [obj]) > MAX_OBJECTS \<and> lvl < MAX_LEVELS")
      case True
      have "ins_ok (insert_qt (Suc lvl)) ob" if "ob \<in> set (objs @ [obj])" for ob
        unfolding ins_ok_def
      proof
        fix n :: "'a box_scheme quadtree"
        show "mset (getAllObjects (insert_qt (Suc lvl) n ob)) = add_mset ob (mset (getAllObjects n)) \<and>
          (qt_inv n \<longrightarrow> qt_inv (insert_qt (Suc lvl) n ob))"
          by (rule "1.IH" [OF refl True that, where a = "([], n, n, n, n)"]) simp
      qed
      then have "\<forall>ob \<in> set (objs @ [obj]). ins_ok (insert_qt (Suc lvl)) ob"
        by blast
      note f = foldl_place [OF this, of bnds "([], split bnds)"]
      let ?st = "foldl (place (insert_qt (Suc lvl)) bnds) ([], split bnds) (objs @ [obj])"
      have e: "insert_qt lvl (Leaf bnds objs) obj = assemble bnds ?st"
        using True by (simp add: assemble_case del: foldl_append)
      have a: "getAllObjects (assemble bnds ([], split bnds)) = ([] :: 'a box_scheme list)"
        and b: "qt_inv (assemble bnds ([], split bnds) :: 'a box_scheme quadtree)"
        using assemble_split [of bnds] by blast+
      have "mset (getAllObjects (assemble bnds ?st)) = mset (objs @ [obj])"
        using f a by simp
      moreover have "qt_inv (assemble bnds ?st)"
        using f b by blast
      ultimately show ?thesis
        unfolding e by simp
    next
      case False
      then show ?thesis by (auto simp add: Let_def)
    qed
  next
    case (2 lvl bnds objs n0 n1 n2 n3 obj)
    consider (c0) "getIndex bnds obj = 0" | (c1) "getIndex bnds obj = 1"
      | (c2) "getIndex bnds obj = 2" | (c3) "getIndex bnds obj = 3"
      | (keep) "getIndex bnds obj \<notin> {0, 1, 2, 3}"
      by blast
    then show ?case
    proof cases
      case c0
      have s: "set (getAllObjects (insert_qt (Suc lvl) n0 obj)) = insert obj (set (getAllObjects n0))"
        using "2.IH"(1) [OF refl c0] by (metis set_mset_add_mset_insert set_mset_mset)
      show ?thesis using "2.IH"(1) [OF refl c0] c0 by (simp add: s)
    next
      case c1
      have s: "set (getAllObjects (insert_qt (Suc lvl) n1 obj)) = insert obj (set (getAllObjects n1))"
        using "2.IH"(2) [OF refl _ c1] c1 by (metis set_mset_add_mset_insert set_mset_mset zero_neq_one)
      show ?thesis using "2.IH"(2) [OF refl _ c1] c1 by (simp add: s)
    next
      case c2
      have s: "set (getAllObjects (insert_qt (Suc lvl) n2 obj)) = insert obj (set (getAllObjects n2))"
        using "2.IH"(3) [OF refl _ _ c2] c2 by (simp flip: set_mset_mset)
      show ?thesis using "2.IH"(3) [OF refl _ _ c2] c2 by (simp add: s)
    next
      case c3
      have s: "set (getAllObjects (insert_qt (Suc lvl) n3 obj)) = insert obj (set (getAllObjects n3))"
        using "2.IH"(4) [OF refl _ _ _ c3] c3 by (simp flip: set_mset_mset)
      show ?thesis using "2.IH"(4) [OF refl _ _ _ c3] c3 by (simp add: s)
    next
      case keep
      then have k: "getIndex bnds obj \<noteq> 0" "getIndex bnds obj \<noteq> 1" "getIndex bnds obj \<noteq> 2" "getIndex bnds obj \<noteq> 3"
        by simp_all
      show ?thesis
      proof (cases "length (objs @ [obj]) > MAX_OBJECTS \<and> lvl < MAX_LEVELS")
        case True
        have "ins_ok (insert_qt (Suc lvl)) ob" if "ob \<in> set (objs @ [obj])" for ob
          unfolding ins_ok_def
        proof
          fix n :: "'a box_scheme quadtree"
          show "mset (getAllObjects (insert_qt (Suc lvl) n ob)) = add_mset ob (mset (getAllObjects n)) \<and>
            (qt_inv n \<longrightarrow> qt_inv (insert_qt (Suc lvl) n ob))"
            by (rule "2.IH"(5) [OF refl k refl True that, where a = "([], n, n, n, n)"]) simp
        qed
        then have "\<forall>ob \<in> set (objs @ [obj]). ins_ok (insert_qt (Suc lvl)) ob"
          by blast
        note f = foldl_place [OF this, of bnds "([], n0, n1, n2, n3)"]
        let ?st = "foldl (place (insert_qt (Suc lvl)) bnds) ([], n0, n1, n2, n3) (objs @ [obj])"
        have e: "insert_qt lvl (Split bnds objs n0 n1 n2 n3) obj = assemble bnds ?st"
          using True k by (simp add: assemble_case del: foldl_append)
        have "mset (getAllObjects (assemble bnds ?st)) =
            mset (objs @ [obj]) + mset (getAllObjects (assemble bnds ([], n0, n1, n2, n3)))"
          using f by blast
        moreover have "qt_inv (Split bnds objs n0 n1 n2 n3) \<longrightarrow> qt_inv (assemble bnds ?st)"
          using f by simp
        ultimately show ?thesis
          unfolding e by simp
      next
        case False
        then show ?thesis using k by (auto simp add: Let_def)
      qed
    qed
  qed
qed



lemma sub4:
  assumes "A0 \<subseteq># B0" "A1 \<subseteq># B1" "A2 \<subseteq># B2" "A3 \<subseteq># B3"
  shows "A0 \<subseteq># B0 + (B1 + (B2 + B3))"
    and "A1 \<subseteq># B0 + (B1 + (B2 + B3))"
    and "A2 \<subseteq># B0 + (B1 + (B2 + B3))"
    and "A3 \<subseteq># B0 + (B1 + (B2 + B3))"
    and "A0 + (A1 + (A2 + A3)) \<subseteq># B0 + (B1 + (B2 + B3))"
proof -
  have c: "\<And>a. count A0 a \<le> count B0 a" "\<And>a. count A1 a \<le> count B1 a"
    "\<And>a. count A2 a \<le> count B2 a" "\<And>a. count A3 a \<le> count B3 a"
    using assms by (simp_all add: mset_subset_eq_count)
  show "A0 \<subseteq># B0 + (B1 + (B2 + B3))"
    by (rule mset_subset_eqI) (simp add: trans_le_add1 c)
  show "A1 \<subseteq># B0 + (B1 + (B2 + B3))"
    by (rule mset_subset_eqI) (simp add: trans_le_add1 trans_le_add2 c)
  show "A2 \<subseteq># B0 + (B1 + (B2 + B3))"
    by (rule mset_subset_eqI) (simp add: trans_le_add1 trans_le_add2 c)
  show "A3 \<subseteq># B0 + (B1 + (B2 + B3))"
    by (rule mset_subset_eqI) (simp add: trans_le_add1 trans_le_add2 c)
  show "A0 + (A1 + (A2 + A3)) \<subseteq># B0 + (B1 + (B2 + B3))"
    by (rule mset_subset_eqI) (simp add: add_mono c)
qed

lemma distinct_subseteq: "distinct ys \<Longrightarrow> mset xs \<subseteq># mset ys \<Longrightarrow> distinct xs"
proof -
  assume d: "distinct ys" and s: "mset xs \<subseteq># mset ys"
  have "count (mset xs) a \<le> 1" for a
    using mset_subset_eq_count [OF s, of a] d
    by (metis distinct_count_atmost_1 le_trans order_refl zero_le_one)
  then show "distinct xs"
    by (metis distinct_count_atmost_1 count_mset_0_iff le_antisym zero_le One_nat_def le_SucE le_zero_eq)
qed
lemma retrieve_complete:
  assumes "qt_inv t" "obj \<in> set (getAllObjects t)" "intersects obj q"
  shows "obj \<in> set (retrieve t q)"
  using assms
proof (induction t)
  case (Leaf bnds objs)
  then show ?case by simp
next
  case (Split bnds objs n0 n1 n2 n3)
  from Split.prems(2) consider (here) "obj \<in> set objs"
    | (c0) "obj \<in> set (getAllObjects n0)" | (c1) "obj \<in> set (getAllObjects n1)"
    | (c2) "obj \<in> set (getAllObjects n2)" | (c3) "obj \<in> set (getAllObjects n3)"
    by auto
  then show ?case
  proof cases
    case here
    then show ?thesis by (simp add: Let_def)
  next
    case c0
    then have i: "getIndex bnds obj = 0" using Split.prems(1) by simp
    have r: "obj \<in> set (retrieve n0 q)" using Split.IH(1) Split.prems c0 by simp
    have "getIndex bnds q = 0 \<or> getIndex bnds q = - 1"
      using getIndex_separates [OF i refl, of q] Split.prems(3) by auto
    then show ?thesis using r by (auto simp add: Let_def)
  next
    case c1
    then have i: "getIndex bnds obj = 1" using Split.prems(1) by simp
    have r: "obj \<in> set (retrieve n1 q)" using Split.IH(2) Split.prems c1 by simp
    have "getIndex bnds q = 1 \<or> getIndex bnds q = - 1"
      using getIndex_separates [OF i refl, of q] Split.prems(3) by auto
    then show ?thesis using r by (auto simp add: Let_def)
  next
    case c2
    then have i: "getIndex bnds obj = 2" using Split.prems(1) by simp
    have r: "obj \<in> set (retrieve n2 q)" using Split.IH(3) Split.prems c2 by simp
    have "getIndex bnds q = 2 \<or> getIndex bnds q = - 1"
      using getIndex_separates [OF i refl, of q] Split.prems(3) by auto
    then show ?thesis using r by (auto simp add: Let_def)
  next
    case c3
    then have i: "getIndex bnds obj = 3" using Split.prems(1) by simp
    have r: "obj \<in> set (retrieve n3 q)" using Split.IH(4) Split.prems c3 by simp
    have "getIndex bnds q = 3 \<or> getIndex bnds q = - 1"
      using getIndex_separates [OF i refl, of q] Split.prems(3) by auto
    then show ?thesis using r by (auto simp add: Let_def)
  qed
qed

lemma retrieve_subseteq: "mset (retrieve t q) \<subseteq># mset (getAllObjects t)"
proof (induction t)
  case (Leaf bnds objs)
  then show ?case by simp
next
  case (Split bnds objs n0 n1 n2 n3)
  note s = sub4 [OF Split.IH]
  have "mset (if getIndex bnds q = 0 then retrieve n0 q
          else if getIndex bnds q = 1 then retrieve n1 q
          else if getIndex bnds q = 2 then retrieve n2 q
          else if getIndex bnds q = 3 then retrieve n3 q
          else retrieve n0 q @ retrieve n1 q @ retrieve n2 q @ retrieve n3 q)
        \<subseteq># mset (getAllObjects n0) + (mset (getAllObjects n1) +
             (mset (getAllObjects n2) + mset (getAllObjects n3)))"
    using s by simp
  then show ?case
    by (simp add: Let_def add.commute [of _ "mset objs"])
qed

lemma mset_getAllObjects_insert:
  "mset (getAllObjects (insert_qt lvl t obj)) = add_mset obj (mset (getAllObjects t))"
  using insert_ok [of lvl obj] by (simp add: ins_ok_def)

lemma qt_inv_insert: "qt_inv t \<Longrightarrow> qt_inv (insert_qt lvl t obj)"
  using insert_ok [of lvl obj] by (simp add: ins_ok_def)

lemma getAllObjects_insertAll:
  "mset (getAllObjects (foldl (insert_qt lvl) t objs)) = mset (getAllObjects t) + mset objs"
  by (induction objs arbitrary: t) (simp_all add: mset_getAllObjects_insert)

lemma qt_inv_insertAll: "qt_inv t \<Longrightarrow> qt_inv (foldl (insert_qt lvl) t objs)"
  by (induction objs arbitrary: t) (simp_all add: qt_inv_insert)

lemma getAllObjects_updateQuadtree: "mset (getAllObjects (updateQuadtree qt boxes)) = mset boxes"
  by (simp add: updateQuadtree_def getAllObjects_insertAll clear_def)

lemma qt_inv_updateQuadtree: "qt_inv (updateQuadtree qt boxes)"
  by (simp add: updateQuadtree_def qt_inv_insertAll clear_def)

text \<open>
  Claim C1. After \<^verbatim>\<open>clear()\<close> and the insertion of any list of boxes, \<^verbatim>\<open>retrieve(q)\<close>
  returns every inserted box that geometrically intersects the query box \<open>q\<close> (boxes
  that only touch count as intersecting); it may return more.
\<close>

theorem retrieve_no_false_negatives:
  assumes "obj \<in> set boxes" "intersects obj q"
  shows "obj \<in> set (retrieve (updateQuadtree qt boxes) q)"
proof -
  have "set (getAllObjects (updateQuadtree qt boxes)) = set boxes"
    using getAllObjects_updateQuadtree [of qt boxes] by (metis set_mset_mset)
  with assms show ?thesis
    by (simp add: retrieve_complete qt_inv_updateQuadtree)
qed

text \<open>
  The evaluation of the tree on twelve boxes in a 100 by 100 world: the eleventh
  insertion splits the root, and the two boxes that straddle a midline stay in the root.
\<close>

lemma retrieve_example:
  "retrieve (updateQuadtree (initQuadtree 100 100)
      (map (\<lambda>(a, b). \<lparr>x = a, y = b, width = 2, height = 2\<rparr>)
         [(10, 10), (60, 10), (10, 60), (60, 60), (49, 49), (20, 20), (70, 20), (20, 70),
          (70, 70), (30, 30), (80, 80), (48, 10)]))
     \<lparr>x = 11, y = 11, width = 2, height = 2\<rparr> =
   map (\<lambda>(a, b). \<lparr>x = a, y = b, width = 2, height = 2\<rparr>)
     [(10, 10), (20, 20), (30, 30), (49, 49), (48, 10)]"
  by (simp add: updateQuadtree_def initQuadtree_def clear_def MAX_OBJECTS_def MAX_LEVELS_def
      getIndex_def split_def Let_def)

theorem retrieve_no_false_negatives_witness:
  "\<lparr>x = 10, y = 10, width = 2, height = 2\<rparr> \<in> set
     (map (\<lambda>(a, b). \<lparr>x = a, y = b, width = 2, height = 2\<rparr>)
        [(10, 10), (60, 10), (10, 60), (60, 60), (49, 49), (20, 20), (70, 20), (20, 70),
         (70, 70), (30, 30), (80, 80), (48, 10)]) \<and>
   intersects \<lparr>x = 10, y = 10, width = 2, height = 2\<rparr>
     \<lparr>x = 11, y = 11, width = 2, height = 2\<rparr> \<and>
   \<lparr>x = 10, y = 10, width = 2, height = 2\<rparr> \<in> set
     (retrieve (updateQuadtree (initQuadtree 100 100)
        (map (\<lambda>(a, b). \<lparr>x = a, y = b, width = 2, height = 2\<rparr>)
           [(10, 10), (60, 10), (10, 60), (60, 60), (49, 49), (20, 20), (70, 20), (20, 70),
            (70, 70), (30, 30), (80, 80), (48, 10)]))
        \<lparr>x = 11, y = 11, width = 2, height = 2\<rparr>)"
proof -
  have m: "\<lparr>x = 10, y = 10, width = 2, height = 2\<rparr> \<in> set
     (map (\<lambda>(a, b). \<lparr>x = a, y = b, width = 2, height = 2\<rparr>)
        [(10, 10), (60, 10), (10, 60), (60, 60), (49, 49), (20, 20), (70, 20), (20, 70),
         (70, 70), (30, 30), (80, 80), (48, 10)])"
    by simp
  have i: "intersects \<lparr>x = 10, y = 10, width = 2, height = 2\<rparr>
     \<lparr>x = 11, y = 11, width = 2, height = 2\<rparr>"
    by (simp add: intersects_def)
  from m i retrieve_no_false_negatives [OF m i, of "initQuadtree 100 100"]
  show ?thesis by blast
qed

text \<open>
  Claim C10. When the inserted objects are pairwise different (after \<^verbatim>\<open>clear()\<close>), no
  object occurs twice in the list returned by \<^verbatim>\<open>retrieve(q)\<close>: every inserted object is
  in exactly one node (lemma \<open>getAllObjects_updateQuadtree\<close>) and \<^verbatim>\<open>retrieve\<close> visits
  each node at most once (lemma \<open>retrieve_subseteq\<close>).
\<close>

theorem retrieve_no_duplicates:
  assumes "distinct boxes"
  shows "distinct (retrieve (updateQuadtree qt boxes) q)"
proof -
  have "mset (retrieve (updateQuadtree qt boxes) q) \<subseteq># mset boxes"
    using retrieve_subseteq [of "updateQuadtree qt boxes" q]
    by (simp add: getAllObjects_updateQuadtree)
  with assms show ?thesis
    by (rule distinct_subseteq)
qed


theorem retrieve_no_duplicates_witness:
  "distinct (map (\<lambda>(a, b). \<lparr>x = a, y = b, width = 2, height = 2\<rparr>)
        [(10, 10), (60, 10), (10, 60), (60, 60), (49, 49), (20, 20), (70, 20), (20, 70),
         (70, 70), (30, 30), (80, 80), (48, 10 :: real)]) \<and>
   distinct (retrieve (updateQuadtree (initQuadtree 100 100)
        (map (\<lambda>(a, b). \<lparr>x = a, y = b, width = 2, height = 2\<rparr>)
           [(10, 10), (60, 10), (10, 60), (60, 60), (49, 49), (20, 20), (70, 20), (20, 70),
            (70, 70), (30, 30), (80, 80), (48, 10)]))
        \<lparr>x = 49, y = 11, width = 2, height = 2\<rparr>)"
proof -
  have d: "distinct (map (\<lambda>(a, b). \<lparr>x = a, y = b, width = 2, height = 2\<rparr>)
        [(10, 10), (60, 10), (10, 60), (60, 60), (49, 49), (20, 20), (70, 20), (20, 70),
         (70, 70), (30, 30), (80, 80), (48, 10 :: real)])"
    by simp
  from d retrieve_no_duplicates [OF d, of "initQuadtree 100 100"]
  show ?thesis by blast
qed
section \<open>Properties of the snake\<close>

subsection \<open>Death\<close>

lemma Math_random_constant [simp]: "Math_random (constant_rng c) = (c, constant_rng c)"
  by (simp add: Math_random_def constant_rng_def fun_eq_iff)

lemma rng_ok_constant: "0 \<le> c \<Longrightarrow> c < 1 \<Longrightarrow> rng_ok (constant_rng c)"
  by (simp add: rng_ok_def constant_rng_def)

lemma length_dieLoop: "length (fst (dieLoop e foodCount i g)) = nat (foodCount - i)"
proof (induction e foodCount i g rule: dieLoop.induct)
  case (1 e foodCount i g)
  show ?case
  proof (cases "i < foodCount")
    case True
    then show ?thesis
      using "1.IH" [OF True refl refl] 
      apply (subst dieLoop.simps)
      apply (auto simp add: Let_def split: prod.splits)
      done
  next
    case False
    then show ?thesis by (subst dieLoop.simps) simp
  qed
qed

lemma type_new_DeathFood: "type (fst (new_DeathFood px py col g)) = DeathFoodT"
  by (simp add: new_DeathFood_def split: prod.splits)

lemma dieLoop_done: "\<not> i < foodCount \<Longrightarrow> dieLoop e foodCount i g = ([], g)"
  by (subst dieLoop.simps) simp

lemma dieLoop_step:
  "i < foodCount \<Longrightarrow>
   \<exists>px py g' g''. fst (dieLoop e foodCount i g) =
      fst (new_DeathFood px py (color e) g') # fst (dieLoop e foodCount (i + 1) g'')"
  by (subst dieLoop.simps) (simp add: Let_def case_prod_beta, blast)

lemma dieLoop_DeathFood: "f \<in> set (fst (dieLoop e foodCount i g)) \<Longrightarrow> type f = DeathFoodT"
proof (induction "nat (foodCount - i)" arbitrary: i g)
  case 0
  then have "\<not> i < foodCount" by simp
  with "0.prems" show ?case by (simp add: dieLoop_done)
next
  case (Suc n)
  then have lt: "i < foodCount" by linarith
  from dieLoop_step [OF lt, of e g] obtain px py g' g''
    where s: "fst (dieLoop e foodCount i g) =
      fst (new_DeathFood px py (color e) g') # fst (dieLoop e foodCount (i + 1) g'')"
    by blast
  have n: "n = nat (foodCount - (i + 1))" using Suc.hyps(2) by linarith
  from Suc.prems s consider "f = fst (new_DeathFood px py (color e) g')"
    | "f \<in> set (fst (dieLoop e foodCount (i + 1) g''))"
    by auto
  then show ?case
  proof cases
    case 1
    then show ?thesis by (simp add: type_new_DeathFood)
  next
    case 2
    then show ?thesis by (rule Suc.hyps(1) [OF n])
  qed
qed

lemma die_index_in_range:
  assumes "0 \<le> i" "i < foodCount"
  shows "0 \<le> \<lfloor>of_int i * real (length (segments e)) / of_int foodCount\<rfloor> \<and>
         nat \<lfloor>of_int i * real (length (segments e)) / of_int foodCount\<rfloor> < length (segments e)"
proof -
  let ?n = "real (length (segments e))"
  let ?q = "\<lfloor>of_int i * ?n / of_int foodCount\<rfloor>"
  have c: "(0::real) < of_int foodCount" using assms by simp
  have n: "0 < ?n" by (simp add: segments_def)
  have "0 \<le> of_int i * ?n / of_int foodCount"
    using assms c by simp
  then have 1: "0 \<le> ?q" by simp
  have "of_int i * ?n < of_int foodCount * ?n"
    using assms n by simp
  then have "of_int i * ?n / of_int foodCount < ?n"
    using c by (simp add: pos_divide_less_eq mult.commute)
  then have 2: "?q < int (length (segments e))"
    by (simp add: floor_less_iff)
  from 1 2 have "nat ?q < length (segments e)" by linarith
  with 1 show ?thesis by blast
qed

lemma die_snake: "fst (snd (die e g)) = destroy e"
  by (simp add: die_def case_prod_beta)

lemma die_count:
  "length (fst (die e g)) =
     nat (fst (randomInt DEATH_FOOD_MIN_COUNT (min DEATH_FOOD_MAX_COUNT (size' e)) g))"
  by (simp add: die_def case_prod_beta length_dieLoop)

lemma die_DeathFood: "f \<in> set (fst (die e g)) \<Longrightarrow> type f = DeathFoodT"
  by (simp add: die_def case_prod_beta dieLoop_DeathFood)

text \<open>
  The four rounded operations of \<^verbatim>\<open>Utils.randomInt(10, mx)\<close>. Rounding is monotone and
  leaves the whole numbers in reach unchanged, which bounds the result by the whole
  numbers around \<open>mx\<close>.
\<close>

lemma randomInt_unfold:
  "fst (randomInt mn mx g) = \<lfloor>double (double (g 0 * double (double (mx + 1) - mn)) + mn)\<rfloor>"
  by (simp add: randomInt_def random'_def Math_random_def case_prod_beta)

lemma double_of_int_small: "\<bar>n\<bar> \<le> 100 \<Longrightarrow> double (of_int n) = of_int n"
  by (rule double_int) simp

lemma scaled_between:
  fixes r d :: real
  assumes "0 \<le> r" "r < 1"
  shows "min 0 d \<le> r * d" "r * d \<le> max 0 d"
proof -
  have "r * d \<le> d" if "0 \<le> d"
    using mult_right_mono [of r 1 d] assms that by simp
  moreover have "0 \<le> r * d" if "0 \<le> d"
    using assms that by simp
  moreover have "d \<le> r * d" if "d \<le> 0"
    using mult_right_mono_neg [of r 1 d] assms that by simp
  moreover have "r * d \<le> 0" if "d \<le> 0"
    using assms that by (simp add: mult_nonneg_nonpos)
  ultimately show "min 0 d \<le> r * d" "r * d \<le> max 0 d"
    by (auto simp add: min_def max_def)
qed

lemma randomInt_lower:
  assumes r: "0 \<le> g 0" "g 0 < 1"
    and lo: "of_int a \<le> mx" and a: "\<bar>a\<bar> \<le> 50"
  shows "min 10 (a + 1) \<le> fst (randomInt 10 mx g)"
proof -
  define M1 where "M1 = double (mx + 1)"
  define d where "d = double (M1 - 10)"
  define q where "q = double (g 0 * d)"
  have v: "fst (randomInt 10 mx g) = \<lfloor>double (q + 10)\<rfloor>"
    by (simp add: randomInt_unfold q_def d_def M1_def)
  have "double (of_int (a + 1)) \<le> double (mx + 1)"
    using lo by (intro double_mono) simp
  moreover have "double (of_int (a + 1)) = of_int (a + 1)"
    using a by (intro double_of_int_small) simp
  ultimately have M1_lo: "of_int a + 1 \<le> M1" by (simp add: M1_def)
  have "double (of_int (a - 9)) \<le> double (M1 - 10)"
    using M1_lo by (intro double_mono) simp
  moreover have "double (of_int (a - 9)) = of_int (a - 9)"
    using a by (intro double_of_int_small) simp
  ultimately have d_lo: "of_int a - 9 \<le> d" by (simp add: d_def)
  have dd: "double d = d" by (simp add: d_def)
  have "double (min 0 d) \<le> double (g 0 * d)"
    using scaled_between(1) [OF r] by (rule double_mono)
  moreover have "double (min 0 d) = min 0 d"
    using dd by (simp add: min_def)
  ultimately have q_lo: "min 0 d \<le> q" by (simp add: q_def)
  define lo' where "lo' = min 10 (a + 1)"
  have "of_int lo' \<le> q + 10"
    using q_lo d_lo by (simp add: lo'_def min_def split: if_splits)
  then have "double (of_int lo') \<le> double (q + 10)" by (rule double_mono)
  moreover have "double (of_int lo') = of_int lo'"
    using a by (intro double_of_int_small) (simp add: lo'_def)
  ultimately have "of_int lo' \<le> double (q + 10)" by simp
  then have "lo' \<le> \<lfloor>double (q + 10)\<rfloor>" by (simp add: le_floor_iff)
  then show ?thesis by (simp add: v lo'_def)
qed

lemma randomInt_upper:
  assumes r: "0 \<le> g 0" "g 0 < 1"
    and hi: "mx \<le> of_int b" and b: "\<bar>b\<bar> \<le> 50"
  shows "fst (randomInt 10 mx g) \<le> max 10 (b + 1)"
proof -
  define M1 where "M1 = double (mx + 1)"
  define d where "d = double (M1 - 10)"
  define q where "q = double (g 0 * d)"
  have v: "fst (randomInt 10 mx g) = \<lfloor>double (q + 10)\<rfloor>"
    by (simp add: randomInt_unfold q_def d_def M1_def)
  have "double (mx + 1) \<le> double (of_int (b + 1))"
    using hi by (intro double_mono) simp
  moreover have "double (of_int (b + 1)) = of_int (b + 1)"
    using b by (intro double_of_int_small) simp
  ultimately have M1_hi: "M1 \<le> of_int b + 1" by (simp add: M1_def)
  have "double (M1 - 10) \<le> double (of_int (b - 9))"
    using M1_hi by (intro double_mono) simp
  moreover have "double (of_int (b - 9)) = of_int (b - 9)"
    using b by (intro double_of_int_small) simp
  ultimately have d_hi: "d \<le> of_int b - 9" by (simp add: d_def)
  have dd: "double d = d" by (simp add: d_def)
  have "double (g 0 * d) \<le> double (max 0 d)"
    using scaled_between(2) [OF r] by (rule double_mono)
  moreover have "double (max 0 d) = max 0 d"
    using dd by (simp add: max_def)
  ultimately have q_hi: "q \<le> max 0 d" by (simp add: q_def)
  define hi' where "hi' = max 10 (b + 1)"
  have "q + 10 \<le> of_int hi'"
    using q_hi d_hi by (simp add: hi'_def max_def split: if_splits)
  then have "double (q + 10) \<le> double (of_int hi')" by (rule double_mono)
  moreover have "double (of_int hi') = of_int hi'"
    using b by (intro double_of_int_small) (simp add: hi'_def)
  ultimately have "double (q + 10) \<le> of_int hi'" by simp
  then have "\<lfloor>double (q + 10)\<rfloor> \<le> hi'" by (simp add: floor_le_iff)
  then show ?thesis by (simp add: v hi'_def)
qed

text \<open>
  Between 8 and 16 the doubles are the multiples of \<open>2\<^sup>-\<^sup>4\<^sup>9\<close>: a double below 10 is at
  most \<open>10 - 2\<^sup>-\<^sup>4\<^sup>9\<close>, and then no sum on the way reaches 11.
\<close>

lemma randomInt_below_10:
  assumes r: "0 \<le> g 0" "g 0 < 1"
    and s: "double s = s" "9 < s" "s < 10"
  shows "fst (randomInt 10 s g) \<le> 10"
proof -
  define t :: real where "t = 1 / 2 ^ 49"
  have t0: "0 < t" by (simp add: t_def)
  have "pow2 3 \<le> \<bar>s\<bar>" using s(2) by (simp add: pow2_numeral)
  from double_grid [OF s(1) this] obtain m where "s = of_int m * pow2 (- 49)" by auto
  then have m: "s = of_int m * t" by (simp add: pow2_neg_numeral t_def)
  have "of_int m * t < 10" using s(3) m by simp
  then have "(of_int m :: real) < 10 * 2 ^ 49" by (simp add: t_def field_simps)
  then have "(of_int m :: real) < of_int (10 * 2 ^ 49)" by simp
  then have "m < 10 * 2 ^ 49" by (simp only: of_int_less_iff)
  then have "m \<le> 10 * 2 ^ 49 - 1" by simp
  then have "(of_int m :: real) \<le> of_int (10 * 2 ^ 49 - 1)" by (simp only: of_int_le_iff)
  then have "of_int m * t \<le> of_int (10 * 2 ^ 49 - 1) * t"
    using t0 by (intro mult_right_mono) simp_all
  also have "\<dots> = 10 - t" by (simp add: t_def field_simps)
  finally have s_hi: "s \<le> 10 - t" by (simp add: m)
  have fix11: "double (11 - t) = 11 - t"
  proof -
    have e: "of_int (11 * 2 ^ 49 - 1) / 2 ^ 49 = 11 - t" by (simp add: t_def field_simps)
    have "double (of_int (11 * 2 ^ 49 - 1) / 2 ^ 49) = of_int (11 * 2 ^ 49 - 1) / 2 ^ 49"
      by (rule double_fraction) simp
    then show ?thesis unfolding e .
  qed
  have fix1: "double (1 - t) = 1 - t"
  proof -
    have e: "of_int (2 ^ 49 - 1) / 2 ^ 49 = 1 - t" by (simp add: t_def field_simps)
    have "double (of_int (2 ^ 49 - 1) / 2 ^ 49) = of_int (2 ^ 49 - 1) / 2 ^ 49"
      by (rule double_fraction) simp
    then show ?thesis unfolding e .
  qed
  define M1 where "M1 = double (s + 1)"
  define d where "d = double (M1 - 10)"
  define q where "q = double (g 0 * d)"
  have v: "fst (randomInt 10 s g) = \<lfloor>double (q + 10)\<rfloor>"
    by (simp add: randomInt_unfold q_def d_def M1_def)
  have "double (s + 1) \<le> double (11 - t)"
    using s_hi by (intro double_mono) simp
  then have M1_hi: "M1 \<le> 11 - t" by (simp add: M1_def fix11)
  have "double (M1 - 10) \<le> double (1 - t)"
    using M1_hi by (intro double_mono) simp
  then have d_hi: "d \<le> 1 - t" by (simp add: d_def fix1)
  have dd: "double d = d" by (simp add: d_def)
  have "double (g 0 * d) \<le> double (max 0 d)"
    using scaled_between(2) [OF r] by (rule double_mono)
  moreover have "double (max 0 d) = max 0 d"
    using dd by (simp add: max_def)
  ultimately have q_hi: "q \<le> max 0 d" by (simp add: q_def)
  have "1 - t \<ge> 0" by (simp add: t_def)
  then have "q + 10 \<le> 11 - t"
    using q_hi d_hi by (simp add: max_def split: if_splits)
  then have "double (q + 10) \<le> double (11 - t)" by (rule double_mono)
  then have "double (q + 10) < 11" using t0 by (simp add: fix11)
  then have "\<lfloor>double (q + 10)\<rfloor> < 11" by (simp add: floor_less_iff)
  then show ?thesis by (simp add: v)
qed

text \<open>
  The difference \<open>M - 10\<close> of \<^verbatim>\<open>Utils.random\<close> is exact for a double \<open>M\<close> between 11 and
  51, so the rounded sum never exceeds \<open>M\<close>.
\<close>

lemma double_minus_10:
  assumes d: "double M = M" and r: "11 \<le> M" "M \<le> 51"
  shows "double (M - 10) = M - 10"
proof -
  have step: "double (M - 10) = M - 10"
    if g: "pow2 k \<le> \<bar>M\<bar>" and q: "k - 52 = - int n" and b: "M - 10 < c" "c * 2 ^ n \<le> 2 ^ 53"
    for k n and c :: real
  proof -
    from double_grid [OF d g] obtain m where "M = of_int m * pow2 (- int n)"
      unfolding q by auto
    then have m: "M = of_int m / 2 ^ n" by (simp add: pow2_neg_nat)
    define m' where "m' = m - 10 * 2 ^ n"
    have e: "M - 10 = of_int m' / 2 ^ n" by (simp add: m m'_def field_simps)
    have "0 \<le> of_int m' / (2 ^ n :: real)" "of_int m' / (2 ^ n :: real) < c"
      using r b unfolding e [symmetric] by simp_all
    then have "(0 :: real) \<le> of_int m'" "(of_int m' :: real) < c * 2 ^ n"
      by (simp_all add: field_simps)
    then have "0 \<le> m'" "(of_int m' :: real) < 2 ^ 53" using b(2) by simp_all
    then have "0 \<le> m'" "(of_int m' :: real) < of_int (2 ^ 53)" by simp_all
    then have "0 \<le> m'" "m' < 2 ^ 53" by (simp_all only: of_int_less_iff)
    then have "\<bar>m'\<bar> < 2 ^ 53" by simp
    from double_fraction [OF this, of n] show ?thesis by (simp only: e)
  qed
  consider "M < 16" | "16 \<le> M" "M < 32" | "32 \<le> M" by linarith
  then show ?thesis
  proof cases
    case 1
    show ?thesis
      by (rule step [of 3 49 6]) (use r 1 in \<open>simp_all add: pow2_numeral\<close>)
  next
    case 2
    show ?thesis
      by (rule step [of 4 48 22]) (use r 2 in \<open>simp_all add: pow2_numeral\<close>)
  next
    case 3
    show ?thesis
      by (rule step [of 5 47 42]) (use r 3 in \<open>simp_all add: pow2_numeral\<close>)
  qed
qed

lemma randomInt_sharp:
  assumes r: "0 \<le> g 0" "g 0 < 1" and m: "10 \<le> mx" "mx \<le> 50"
  shows "fst (randomInt 10 mx g) \<le> \<lfloor>double (mx + 1)\<rfloor>"
    and "\<lfloor>double (mx + 1)\<rfloor> \<le> \<lceil>mx\<rceil> + 1"
proof -
  define M1 where "M1 = double (mx + 1)"
  define d where "d = double (M1 - 10)"
  define q where "q = double (g 0 * d)"
  have v: "fst (randomInt 10 mx g) = \<lfloor>double (q + 10)\<rfloor>"
    by (simp add: randomInt_unfold q_def d_def M1_def)
  have "double 11 \<le> double (mx + 1)" using m by (intro double_mono) simp
  then have lo: "11 \<le> M1" by (simp add: M1_def)
  have "double (mx + 1) \<le> double 51" using m by (intro double_mono) simp
  then have hi: "M1 \<le> 51" by (simp add: M1_def)
  have dM: "double M1 = M1" by (simp add: M1_def)
  have d: "d = M1 - 10" unfolding d_def using dM lo hi by (rule double_minus_10)
  have d0: "0 \<le> d" using lo by (simp add: d)
  have "double (g 0 * d) \<le> double (max 0 d)"
    using scaled_between(2) [OF r] by (rule double_mono)
  also have "max 0 d = d" using d0 by simp
  also have "double d = d" by (simp add: d_def)
  finally have "q \<le> d" by (simp add: q_def)
  then have "q + 10 \<le> M1" by (simp add: d)
  then have "double (q + 10) \<le> double M1" by (rule double_mono)
  then have "double (q + 10) \<le> M1" by (simp add: dM)
  then show "fst (randomInt 10 mx g) \<le> \<lfloor>double (mx + 1)\<rfloor>"
    unfolding v M1_def by (rule floor_mono)
  have c: "\<bar>\<lceil>mx\<rceil> + 1\<bar> \<le> 100" using m by (simp add: abs_le_iff ceiling_le_iff)
  have "mx + 1 \<le> of_int (\<lceil>mx\<rceil> + 1)" by simp
  then have "double (mx + 1) \<le> double (of_int (\<lceil>mx\<rceil> + 1))" by (rule double_mono)
  also have "\<dots> = of_int (\<lceil>mx\<rceil> + 1)" using c by (rule double_of_int_small)
  finally show "\<lfloor>double (mx + 1)\<rfloor> \<le> \<lceil>mx\<rceil> + 1" by (simp add: floor_le_iff)
qed

lemma die_count_large:
  assumes r: "0 \<le> g 0" "g 0 < 1" and s: "DEATH_FOOD_MIN_COUNT \<le> size' e"
  shows "DEATH_FOOD_MIN_COUNT \<le> real (length (fst (die e g)))"
    and "real (length (fst (die e g)))
           \<le> of_int \<lceil>min DEATH_FOOD_MAX_COUNT (size' e)\<rceil> + 1"
    and "real (length (fst (die e g)))
           \<le> of_int \<lfloor>double (min DEATH_FOOD_MAX_COUNT (size' e) + 1)\<rfloor>"
proof -
  define mx where "mx = min DEATH_FOOD_MAX_COUNT (size' e)"
  define K where "K = fst (randomInt 10 mx g)"
  have m: "10 \<le> mx" "mx \<le> 50"
    using s by (simp_all add: mx_def DEATH_FOOD_MIN_COUNT_def DEATH_FOOD_MAX_COUNT_def)
  have fl: "10 \<le> \<lfloor>mx\<rfloor>" "\<lfloor>mx\<rfloor> \<le> 50" using m by (simp_all add: le_floor_iff floor_le_iff)
  have ce: "10 \<le> \<lceil>mx\<rceil>" "\<lceil>mx\<rceil> \<le> 50" using m by (simp_all add: le_ceiling_iff ceiling_le_iff)
  have "min 10 (\<lfloor>mx\<rfloor> + 1) \<le> K"
    unfolding K_def using r fl by (intro randomInt_lower) simp_all
  then have lo: "10 \<le> K" using fl by simp
  have "K \<le> max 10 (\<lceil>mx\<rceil> + 1)"
    unfolding K_def using r ce by (intro randomInt_upper) simp_all
  then have hi: "K \<le> \<lceil>mx\<rceil> + 1" using ce by simp
  have n: "length (fst (die e g)) = nat K"
    by (simp add: die_count K_def mx_def DEATH_FOOD_MIN_COUNT_def)
  have k: "real (nat K) = of_int K" using lo by simp
  have "(10 :: real) \<le> of_int K" using lo by simp
  then show "DEATH_FOOD_MIN_COUNT \<le> real (length (fst (die e g)))"
    by (simp add: n k DEATH_FOOD_MIN_COUNT_def)
  have "(of_int K :: real) \<le> of_int (\<lceil>mx\<rceil> + 1)" using hi by (simp only: of_int_le_iff)
  then show "real (length (fst (die e g)))
           \<le> of_int \<lceil>min DEATH_FOOD_MAX_COUNT (size' e)\<rceil> + 1"
    by (simp add: n k mx_def)
  have "K \<le> \<lfloor>double (mx + 1)\<rfloor>"
    unfolding K_def using r m by (rule randomInt_sharp)
  then have "(of_int K :: real) \<le> of_int \<lfloor>double (mx + 1)\<rfloor>" by (simp only: of_int_le_iff)
  then show "real (length (fst (die e g)))
           \<le> of_int \<lfloor>double (min DEATH_FOOD_MAX_COUNT (size' e) + 1)\<rfloor>"
    by (simp add: n k mx_def)
qed

lemma die_count_small:
  assumes r: "0 \<le> g 0" "g 0 < 1"
    and s: "size' e < DEATH_FOOD_MIN_COUNT" and d: "double (size' e) = size' e"
  shows "size' e < real (length (fst (die e g)))"
    and "real (length (fst (die e g))) \<le> DEATH_FOOD_MIN_COUNT"
proof -
  define K where "K = fst (randomInt 10 (size' e) g)"
  have s10: "size' e < 10" using s by (simp add: DEATH_FOOD_MIN_COUNT_def)
  have n: "length (fst (die e g)) = nat K"
    using s10 by (simp add: die_count K_def DEATH_FOOD_MIN_COUNT_def DEATH_FOOD_MAX_COUNT_def)
  have up: "K \<le> 10"
  proof -
    consider "size' e \<le> 0" | "0 < size' e" "size' e \<le> 9" | "9 < size' e" by linarith
    then show ?thesis
    proof cases
      case 1
      have "K \<le> max 10 (0 + 1)"
        unfolding K_def using r 1 by (intro randomInt_upper) simp_all
      then show ?thesis by simp
    next
      case 2
      have "K \<le> max 10 (9 + 1)"
        unfolding K_def using r 2 by (intro randomInt_upper) simp_all
      then show ?thesis by simp
    next
      case 3
      then show ?thesis
        unfolding K_def using r d s10 by (intro randomInt_below_10)
    qed
  qed
  then have "real (nat K) \<le> 10" by simp
  then show "real (length (fst (die e g))) \<le> DEATH_FOOD_MIN_COUNT"
    by (simp add: n DEATH_FOOD_MIN_COUNT_def)
  show "size' e < real (length (fst (die e g)))"
  proof (cases "size' e < 0")
    case True
    then show ?thesis by (simp add: n)
  next
    case False
    then have f: "0 \<le> \<lfloor>size' e\<rfloor>" "\<lfloor>size' e\<rfloor> \<le> 9"
      using s10 by (simp_all add: le_floor_iff floor_le_iff)
    have "min 10 (\<lfloor>size' e\<rfloor> + 1) \<le> K"
      unfolding K_def using r f by (intro randomInt_lower) simp_all
    then have "\<lfloor>size' e\<rfloor> + 1 \<le> K" using f by simp
    then have "size' e < of_int K" by linarith
    moreover have "(of_int K :: real) \<le> real (nat K)" by simp
    ultimately show ?thesis by (simp add: n)
  qed
qed

lemma size'_initSegments [simp]: "size' (initSegments e) = size' e"
  by (simp add: initSegments_def Let_def)

lemma size'_new_Snake [simp]: "size' (fst (new_Snake px py sz col hcol g)) = sz"
  by (simp add: new_Snake_def case_prod_beta)

text \<open>Three calls of \<^verbatim>\<open>Utils.randomInt(10, S)\<close>, for \<open>S\<close> = 5, 10 and 20.\<close>

lemma randomInt_examples:
  "fst (randomInt 10 5 (constant_rng (1 / 2))) = 8"
  "fst (randomInt 10 20 (constant_rng (1 / 2))) = 15"
  "fst (randomInt 10 10 (constant_rng (1 - 1 / 2 ^ 52))) = 11"
proof -
  show "fst (randomInt 10 5 (constant_rng (1 / 2))) = 8"
    by (simp add: randomInt_unfold constant_rng_def)
  have "double (of_int 11 / 2 ^ 1) = of_int 11 / 2 ^ 1" "double (of_int 31 / 2 ^ 1) = of_int 31 / 2 ^ 1"
    by (rule double_fraction, simp)+
  then have h: "double (11 / 2) = 11 / 2" "double (31 / 2) = 31 / 2" by simp_all
  show "fst (randomInt 10 20 (constant_rng (1 / 2))) = 15"
    by (simp add: randomInt_unfold constant_rng_def h)
  define c :: real where "c = 1 - 1 / 2 ^ 52"
  have e: "of_int (2 ^ 52 - 1) / 2 ^ 52 = c" by (simp add: c_def field_simps)
  have "double (of_int (2 ^ 52 - 1) / 2 ^ 52) = of_int (2 ^ 52 - 1) / 2 ^ 52"
    by (rule double_fraction) simp
  then have c1: "double c = c" unfolding e .
  have "double (11 - 1 / 2 ^ 52) = of_int (11 * 2 ^ 49) * pow2 (3 - 52)"
    by (rule double_near) (simp_all add: pow2_numeral pow2_neg_numeral)
  then have "double (11 - 1 / 2 ^ 52) = 11" by (simp add: pow2_neg_numeral)
  moreover have "c + 10 = 11 - 1 / 2 ^ 52" by (simp add: c_def)
  ultimately have c2: "double (c + 10) = 11" by (simp only:)
  have "fst (randomInt 10 10 (constant_rng c)) = \<lfloor>double (double (c * double (double 11 - 10)) + 10)\<rfloor>"
    by (simp add: randomInt_unfold constant_rng_def)
  also have "\<dots> = 11" by (simp add: c1 c2)
  finally show "fst (randomInt 10 10 (constant_rng (1 - 1 / 2 ^ 52))) = 11"
    unfolding c_def .
qed

lemma die_examples:
  "length (fst (die (snakeOfSize 5) (constant_rng (1 / 2)))) = 8"
  "length (fst (die (snakeOfSize 20) (constant_rng (1 / 2)))) = 15"
  "length (fst (die (snakeOfSize 10) (constant_rng (1 - 1 / 2 ^ 52)))) = 11"
proof -
  have m: "min (50 :: real) 5 = 5" "min (50 :: real) 20 = 20" "min (50 :: real) 10 = 10"
    by simp_all
  show "length (fst (die (snakeOfSize 5) (constant_rng (1 / 2)))) = 8"
    "length (fst (die (snakeOfSize 20) (constant_rng (1 / 2)))) = 15"
    "length (fst (die (snakeOfSize 10) (constant_rng (1 - 1 / 2 ^ 52)))) = 11"
    unfolding die_count size'_new_Snake DEATH_FOOD_MIN_COUNT_def DEATH_FOOD_MAX_COUNT_def m
      randomInt_examples
    by simp_all
qed

text \<open>
  Claim C6, as stated: the number of items returned by \<^verbatim>\<open>die()\<close> lies between
  \<open>MIN_COUNT\<close> and \<open>min MAX_COUNT S\<close>, also when \<open>S < MIN_COUNT\<close>. For a snake of
  size 5 and the random number 1/2 the call \<^verbatim>\<open>Utils.randomInt(10, 5)\<close> gives
  \<open>\<lfloor>1/2 * (5 + 1 - 10) + 10\<rfloor> = 8\<close> items, which is neither at least 10 nor at most 5.
  For a snake of size 10 and the random number \<open>1 - 2\<^sup>-\<^sup>5\<^sup>2\<close> the sum
  \<open>(1 - 2\<^sup>-\<^sup>5\<^sup>2) + 10\<close> is rounded to the double 11, and \<^verbatim>\<open>die()\<close> returns 11 items, one more
  than \<open>min MAX_COUNT S = 10\<close>.
\<close>

theorem die_count_counterexample:
  "size' (snakeOfSize 5) = 5 \<and>
   length (fst (die (snakeOfSize 5) (constant_rng (1 / 2)))) = 8 \<and>
   \<not> (DEATH_FOOD_MIN_COUNT \<le> real (length (fst (die (snakeOfSize 5) (constant_rng (1 / 2))))) \<and>
       real (length (fst (die (snakeOfSize 5) (constant_rng (1 / 2)))))
         \<le> min DEATH_FOOD_MAX_COUNT (size' (snakeOfSize 5))) \<and>
   rng_ok (constant_rng (1 - 1 / 2 ^ 52)) \<and>
   size' (snakeOfSize 10) = 10 \<and>
   length (fst (die (snakeOfSize 10) (constant_rng (1 - 1 / 2 ^ 52)))) = 11 \<and>
   \<not> (DEATH_FOOD_MIN_COUNT
         \<le> real (length (fst (die (snakeOfSize 10) (constant_rng (1 - 1 / 2 ^ 52))))) \<and>
       real (length (fst (die (snakeOfSize 10) (constant_rng (1 - 1 / 2 ^ 52)))))
         \<le> min DEATH_FOOD_MAX_COUNT (size' (snakeOfSize 10)))"
proof -
  have g: "rng_ok (constant_rng (1 - 1 / 2 ^ 52))"
    by (rule rng_ok_constant) simp_all
  show ?thesis
    unfolding die_examples size'_new_Snake
    using g by (simp add: DEATH_FOOD_MIN_COUNT_def DEATH_FOOD_MAX_COUNT_def)
qed

text \<open>
  Claim C6, amended. \<^verbatim>\<open>die()\<close> always leaves the snake flagged destroyed and returns
  \<^verbatim>\<open>DeathFood\<close> items. For a snake of size \<open>S \<ge> MIN_COUNT\<close> their number \<open>k\<close>
  satisfies \<open>MIN_COUNT \<le> k \<le> \<lfloor>double (min MAX_COUNT S + 1)\<rfloor>\<close>, the whole part of the
  rounded sum \<^verbatim>\<open>max + 1\<close>, and so \<open>k \<le> \<lceil>min MAX_COUNT S\<rceil> + 1\<close>; for a whole number
  \<open>S\<close> that is \<open>k \<le> min MAX_COUNT S + 1\<close>, and the last value is reached by rounding.
  For a double \<open>S < MIN_COUNT\<close> it satisfies \<open>S < k \<le> MIN_COUNT\<close> instead.
\<close>

theorem die_count_bounds:
  assumes "rng_ok g"
  shows "markedForDeletion (fst (snd (die e g))) \<and>
    (\<forall>f \<in> set (fst (die e g)). type f = DeathFoodT) \<and>
    (DEATH_FOOD_MIN_COUNT \<le> size' e \<longrightarrow>
       DEATH_FOOD_MIN_COUNT \<le> real (length (fst (die e g))) \<and>
       real (length (fst (die e g)))
         \<le> of_int \<lfloor>double (min DEATH_FOOD_MAX_COUNT (size' e) + 1)\<rfloor> \<and>
       real (length (fst (die e g)))
         \<le> of_int \<lceil>min DEATH_FOOD_MAX_COUNT (size' e)\<rceil> + 1) \<and>
    (size' e < DEATH_FOOD_MIN_COUNT \<and> double (size' e) = size' e \<longrightarrow>
       size' e < real (length (fst (die e g))) \<and>
       real (length (fst (die e g))) \<le> DEATH_FOOD_MIN_COUNT)"
proof -
  have r: "0 \<le> g 0" "g 0 < 1" using assms by (simp_all add: rng_ok_def)
  have 1: "markedForDeletion (fst (snd (die e g)))"
    by (simp add: die_snake destroy_def)
  have 2: "\<forall>f \<in> set (fst (die e g)). type f = DeathFoodT"
    by (simp add: die_DeathFood)
  have 3: "DEATH_FOOD_MIN_COUNT \<le> real (length (fst (die e g))) \<and>
       real (length (fst (die e g)))
         \<le> of_int \<lfloor>double (min DEATH_FOOD_MAX_COUNT (size' e) + 1)\<rfloor> \<and>
       real (length (fst (die e g)))
         \<le> of_int \<lceil>min DEATH_FOOD_MAX_COUNT (size' e)\<rceil> + 1"
    if "DEATH_FOOD_MIN_COUNT \<le> size' e"
    using die_count_large [of g e, OF r that] by blast
  have 4: "size' e < real (length (fst (die e g))) \<and>
       real (length (fst (die e g))) \<le> DEATH_FOOD_MIN_COUNT"
    if "size' e < DEATH_FOOD_MIN_COUNT \<and> double (size' e) = size' e"
    using die_count_small [of g e, OF r] that by blast
  from 1 2 3 4 show ?thesis by blast
qed

theorem die_count_bounds_witness:
  "rng_ok (constant_rng (1 / 2)) \<and>
   DEATH_FOOD_MIN_COUNT \<le> size' (snakeOfSize 20) \<and>
   length (fst (die (snakeOfSize 20) (constant_rng (1 / 2)))) = 15 \<and>
   markedForDeletion (fst (snd (die (snakeOfSize 20) (constant_rng (1 / 2))))) \<and>
   real (length (fst (die (snakeOfSize 20) (constant_rng (1 / 2)))))
     \<le> of_int \<lceil>min DEATH_FOOD_MAX_COUNT (size' (snakeOfSize 20))\<rceil> + 1 \<and>
   size' (snakeOfSize 5) < DEATH_FOOD_MIN_COUNT \<and>
   double (size' (snakeOfSize 5)) = size' (snakeOfSize 5) \<and>
   length (fst (die (snakeOfSize 5) (constant_rng (1 / 2)))) = 8 \<and>
   real (length (fst (die (snakeOfSize 5) (constant_rng (1 / 2))))) \<le> DEATH_FOOD_MIN_COUNT"
proof -
  have g: "rng_ok (constant_rng (1 / 2))"
    by (simp add: rng_ok_constant)
  have s: "DEATH_FOOD_MIN_COUNT \<le> size' (snakeOfSize 20)"
    and t: "size' (snakeOfSize 5) < DEATH_FOOD_MIN_COUNT"
    and d: "double (size' (snakeOfSize 5)) = size' (snakeOfSize 5)"
    by (simp_all add: DEATH_FOOD_MIN_COUNT_def)
  from die_count_bounds [OF g, of "snakeOfSize 20"] die_count_bounds [OF g, of "snakeOfSize 5"]
    g s t d die_examples(1,2)
  show ?thesis by blast
qed

subsection \<open>Segment count\<close>

lemma length_initBody:
  "length (initBody ang spacing r segmentCount i prevSegment) = nat (segmentCount - i)"
proof (induction "nat (segmentCount - i)" arbitrary: i prevSegment)
  case 0
  then show ?case by (subst initBody.simps) simp
next
  case (Suc n)
  then have lt: "i < segmentCount" and n: "n = nat (segmentCount - (i + 1))" by linarith+
  show ?case
    using Suc.hyps(1) [OF n] lt by (subst initBody.simps) (simp add: Let_def nat_diff_distrib)
qed

lemma length_segments_initSegments:
  "int (length (segments (initSegments e))) = max 5 \<lfloor>size' e / 2\<rfloor>"
  by (simp add: segments_def initSegments_def Let_def length_initBody)

lemma length_followBody [simp]: "length (followBody d h k body) = length body"
  by (induction k arbitrary: body) simp_all

lemma length_growBody:
  "int (Suc (length (growBody h spacing r ideal body))) = max (int (Suc (length body))) ideal"
proof (induction "nat (ideal - int (length body))" arbitrary: body)
  case 0
  then show ?case by (subst growBody.simps) (simp add: Let_def)
next
  case (Suc n)
  show ?case
  proof (cases "int (Suc (length body)) < ideal")
    case True
    have n: "n = nat (ideal - int (length (body @ [seg])))" for seg :: circle
      using Suc.hyps(2) by simp
    show ?thesis
      using Suc.hyps(1) [OF n] True by (subst growBody.simps) (simp add: Let_def)
  next
    case False
    then show ?thesis by (subst growBody.simps) (simp add: Let_def)
  qed
qed

lemma length_shrinkBody:
  "int (Suc (length (shrinkBody sz body))) = min (int (Suc (length body))) (max 5 \<lfloor>sz / 2\<rfloor>)"
proof (induction "length body" arbitrary: body)
  case 0
  then show ?case by (subst shrinkBody.simps) simp
next
  case (Suc n)
  define c where "c = max 5 \<lfloor>sz / 2\<rfloor>"
  have c5: "5 \<le> c" by (simp add: c_def)
  have eq: "shrinkBody sz body =
      (if int (Suc (length body)) > c then shrinkBody sz (butlast body) else body)"
    unfolding c_def by (rule shrinkBody.simps)
  show ?case
  proof (cases "int (Suc (length body)) > c")
    case True
    have n: "n = length (butlast body)" using Suc.hyps(2) by simp
    have "int (Suc (length (shrinkBody sz (butlast body)))) = min (int (Suc (length (butlast body)))) c"
      using Suc.hyps(1) [OF n] by (simp add: c_def)
    also have "\<dots> = min (int (Suc (length body))) c"
      using True Suc.hyps(2) by simp
    finally have "int (Suc (length (shrinkBody sz body))) = min (int (Suc (length body))) c"
      using True by (simp add: eq)
    then show ?thesis unfolding c_def .
  next
    case False
    then have "shrinkBody sz body = body" by (simp add: eq)
    with False have "int (Suc (length (shrinkBody sz body))) = min (int (Suc (length body))) c"
      by simp
    then show ?thesis unfolding c_def .
  qed
qed

lemma length_segments_updateSegments:
  "int (length (segments (updateSegments e))) = max 5 \<lfloor>size' e / 2\<rfloor>"
  using length_shrinkBody [of "size' e"
      "growBody (headSegment e) (segmentSpacing e) (radius e) (max 5 \<lfloor>size' e / 2\<rfloor>) (bodySegments e)"]
    length_growBody [of "headSegment e" "segmentSpacing e" "radius e" "max 5 \<lfloor>size' e / 2\<rfloor>" "bodySegments e"]
  by (simp add: updateSegments_def Let_def segments_def)

lemma size'_updateSegments [simp]: "size' (updateSegments e) = size' e"
  by (simp add: updateSegments_def Let_def)

lemma Snake_update_no_drop:
  assumes "fst (Snake_update e g) = None"
  shows "int (length (segments (fst (snd (Snake_update e g))))) =
         max 5 \<lfloor>size' (fst (snd (Snake_update e g))) / 2\<rfloor>"
proof -
  have u: "int (length (segments ((updateSegments e2)\<lparr>score := a\<rparr>\<lparr>maxScore := b\<rparr>))) =
           max 5 \<lfloor>size' ((updateSegments e2)\<lparr>score := a\<rparr>\<lparr>maxScore := b\<rparr>) / 2\<rfloor>"
    for e2 a b
    using length_segments_updateSegments [of e2] by (simp add: segments_def)
  show ?thesis
    using assms
    by (auto simp add: Snake_update_def Let_def case_prod_beta u split: if_splits)
qed

lemma Snake_update_drop:
  assumes "boosting e" "size' e > MIN_SEGMENTS_FOR_BOOST" "g 0 < 1 / 10"
  shows "fst (Snake_update e g) \<noteq> None"
    and "size' (fst (snd (Snake_update e g))) = size' e - BOOST_CONSUMPTION"
    and "length (segments (fst (snd (Snake_update e g)))) = length (segments e)"
  using assms
  by (simp_all add: Snake_update_def Let_def case_prod_beta Math_random_def segments_def)

text \<open>
  Claim C4: after every update the number of segments is \<open>max 5 \<lfloor>size / 2\<rfloor>\<close>. It
  holds after an update that drops no food (lemma \<open>Snake_update_no_drop\<close>). On a tick
  on which the boosting snake drops food, \<^verbatim>\<open>Snake.update\<close> returns before
  \<^verbatim>\<open>updateSegments()\<close>: a boosting snake of size 12 with its 6 segments, and 0.05 as
  the next random number, has size 11.95 and still 6 segments after the update, where
  \<open>max 5 \<lfloor>11.95 / 2\<rfloor> = 5\<close>.
\<close>

theorem segment_count_after_food_drop:
  "int (length (segments
     ((fst (new_Snake 100 100 12 PLAYER_COLOR PLAYER_HEAD_COLOR (constant_rng (1 / 20))))
        \<lparr>boosting := True\<rparr>))) = max 5 \<lfloor>12 / 2 :: real\<rfloor> \<and>
   size' (fst (snd (Snake_update
     ((fst (new_Snake 100 100 12 PLAYER_COLOR PLAYER_HEAD_COLOR (constant_rng (1 / 20))))
        \<lparr>boosting := True\<rparr>) (constant_rng (1 / 20))))) = 239 / 20 \<and>
   length (segments (fst (snd (Snake_update
     ((fst (new_Snake 100 100 12 PLAYER_COLOR PLAYER_HEAD_COLOR (constant_rng (1 / 20))))
        \<lparr>boosting := True\<rparr>) (constant_rng (1 / 20)))))) = 6 \<and>
   max 5 \<lfloor>size' (fst (snd (Snake_update
     ((fst (new_Snake 100 100 12 PLAYER_COLOR PLAYER_HEAD_COLOR (constant_rng (1 / 20))))
        \<lparr>boosting := True\<rparr>) (constant_rng (1 / 20))))) / 2\<rfloor> = 5"
proof -
  let ?e = "(fst (new_Snake 100 100 12 PLAYER_COLOR PLAYER_HEAD_COLOR (constant_rng (1 / 20))))
        \<lparr>boosting := True\<rparr>"
  have l: "int (length (segments ?e)) = 6"
    using length_segments_initSegments
    by (simp add: new_Snake_def case_prod_beta segments_def initSegments_def Let_def length_initBody)
  have b: "boosting ?e" by simp
  have s: "size' ?e > MIN_SEGMENTS_FOR_BOOST" by (simp add: MIN_SEGMENTS_FOR_BOOST_def)
  have g: "constant_rng (1 / 20) 0 < 1 / 10" by (simp add: constant_rng_def)
  note d = Snake_update_drop [of ?e "constant_rng (1 / 20)", OF b s g]
  have 1: "size' (fst (snd (Snake_update ?e (constant_rng (1 / 20))))) = 239 / 20"
    using d(2) by (simp add: BOOST_CONSUMPTION_def)
  have 2: "length (segments (fst (snd (Snake_update ?e (constant_rng (1 / 20)))))) = 6"
    using d(3) l by simp
  have 3: "max 5 \<lfloor>size' (fst (snd (Snake_update ?e (constant_rng (1 / 20))))) / 2\<rfloor> = 5"
    unfolding 1 by simp
  from l 1 2 3 show ?thesis by simp
qed

subsection \<open>Boost depletion\<close>

lemma Snake_update_no_boost:
  assumes "\<not> (boosting e \<and> size' e > MIN_SEGMENTS_FOR_BOOST)"
  shows "size' (fst (snd (Snake_update e g))) = size' e"
    and "boosting (fst (snd (Snake_update e g))) = boosting e"
    and "fst (Snake_update e g) = None"
  using assms by (auto simp add: Snake_update_def Let_def updateSegments_def)

lemma boosting_Snake_update: "boosting (fst (snd (Snake_update e g))) = boosting e"
  by (simp add: Snake_update_def Let_def case_prod_beta updateSegments_def)

lemma Player_update_boosting: "boosting (fst (snd (Player_update ev e g))) = boosting e"
  by (simp add: Player_update_def Let_def boosting_Snake_update)

lemma Player_update_size:
  assumes "size' e \<le> MIN_SEGMENTS_FOR_BOOST"
  shows "size' (fst (snd (Player_update ev e g))) = size' e"
  using assms by (simp add: Player_update_def Let_def Snake_update_no_boost)

lemma chooseExploreTarget_frame [simp]:
  "size' (fst (chooseExploreTarget e nf g)) = size' e"
  by (simp add: chooseExploreTarget_def Let_def case_prod_beta)

lemma makeDecision_size [simp]: "size' (fst (makeDecision e q g)) = size' e"
  by (simp add: makeDecision_def Let_def case_prod_beta)

lemma avoidObstacles_frame [simp]:
  "size' (avoidObstacles e others) = size' e"
  "boosting (avoidObstacles e others) = boosting e"
  by (simp_all add: avoidObstacles_def Let_def split: option.splits)

lemma updateTargetAngle_size [simp]: "size' (fst (updateTargetAngle e others g)) = size' e"
  by (simp add: updateTargetAngle_def Let_def case_prod_beta split: npcState.splits option.splits)

lemma handleBoosting_size [simp]: "size' (fst (handleBoosting e g)) = size' e"
  by (simp add: handleBoosting_def Let_def case_prod_beta)

lemma handleBoosting_clears:
  "size' e \<le> MIN_SEGMENTS_FOR_BOOST \<Longrightarrow> \<not> boosting (fst (handleBoosting e g))"
  by (simp add: handleBoosting_def Let_def)

lemma NPC_update_clears_boost:
  assumes "size' e \<le> MIN_SEGMENTS_FOR_BOOST"
  shows "\<not> boosting (fst (snd (NPC_update e others q g))) \<and>
         size' (fst (snd (NPC_update e others q g))) = size' e"
proof -
  define e2 where "e2 = fst (if decisionCounter e + 1 \<ge> decisionRate e then
                 (case makeDecision (e\<lparr>decisionCounter := decisionCounter e + 1\<rparr>) q g of
                    (d, g') \<Rightarrow> (d\<lparr>decisionCounter := 0\<rparr>, g'))
               else (e\<lparr>decisionCounter := decisionCounter e + 1\<rparr>, g))"
  define g1 where "g1 = snd (if decisionCounter e + 1 \<ge> decisionRate e then
                 (case makeDecision (e\<lparr>decisionCounter := decisionCounter e + 1\<rparr>) q g of
                    (d, g') \<Rightarrow> (d\<lparr>decisionCounter := 0\<rparr>, g'))
               else (e\<lparr>decisionCounter := decisionCounter e + 1\<rparr>, g))"
  define e3 where "e3 = fst (updateTargetAngle e2 others g1)"
  define g2 where "g2 = snd (updateTargetAngle e2 others g1)"
  define e4 where "e4 = e3\<lparr>angle := angle e3 + angleDifference (angle e3) (targetAngle e3) * turnSpeed e3\<rparr>"
  define e5 where "e5 = fst (handleBoosting e4 g2)"
  define g3 where "g3 = snd (handleBoosting e4 g2)"
  define e6 where "e6 = (if targetTimeout e5 > 0 then
                                    (let e' = e5\<lparr>targetTimeout := targetTimeout e5 - 1\<rparr>
                                     in if targetTimeout e' = 0 then e'\<lparr>target := None\<rparr>
                                        else e')
                                  else e5)"
  have u: "NPC_update e others q g = Snake_update e6 g3"
    by (simp add: NPC_update_def Let_def case_prod_beta e2_def g1_def e3_def g2_def e4_def
        e5_def g3_def e6_def)
  have s2: "size' e2 = size' e" by (simp add: e2_def case_prod_beta)
  have s4: "size' e4 = size' e" by (simp add: e4_def e3_def s2)
  have s5: "size' e5 = size' e" by (simp add: e5_def s4)
  have b5: "\<not> boosting e5" using assms s4 by (simp add: e5_def handleBoosting_clears)
  have s6: "size' e6 = size' e" and b6: "\<not> boosting e6"
    using s5 b5 by (simp_all add: e6_def Let_def)
  show ?thesis
    unfolding u using Snake_update_no_boost(1,2) [of e6 g3] s6 b6 by simp
qed

lemma size'_new_Player [simp]: "size' (fst (new_Player px py sz ev g)) = sz"
  by (simp add: new_Player_def case_prod_beta)

text \<open>
  Claim C5: the next update of a boosting snake whose size is at or below
  \<open>MIN_SEGMENTS_FOR_BOOST\<close> clears the flag and does not reduce the size. The update of
  an NPC does both (lemma \<open>NPC_update_clears_boost\<close>, through \<^verbatim>\<open>handleBoosting\<close>). The
  update of the player never writes the flag (lemma \<open>Player_update_boosting\<close>): a
  boosting player of size 5 keeps its size and is still boosting after
  \<^verbatim>\<open>Player.update\<close>.
\<close>

theorem player_boost_not_cleared:
  "size' ((fst (new_Player 100 100 5 \<lparr>innerWidth = 800, innerHeight = 600, now = 0\<rparr>
                  (constant_rng (1 / 2))))\<lparr>boosting := True\<rparr>) \<le> MIN_SEGMENTS_FOR_BOOST \<and>
   boosting (fst (snd (Player_update \<lparr>innerWidth = 800, innerHeight = 600, now = 0\<rparr>
     ((fst (new_Player 100 100 5 \<lparr>innerWidth = 800, innerHeight = 600, now = 0\<rparr>
              (constant_rng (1 / 2))))\<lparr>boosting := True\<rparr>)
     (constant_rng (1 / 2))))) \<and>
   size' (fst (snd (Player_update \<lparr>innerWidth = 800, innerHeight = 600, now = 0\<rparr>
     ((fst (new_Player 100 100 5 \<lparr>innerWidth = 800, innerHeight = 600, now = 0\<rparr>
              (constant_rng (1 / 2))))\<lparr>boosting := True\<rparr>)
     (constant_rng (1 / 2))))) = 5"
  by (simp add: Player_update_boosting Player_update_size MIN_SEGMENTS_FOR_BOOST_def)
section \<open>Properties of the collision pass\<close>

subsection \<open>Circles and new snakes\<close>

lemma circleCollision_iff:
  "circleCollision a b \<longleftrightarrow>
     0 < radius a + radius b \<and>
     (x b - x a) * (x b - x a) + (y b - y a) * (y b - y a) < (radius a + radius b) * (radius a + radius b)"
proof -
  define v where "v = (x b - x a) * (x b - x a) + (y b - y a) * (y b - y a)"
  define r where "r = radius a + radius b"
  have v0: "0 \<le> v" by (simp add: v_def)
  have "sqrt v < r \<longleftrightarrow> 0 < r \<and> v < r * r"
  proof
    assume l: "sqrt v < r"
    have "0 \<le> sqrt v" using v0 by simp
    with l have r0: "0 < r" by linarith
    have "sqrt v * sqrt v < r * r"
      using l \<open>0 \<le> sqrt v\<close> by (intro mult_strict_mono') simp_all
    then show "0 < r \<and> v < r * r" using v0 r0 by simp
  next
    assume a: "0 < r \<and> v < r * r"
    then have "sqrt v < sqrt (r * r)" by (subst real_sqrt_less_iff) simp
    moreover have "sqrt (r * r) = r" using a by simp
    ultimately show "sqrt v < r" by simp
  qed
  then show ?thesis
    by (simp add: circleCollision_def distance_def Let_def v_def r_def)
qed

lemma initBody_unfold:
  "i < segmentCount \<Longrightarrow> initBody ang spacing r segmentCount i prev =
     \<lparr>x = x prev + cos ang * spacing, y = y prev + sin ang * spacing,
      radius = r * (1 - of_int i / (of_int segmentCount * 2))\<rparr>
     # initBody ang spacing r segmentCount (i + 1)
         \<lparr>x = x prev + cos ang * spacing, y = y prev + sin ang * spacing,
          radius = r * (1 - of_int i / (of_int segmentCount * 2))\<rparr>"
  "\<not> i < segmentCount \<Longrightarrow> initBody ang spacing r segmentCount i prev = []"
  by (subst initBody.simps, simp add: Let_def)+

lemma segments_new_Snake_10:
  "headSegment (fst (new_Snake px py 10 col hcol g)) = \<lparr>x = px, y = py, radius = 10\<rparr>"
  "bodySegments (fst (new_Snake px py 10 col hcol g)) =
     [\<lparr>x = px - 5, y = py, radius = 9\<rparr>, \<lparr>x = px - 10, y = py, radius = 8\<rparr>,
      \<lparr>x = px - 15, y = py, radius = 7\<rparr>, \<lparr>x = px - 20, y = py, radius = 6\<rparr>]"
  by (simp_all add: new_Snake_def new_Entity_def case_prod_beta initSegments_def Let_def
      initBody_unfold SEGMENT_RADIUS_def SEGMENT_SPACING_def)

lemma new_NPC_fields:
  "headSegment (fst (new_NPC px py sz typ diff g)) = headSegment (fst (new_Snake px py sz (NPC_COLOR typ) (NPC_HEAD_COLOR typ) g))"
  "bodySegments (fst (new_NPC px py sz typ diff g)) = bodySegments (fst (new_Snake px py sz (NPC_COLOR typ) (NPC_HEAD_COLOR typ) g))"
  "type (fst (new_NPC px py sz typ diff g)) = NpcT"
  "size' (fst (new_NPC px py sz typ diff g)) = sz"
  "markedForDeletion (fst (new_NPC px py sz typ diff g)) = False"
  by (simp_all add: new_NPC_def new_Snake_def new_Entity_def initSegments_def case_prod_beta
      Let_def)

lemma new_Player_fields:
  "headSegment (fst (new_Player px py sz ev g)) = headSegment (fst (new_Snake px py sz PLAYER_COLOR PLAYER_HEAD_COLOR g))"
  "bodySegments (fst (new_Player px py sz ev g)) = bodySegments (fst (new_Snake px py sz PLAYER_COLOR PLAYER_HEAD_COLOR g))"
  "type (fst (new_Player px py sz ev g)) = PlayerT"
  "size' (fst (new_Player px py sz ev g)) = sz"
  "markedForDeletion (fst (new_Player px py sz ev g)) = False"
  by (simp_all add: new_Player_def new_Snake_def new_Entity_def initSegments_def case_prod_beta
      Let_def)


subsection \<open>What the pass keeps\<close>

lemma heap_die_at: "heap (fst (die_at r sn)) = (heap (fst sn))(r := destroy (heap (fst sn) r))"
  by (cases sn) (simp add: die_at_def case_prod_beta die_snake)

lemma heap_modify: "heap (modify r f s) = (heap s)(r := f (heap s r))"
  by (simp add: modify_def)

lemma heap_killNpc:
  "heap (fst (killNpc p r sn)) =
     (let h1 = (heap (fst sn))(r := destroy (heap (fst sn) r))
      in h1(p := (h1 p)\<lparr>killedNPCs := killedNPCs (h1 p) + 1\<rparr>))"
  by (simp add: killNpc_def case_prod_beta heap_modify heap_die_at Let_def)

lemma shape_simps [simp]:
  "shape (destroy e) = shape e"
  "shape (eatFood e fd) = shape e"
  "shape (e\<lparr>killedNPCs := k\<rparr>) = shape e"
  by (simp_all add: shape_def destroy_def eatFood_def)

lemma isCollidingWithSnake_shape:
  "shape a' = shape a \<Longrightarrow> shape b' = shape b \<Longrightarrow>
   isCollidingWithSnake c a' b' = isCollidingWithSnake c a b"
  by (simp add: isCollidingWithSnake_def shape_def)

lemma isHeadCollidingWithHead_shape:
  "shape a' = shape a \<Longrightarrow> shape b' = shape b \<Longrightarrow>
   isHeadCollidingWithHead c a' b' = isHeadCollidingWithHead c a b"
  by (simp add: isHeadCollidingWithHead_def shape_def)

lemma sameShapes_refl [simp]: "sameShapes s s"
  by (simp add: sameShapes_def)

lemma sameShapes_trans: "sameShapes a b \<Longrightarrow> sameShapes b c \<Longrightarrow> sameShapes a c"
  by (simp add: sameShapes_def)

lemma sameShapes_die_at: "sameShapes (fst sn) (fst (die_at r sn))"
  by (simp add: sameShapes_def heap_die_at)

lemma sameShapes_killNpc: "sameShapes (fst sn) (fst (killNpc p r sn))"
  by (simp add: sameShapes_def heap_killNpc Let_def)

lemma sameShapes_eatStep: "sameShapes s (eatStep p s r)"
  by (simp add: sameShapes_def eatStep_def Let_def heap_modify)

lemma sameShapes_eatLoop: "sameShapes s (foldl (eatStep p) s rs)"
proof (induction rs arbitrary: s)
  case Nil
  then show ?case by simp
next
  case (Cons r rs)
  show ?case
    using sameShapes_eatStep [of s p r] Cons.IH [of "eatStep p s r"]
    by (auto intro: sameShapes_trans)
qed

lemma sameShapes_npcFood: "sameShapes s (foldl (\<lambda>s0 npc. foldl (eatStep npc) s0 es) s npcs)"
proof (induction npcs arbitrary: s)
  case Nil
  then show ?case by simp
next
  case (Cons npc npcs)
  show ?case
    using sameShapes_eatLoop [of s npc es] Cons.IH [of "foldl (eatStep npc) s es"]
    by (auto intro: sameShapes_trans)
qed

text \<open>Eating marks food only.\<close>

lemma marked_eatStep:
  "\<not> isFoodType (heap s a) \<Longrightarrow>
   markedForDeletion (heap (eatStep p s r) a) = markedForDeletion (heap s a) \<and>
   \<not> isFoodType (heap (eatStep p s r) a)"
  by (auto simp add: eatStep_def Let_def heap_modify destroy_def eatFood_def isFoodType_def)

lemma marked_eatLoop:
  "\<not> isFoodType (heap s a) \<Longrightarrow>
   markedForDeletion (heap (foldl (eatStep p) s rs) a) = markedForDeletion (heap s a) \<and>
   \<not> isFoodType (heap (foldl (eatStep p) s rs) a)"
proof (induction rs arbitrary: s)
  case Nil
  then show ?case by simp
next
  case (Cons r rs)
  show ?case
    using marked_eatStep [OF Cons.prems, of p r] Cons.IH [of "eatStep p s r"] by simp
qed

lemma marked_npcFood:
  "\<not> isFoodType (heap s a) \<Longrightarrow>
   markedForDeletion (heap (foldl (\<lambda>s0 npc. foldl (eatStep npc) s0 es) s npcs) a)
     = markedForDeletion (heap s a)"
proof (induction npcs arbitrary: s)
  case Nil
  then show ?case by simp
next
  case (Cons npc npcs)
  show ?case
    using marked_eatLoop [OF Cons.prems, of npc es] Cons.IH [of "foldl (eatStep npc) s es"]
    by simp
qed

text \<open>A mark is never taken back during the pass.\<close>

lemma stays_marked_eatStep:
  "markedForDeletion (heap s a) \<Longrightarrow> markedForDeletion (heap (eatStep p s r) a)"
  by (auto simp add: eatStep_def Let_def heap_modify destroy_def eatFood_def)

lemma stays_marked_eatLoop:
  "markedForDeletion (heap s a) \<Longrightarrow> markedForDeletion (heap (foldl (eatStep p) s rs) a)"
  by (induction rs arbitrary: s) (simp_all add: stays_marked_eatStep)

lemma stays_marked_npcFood:
  "markedForDeletion (heap s a) \<Longrightarrow>
   markedForDeletion (heap (foldl (\<lambda>s0 npc. foldl (eatStep npc) s0 es) s npcs) a)"
  by (induction npcs arbitrary: s) (simp_all add: stays_marked_eatLoop)

lemma stays_marked_die_at:
  "markedForDeletion (heap (fst sn) a) \<Longrightarrow> markedForDeletion (heap (fst (die_at r sn)) a)"
  by (simp add: heap_die_at destroy_def)

lemma stays_marked_npcInner:
  "markedForDeletion (heap (fst sn) a) \<Longrightarrow> markedForDeletion (heap (fst (npcInner r1 rs sn)) a)"
  by (induction rs arbitrary: sn) (simp_all add: Let_def stays_marked_die_at)

lemma stays_marked_npcOuter:
  "markedForDeletion (heap (fst sn) a) \<Longrightarrow> markedForDeletion (heap (fst (npcOuter rs sn)) a)"
  by (induction rs arbitrary: sn) (simp_all add: stays_marked_npcInner)

lemma stays_marked_checkNPCCollisions:
  "markedForDeletion (heap (fst sn) a) \<Longrightarrow>
   markedForDeletion (heap (fst (checkNPCCollisions es sn)) a)"
  by (simp add: checkNPCCollisions_def Let_def stays_marked_npcOuter stays_marked_npcFood)

subsection \<open>The player's head on a body\<close>

lemma strikes_killNpc:
  assumes "strikes p b (fst sn)" "r \<noteq> b"
  shows "strikes p b (fst (killNpc p r sn))"
proof -
  have pb: "p \<noteq> b" using assms(1) by (simp add: strikes_def)
  have b: "heap (fst (killNpc p r sn)) b = heap (fst sn) b"
    using pb assms(2) by (simp add: heap_killNpc Let_def)
  have "shape (heap (fst (killNpc p r sn)) p) = shape (heap (fst sn) p)"
    using sameShapes_killNpc [of sn p r] by (simp add: sameShapes_def)
  then have "isCollidingWithSnake False (heap (fst (killNpc p r sn)) p) (heap (fst sn) b) =
      isCollidingWithSnake False (heap (fst sn) p) (heap (fst sn) b)"
    by (rule isCollidingWithSnake_shape) (rule refl)
  then show ?thesis
    using assms(1) by (simp add: strikes_def b)
qed

lemma strikes_bodyStrikeOnPlayer:
  "strikes p b (fst sn) \<Longrightarrow> r \<noteq> b \<Longrightarrow> strikes p b (fst (bodyStrikeOnPlayer p r sn))"
  by (simp add: bodyStrikeOnPlayer_def strikes_killNpc)

lemma marked_die_at_self: "markedForDeletion (heap (fst (die_at r sn)) r)"
  by (simp add: heap_die_at destroy_def)

lemma if_tree:
  assumes "P a" "P d" "P e" "P f" "P g"
  shows "P (if c1 then a else if c2 then d else if c3 then (if c4 then e else f) else g)"
  using assms by simp

lemma playerSnakeLoop_Cons:
  "playerSnakeLoop p (r # rs) sn =
     (if (type (heap (fst sn) r) \<noteq> SnakeT \<and> type (heap (fst sn) r) \<noteq> NpcT) \<or> r = p \<or>
         markedForDeletion (heap (fst sn) r)
      then playerSnakeLoop p rs sn
      else if isCollidingWithSnake (p = r) (heap (fst sn) p) (heap (fst sn) r) then die_at p sn
      else if isHeadCollidingWithHead (p = r) (heap (fst (bodyStrikeOnPlayer p r sn)) p)
                (heap (fst (bodyStrikeOnPlayer p r sn)) r)
      then (if size' (heap (fst (bodyStrikeOnPlayer p r sn)) p)
                < size' (heap (fst (bodyStrikeOnPlayer p r sn)) r)
            then die_at p (bodyStrikeOnPlayer p r sn)
            else playerSnakeLoop p rs (killNpc p r (bodyStrikeOnPlayer p r sn)))
      else playerSnakeLoop p rs (bodyStrikeOnPlayer p r sn))"
  by (simp add: Let_def)

lemma playerSnakeLoop_strike:
  assumes "b \<in> set rs" "strikes p b (fst sn)"
  shows "markedForDeletion (heap (fst (playerSnakeLoop p rs sn)) p)"
  using assms
proof (induction rs arbitrary: sn)
  case Nil
  then show ?case by simp
next
  case (Cons r rs)
  show ?case
  proof (cases "r = b")
    case True
    have "p \<noteq> b" and "\<not> markedForDeletion (heap (fst sn) b)"
      and "type (heap (fst sn) b) = NpcT \<or> type (heap (fst sn) b) = SnakeT"
      and "isCollidingWithSnake False (heap (fst sn) p) (heap (fst sn) b)"
      using Cons.prems(2) by (simp_all add: strikes_def)
    then have "playerSnakeLoop p (r # rs) sn = die_at p sn"
      unfolding playerSnakeLoop_Cons True by auto
    then show ?thesis
      by (simp only: marked_die_at_self)
  next
    case False
    then have b: "b \<in> set rs" using Cons.prems(1) by simp
    note s1 = strikes_bodyStrikeOnPlayer [OF Cons.prems(2) False]
    note s2 = strikes_killNpc [OF s1 False]
    note ih = Cons.IH [OF b Cons.prems(2)] Cons.IH [OF b s1] Cons.IH [OF b s2]
    show ?thesis
      unfolding playerSnakeLoop_Cons
      by (rule if_tree [where P = "\<lambda>sn. markedForDeletion (heap (fst sn) p)"])
        (rule ih marked_die_at_self)+
  qed
qed

lemma strikes_after_food:
  assumes "strikes a b s" "sameShapes s s'"
    and "markedForDeletion (heap s' b) = markedForDeletion (heap s b)"
  shows "strikes a b s'"
proof -
  have sa: "shape (heap s' a) = shape (heap s a)" and sb: "shape (heap s' b) = shape (heap s b)"
    using assms(2) by (simp_all add: sameShapes_def)
  have c: "isCollidingWithSnake False (heap s' a) (heap s' b) =
      isCollidingWithSnake False (heap s a) (heap s b)"
    using sa sb by (rule isCollidingWithSnake_shape)
  have t: "type (heap s' b) = type (heap s b)"
    using sb by (simp add: shape_def)
  show ?thesis using assms(1,3) by (simp add: strikes_def c t)
qed

lemma player_strike_dies:
  assumes "b \<in> set es" "strikes p b s"
  shows "markedForDeletion (heap (fst (checkCollisions es p s)) p)"
proof -
  define s1 where "s1 = checkPlayerFoodCollisions p es s"
  have nf: "\<not> isFoodType (heap s b)"
    using assms(2) by (auto simp add: strikes_def isFoodType_def)
  have m: "markedForDeletion (heap s1 b) = markedForDeletion (heap s b)"
    using marked_eatLoop [OF nf, of p es] by (simp add: s1_def checkPlayerFoodCollisions_def)
  have sh: "sameShapes s s1"
    by (simp add: s1_def checkPlayerFoodCollisions_def sameShapes_eatLoop)
  have st: "strikes p b (fst (s1, [] :: entity list))"
    using strikes_after_food [OF assms(2) sh m] by simp
  have "markedForDeletion (heap (fst (checkPlayerSnakeCollisions p es (s1, []))) p)"
    using playerSnakeLoop_strike [OF assms(1) st]
    by (simp add: checkPlayerSnakeCollisions_def)
  then show ?thesis
    unfolding checkCollisions_def s1_def [symmetric]
    by (rule stays_marked_checkNPCCollisions)
qed

subsection \<open>Two snakes of the array \<open>npcs\<close>\<close>

lemma liveSnakes_mem:
  "r \<in> set (liveSnakes es s) \<Longrightarrow>
   (type (heap s r) = NpcT \<or> type (heap s r) = SnakeT) \<and> \<not> markedForDeletion (heap s r)"
  by (simp add: liveSnakes_def)

lemma npc_pair_strike:
  assumes l: "liveSnakes es (fst sn) = [a, b] \<or> liveSnakes es (fst sn) = [b, a]"
    and ab: "a \<noteq> b"
    and hit: "isCollidingWithSnake False (heap (fst sn) a) (heap (fst sn) b)"
    and nohit: "\<not> isCollidingWithSnake False (heap (fst sn) b) (heap (fst sn) a)"
  shows "markedForDeletion (heap (fst (checkNPCCollisions es sn)) a) \<and>
         \<not> markedForDeletion (heap (fst (checkNPCCollisions es sn)) b)"
proof -
  define npcs where "npcs = liveSnakes es (fst sn)"
  define s1 where "s1 = foldl (\<lambda>s0 npc. foldl (eatStep npc) s0 es) (fst sn) npcs"
  have mem: "a \<in> set (liveSnakes es (fst sn))" "b \<in> set (liveSnakes es (fst sn))"
    using l by auto
  have fa: "\<not> isFoodType (heap (fst sn) a)" and fb: "\<not> isFoodType (heap (fst sn) b)"
    and ma: "\<not> markedForDeletion (heap (fst sn) a)" and mb: "\<not> markedForDeletion (heap (fst sn) b)"
    using liveSnakes_mem [OF mem(1)] liveSnakes_mem [OF mem(2)]
    by (auto simp add: isFoodType_def)
  have ma1: "\<not> markedForDeletion (heap s1 a)" and mb1: "\<not> markedForDeletion (heap s1 b)"
    using marked_npcFood [OF fa, of es npcs] marked_npcFood [OF fb, of es npcs] ma mb
    by (simp_all add: s1_def)
  have sh: "sameShapes (fst sn) s1"
    by (simp add: s1_def sameShapes_npcFood)
  then have sa: "shape (heap s1 a) = shape (heap (fst sn) a)"
    and sb: "shape (heap s1 b) = shape (heap (fst sn) b)"
    by (simp_all add: sameShapes_def)
  have hit1: "isCollidingWithSnake False (heap s1 a) (heap s1 b)"
    using hit isCollidingWithSnake_shape [OF sa sb, of False] by simp
  have nohit1: "\<not> isCollidingWithSnake False (heap s1 b) (heap s1 a)"
    using nohit isCollidingWithSnake_shape [OF sb sa, of False] by simp
  have c: "checkNPCCollisions es sn = npcOuter npcs (s1, snd sn)"
    by (simp add: checkNPCCollisions_def Let_def npcs_def s1_def)
  have ba: "b \<noteq> a" using ab by simp
  from l have "npcOuter npcs (s1, snd sn) = die_at a (s1, snd sn)"
  proof
    assume "liveSnakes es (fst sn) = [a, b]"
    then have n: "npcs = [a, b]" by (simp add: npcs_def)
    show ?thesis
      using ma1 mb1 hit1 ab ba by (simp add: n Let_def heap_die_at)
  next
    assume "liveSnakes es (fst sn) = [b, a]"
    then have n: "npcs = [b, a]" by (simp add: npcs_def)
    show ?thesis
      using ma1 mb1 hit1 nohit1 ab ba by (simp add: n Let_def heap_die_at destroy_def)
  qed
  then show ?thesis
    using mb1 ab by (simp add: c heap_die_at destroy_def)
qed

text \<open>What every step of the pass keeps, the whole pass keeps.\<close>

lemma eatLoop_keeps:
  assumes e: "\<And>p s r. Q s \<Longrightarrow> Q (eatStep p s r)"
  shows "Q s \<Longrightarrow> Q (foldl (eatStep p) s rs)"
  by (induction rs arbitrary: s) (simp_all add: e)

lemma npcFood_keeps:
  assumes e: "\<And>p s r. Q s \<Longrightarrow> Q (eatStep p s r)"
  shows "Q s \<Longrightarrow> Q (foldl (\<lambda>s0 npc. foldl (eatStep npc) s0 es) s npcs)"
  by (induction npcs arbitrary: s) (simp_all add: eatLoop_keeps [of Q, OF e])

lemma playerSnakeLoop_keeps:
  assumes d: "\<And>r sn. Q (fst sn) \<Longrightarrow> Q (fst (die_at r sn))"
    and k: "\<And>p r sn. Q (fst sn) \<Longrightarrow> Q (fst (killNpc p r sn))"
  shows "Q (fst sn) \<Longrightarrow> Q (fst (playerSnakeLoop p rs sn))"
proof (induction rs arbitrary: sn)
  case Nil
  then show ?case by simp
next
  case (Cons r rs)
  have b: "Q (fst (bodyStrikeOnPlayer p r sn))"
    using Cons.prems by (simp add: bodyStrikeOnPlayer_def k)
  show ?case
    unfolding playerSnakeLoop_Cons
    by (rule if_tree [where P = "\<lambda>sn. Q (fst sn)"])
      (rule Cons.IH [OF Cons.prems] d [OF Cons.prems] d [OF b] Cons.IH [OF k [OF b]]
         Cons.IH [OF b])+
qed

lemma npcInner_keeps:
  assumes d: "\<And>r sn. Q (fst sn) \<Longrightarrow> Q (fst (die_at r sn))"
  shows "Q (fst sn) \<Longrightarrow> Q (fst (npcInner r1 rs sn))"
  by (induction rs arbitrary: sn) (simp_all add: Let_def d)

lemma npcOuter_keeps:
  assumes d: "\<And>r sn. Q (fst sn) \<Longrightarrow> Q (fst (die_at r sn))"
  shows "Q (fst sn) \<Longrightarrow> Q (fst (npcOuter rs sn))"
  by (induction rs arbitrary: sn) (simp_all add: npcInner_keeps [of Q, OF d])

lemma playerPasses_keeps:
  assumes e: "\<And>p s r. Q s \<Longrightarrow> Q (eatStep p s r)"
    and d: "\<And>r sn. Q (fst sn) \<Longrightarrow> Q (fst (die_at r sn))"
    and k: "\<And>p r sn. Q (fst sn) \<Longrightarrow> Q (fst (killNpc p r sn))"
    and q: "Q s"
  shows "Q (fst (checkPlayerSnakeCollisions p es (checkPlayerFoodCollisions p es s, n)))"
proof -
  have 1: "Q (fst (checkPlayerFoodCollisions p es s, n))"
    using eatLoop_keeps [of Q, OF e q] by (simp add: checkPlayerFoodCollisions_def)
  show ?thesis
    using 1 playerSnakeLoop_keeps [of Q, OF d k 1]
    by (simp add: checkPlayerSnakeCollisions_def)
qed

lemma sameShapes_playerPasses:
  "sameShapes s (fst (checkPlayerSnakeCollisions p es (checkPlayerFoodCollisions p es s, n)))"
proof (rule playerPasses_keeps [of "sameShapes s"])
  show "sameShapes s (eatStep p s' r)" if "sameShapes s s'" for p s' r
    using that sameShapes_eatStep [of s' p r] by (rule sameShapes_trans)
  show "sameShapes s (fst (die_at r sn))" if "sameShapes s (fst sn)" for r sn
    using that sameShapes_die_at [of sn r] by (rule sameShapes_trans)
  show "sameShapes s (fst (killNpc p r sn))" if "sameShapes s (fst sn)" for p r sn
    using that sameShapes_killNpc [of sn p r] by (rule sameShapes_trans)
  show "sameShapes s s" by simp
qed

lemma sameShapes_npcInner: "sameShapes (fst sn) (fst (npcInner r1 rs sn))"
proof (rule npcInner_keeps [of "sameShapes (fst sn)"])
  show "sameShapes (fst sn) (fst (die_at r sn'))" if "sameShapes (fst sn) (fst sn')" for r and sn' :: "'a sim_scheme \<times> entity list"
    using that sameShapes_die_at [of sn' r] by (rule sameShapes_trans)
  show "sameShapes (fst sn) (fst sn)" by simp
qed

text \<open>A head on a body between two snakes of the array \<open>npcs\<close>.\<close>

lemma hit_sameShapes:
  "sameShapes s s' \<Longrightarrow>
   isCollidingWithSnake c (heap s' a) (heap s' b) = isCollidingWithSnake c (heap s a) (heap s b)"
  by (rule isCollidingWithSnake_shape) (simp_all add: sameShapes_def)

lemma npcInner_Cons:
  "npcInner r1 (r2 # rs) sn =
     (if markedForDeletion (heap (fst sn) r2) then npcInner r1 rs sn
      else if isCollidingWithSnake (r1 = r2) (heap (fst sn) r1) (heap (fst sn) r2) then die_at r1 sn
      else if isCollidingWithSnake (r2 = r1) (heap (fst sn) r2) (heap (fst sn) r1)
        then npcInner r1 rs (die_at r2 sn)
      else if isHeadCollidingWithHead (r1 = r2) (heap (fst sn) r1) (heap (fst sn) r2) then
        (if size' (heap (fst sn) r1) < size' (heap (fst sn) r2) then die_at r1 sn
         else if size' (heap (fst sn) r2) < size' (heap (fst sn) r1)
           then npcInner r1 rs (die_at r2 sn)
         else die_at r2 (die_at r1 sn))
      else npcInner r1 rs sn)"
  by (simp add: Let_def)

lemma if_tree_npc:
  assumes "P a" "P d" "P e" "P f"
  shows "P (if c1 then a else if c2 then d else if c3 then e
            else if c4 then (if c5 then d else if c6 then e else f) else a)"
  using assms by simp

lemma npcInner_other:
  assumes ih: "\<And>sn. H (fst sn) \<Longrightarrow> C (npcInner r1 rs sn)"
    and h: "H (fst sn)"
    and hd: "\<And>r sn. H (fst sn) \<Longrightarrow> H (fst (die_at r sn))"
    and c1: "\<And>sn. C (die_at r1 sn)"
    and c2: "\<And>r sn. C sn \<Longrightarrow> C (die_at r sn)"
  shows "C (npcInner r1 (r2 # rs) sn)"
  unfolding npcInner_Cons
  by (rule if_tree_npc [where P = C]) (rule ih [OF h] c1 ih [OF hd [OF h]] c2 [OF c1])+

lemma npcInner_strike_first:
  assumes "b \<in> set rs" "r1 \<noteq> b"
    and "isCollidingWithSnake False (heap (fst sn) r1) (heap (fst sn) b)"
  shows "markedForDeletion (heap (fst (npcInner r1 rs sn)) r1) \<or>
         markedForDeletion (heap (fst (npcInner r1 rs sn)) b)"
  using assms
proof (induction rs arbitrary: sn)
  case Nil
  then show ?case by simp
next
  case (Cons r2 rs)
  show ?case
  proof (cases "r2 = b")
    case True
    show ?thesis
    proof (cases "markedForDeletion (heap (fst sn) b)")
      case True
      then show ?thesis
        using \<open>r2 = b\<close> by (simp add: npcInner_Cons stays_marked_npcInner)
    next
      case False
      then have "npcInner r1 (r2 # rs) sn = die_at r1 sn"
        using Cons.prems(2,3) \<open>r2 = b\<close> by (simp add: npcInner_Cons)
      then show ?thesis by (simp add: marked_die_at_self)
    qed
  next
    case False
    then have b: "b \<in> set rs" using Cons.prems(1) by simp
    show ?thesis
    proof (rule npcInner_other
        [where H = "\<lambda>s. isCollidingWithSnake False (heap s r1) (heap s b)"
          and C = "\<lambda>x. markedForDeletion (heap (fst x) r1) \<or> markedForDeletion (heap (fst x) b)"])
      show "markedForDeletion (heap (fst (npcInner r1 rs sn')) r1) \<or>
            markedForDeletion (heap (fst (npcInner r1 rs sn')) b)"
        if "isCollidingWithSnake False (heap (fst sn') r1) (heap (fst sn') b)" for sn' :: "'a sim_scheme \<times> entity list"
        using Cons.IH [OF b Cons.prems(2) that] .
      show "isCollidingWithSnake False (heap (fst sn) r1) (heap (fst sn) b)"
        by (rule Cons.prems(3))
      show "isCollidingWithSnake False (heap (fst (die_at r sn')) r1) (heap (fst (die_at r sn')) b)"
        if "isCollidingWithSnake False (heap (fst sn') r1) (heap (fst sn') b)" for r and sn' :: "'a sim_scheme \<times> entity list"
        using that hit_sameShapes [OF sameShapes_die_at [of sn' r], of False r1 b] by simp
      show "markedForDeletion (heap (fst (die_at r1 sn')) r1) \<or>
            markedForDeletion (heap (fst (die_at r1 sn')) b)" for sn' :: "'a sim_scheme \<times> entity list"
        by (simp add: marked_die_at_self)
      show "markedForDeletion (heap (fst (die_at r sn')) r1) \<or>
            markedForDeletion (heap (fst (die_at r sn')) b)"
        if "markedForDeletion (heap (fst sn') r1) \<or> markedForDeletion (heap (fst sn') b)"
        for r and sn' :: "'a sim_scheme \<times> entity list"
        using that stays_marked_die_at by blast
    qed
  qed
qed

lemma npcInner_strike_later:
  assumes "a \<in> set rs" "a \<noteq> r1"
    and "isCollidingWithSnake False (heap (fst sn) a) (heap (fst sn) r1)"
  shows "markedForDeletion (heap (fst (npcInner r1 rs sn)) r1) \<or>
         markedForDeletion (heap (fst (npcInner r1 rs sn)) a)"
  using assms
proof (induction rs arbitrary: sn)
  case Nil
  then show ?case by simp
next
  case (Cons r2 rs)
  show ?case
  proof (cases "r2 = a")
    case True
    have ar: "(a = r1) = False" "(r1 = a) = False" using Cons.prems(2) by auto
    have m: "markedForDeletion (heap (fst (npcInner r1 rs (die_at a sn))) a)"
      by (rule stays_marked_npcInner) (rule marked_die_at_self)
    show ?thesis
      unfolding True npcInner_Cons ar
      using Cons.prems(3) m
      by (simp add: marked_die_at_self stays_marked_npcInner)
  next
    case False
    then have a: "a \<in> set rs" using Cons.prems(1) by simp
    show ?thesis
    proof (rule npcInner_other
        [where H = "\<lambda>s. isCollidingWithSnake False (heap s a) (heap s r1)"
          and C = "\<lambda>x. markedForDeletion (heap (fst x) r1) \<or> markedForDeletion (heap (fst x) a)"])
      show "markedForDeletion (heap (fst (npcInner r1 rs sn')) r1) \<or>
            markedForDeletion (heap (fst (npcInner r1 rs sn')) a)"
        if "isCollidingWithSnake False (heap (fst sn') a) (heap (fst sn') r1)" for sn' :: "'a sim_scheme \<times> entity list"
        using Cons.IH [OF a Cons.prems(2) that] .
      show "isCollidingWithSnake False (heap (fst sn) a) (heap (fst sn) r1)"
        by (rule Cons.prems(3))
      show "isCollidingWithSnake False (heap (fst (die_at r sn')) a) (heap (fst (die_at r sn')) r1)"
        if "isCollidingWithSnake False (heap (fst sn') a) (heap (fst sn') r1)" for r and sn' :: "'a sim_scheme \<times> entity list"
        using that hit_sameShapes [OF sameShapes_die_at [of sn' r], of False a r1] by simp
      show "markedForDeletion (heap (fst (die_at r1 sn')) r1) \<or>
            markedForDeletion (heap (fst (die_at r1 sn')) a)" for sn' :: "'a sim_scheme \<times> entity list"
        by (simp add: marked_die_at_self)
      show "markedForDeletion (heap (fst (die_at r sn')) r1) \<or>
            markedForDeletion (heap (fst (die_at r sn')) a)"
        if "markedForDeletion (heap (fst sn') r1) \<or> markedForDeletion (heap (fst sn') a)"
        for r and sn' :: "'a sim_scheme \<times> entity list"
        using that stays_marked_die_at by blast
    qed
  qed
qed

lemma npcOuter_strike:
  assumes "a \<in> set rs" "b \<in> set rs" "a \<noteq> b"
    and "isCollidingWithSnake False (heap (fst sn) a) (heap (fst sn) b)"
  shows "markedForDeletion (heap (fst (npcOuter rs sn)) a) \<or>
         markedForDeletion (heap (fst (npcOuter rs sn)) b)"
  using assms
proof (induction rs arbitrary: sn)
  case Nil
  then show ?case by simp
next
  case (Cons r rs)
  let ?sn1 = "npcInner r rs sn"
  have hit1: "isCollidingWithSnake False (heap (fst ?sn1) a) (heap (fst ?sn1) b)"
    using Cons.prems(4) hit_sameShapes [OF sameShapes_npcInner [of sn r rs], of False a b] by simp
  consider (first) "r = a" | (second) "r = b" | (other) "r \<noteq> a" "r \<noteq> b" by blast
  then show ?case
  proof cases
    case first
    then have b: "b \<in> set rs" using Cons.prems(2,3) by auto
    show ?thesis
    proof (cases "markedForDeletion (heap (fst sn) a)")
      case True
      then show ?thesis using first by (simp add: stays_marked_npcOuter)
    next
      case False
      have "markedForDeletion (heap (fst ?sn1) a) \<or> markedForDeletion (heap (fst ?sn1) b)"
        using npcInner_strike_first [OF b Cons.prems(3,4)] first by simp
      then have "markedForDeletion (heap (fst (npcOuter rs ?sn1)) a) \<or>
          markedForDeletion (heap (fst (npcOuter rs ?sn1)) b)"
        using stays_marked_npcOuter by blast
      then show ?thesis using False first by simp
    qed
  next
    case second
    then have a: "a \<in> set rs" using Cons.prems(1,3) by auto
    show ?thesis
    proof (cases "markedForDeletion (heap (fst sn) b)")
      case True
      then show ?thesis using second by (simp add: stays_marked_npcOuter)
    next
      case False
      have "markedForDeletion (heap (fst ?sn1) b) \<or> markedForDeletion (heap (fst ?sn1) a)"
        using npcInner_strike_later [OF a Cons.prems(3,4)] second by simp
      then have "markedForDeletion (heap (fst (npcOuter rs ?sn1)) a) \<or>
          markedForDeletion (heap (fst (npcOuter rs ?sn1)) b)"
        using stays_marked_npcOuter by blast
      then show ?thesis using False second by simp
    qed
  next
    case other
    then have ab: "a \<in> set rs" "b \<in> set rs" using Cons.prems(1,2) by auto
    show ?thesis
      using Cons.IH [OF ab Cons.prems(3,4)] Cons.IH [OF ab Cons.prems(3) hit1]
      by simp
  qed
qed

lemma checkNPCCollisions_strike:
  assumes "a \<in> set (liveSnakes es (fst sn))" "b \<in> set (liveSnakes es (fst sn))" "a \<noteq> b"
    and "isCollidingWithSnake False (heap (fst sn) a) (heap (fst sn) b)"
  shows "markedForDeletion (heap (fst (checkNPCCollisions es sn)) a) \<or>
         markedForDeletion (heap (fst (checkNPCCollisions es sn)) b)"
proof -
  define s1 where
    "s1 = foldl (\<lambda>s0 npc. foldl (eatStep npc) s0 es) (fst sn) (liveSnakes es (fst sn))"
  have "sameShapes (fst sn) s1"
    by (simp add: s1_def sameShapes_npcFood)
  then have "isCollidingWithSnake False (heap (fst (s1, snd sn)) a) (heap (fst (s1, snd sn)) b)"
    using assms(4) hit_sameShapes [of "fst sn" s1 False a b] by simp
  from npcOuter_strike [OF assms(1,2,3) this]
  show ?thesis
    by (simp add: checkNPCCollisions_def Let_def s1_def)
qed

lemma checkCollisions_strike:
  assumes "a \<in> set es" "b \<in> set es" "liveSnake a s" "strikes a b s"
  shows "markedForDeletion (heap (fst (checkCollisions es p s)) a) \<or>
         markedForDeletion (heap (fst (checkCollisions es p s)) b)"
proof -
  define sn2 where
    "sn2 = checkPlayerSnakeCollisions p es (checkPlayerFoodCollisions p es s, [] :: entity list)"
  have c: "checkCollisions es p s = checkNPCCollisions es sn2"
    by (simp add: checkCollisions_def sn2_def)
  have sh: "sameShapes s (fst sn2)"
    unfolding sn2_def by (rule sameShapes_playerPasses)
  have ab: "a \<noteq> b" and hit: "isCollidingWithSnake False (heap s a) (heap s b)"
    and tb: "type (heap s b) = NpcT \<or> type (heap s b) = SnakeT"
    and ta: "type (heap s a) = NpcT \<or> type (heap s a) = SnakeT"
    using assms(3,4) by (simp_all add: strikes_def liveSnake_def)
  have t: "type (heap (fst sn2) r) = type (heap s r)" for r
    using sh by (simp add: sameShapes_def shape_def)
  have hit2: "isCollidingWithSnake False (heap (fst sn2) a) (heap (fst sn2) b)"
    using hit hit_sameShapes [OF sh, of False a b] by simp
  show ?thesis
  proof (cases "markedForDeletion (heap (fst sn2) a) \<or> markedForDeletion (heap (fst sn2) b)")
    case True
    then show ?thesis
      unfolding c using stays_marked_checkNPCCollisions by blast
  next
    case False
    then have "a \<in> set (liveSnakes es (fst sn2))" "b \<in> set (liveSnakes es (fst sn2))"
      using assms(1,2) ta tb by (auto simp add: liveSnakes_def t)
    from checkNPCCollisions_strike [OF this ab hit2] show ?thesis
      unfolding c .
  qed
qed

subsection \<open>Any two snakes, the player included\<close>

lemma circleCollision_commute: "circleCollision a b = circleCollision b a"
  by (simp add: circleCollision_def Let_def distance_commute [of a b] add.commute)

lemma isHeadCollidingWithHead_commute:
  "isHeadCollidingWithHead c a b = isHeadCollidingWithHead c b a"
  by (simp add: isHeadCollidingWithHead_def circleCollision_commute [of "headSegment a"])

lemma head_sameShapes:
  "sameShapes s s' \<Longrightarrow>
   isHeadCollidingWithHead c (heap s' a) (heap s' b) = isHeadCollidingWithHead c (heap s a) (heap s b)"
  by (rule isHeadCollidingWithHead_shape) (simp_all add: sameShapes_def)

lemma type_sameShapes: "sameShapes s s' \<Longrightarrow> type (heap s' r) = type (heap s r)"
  by (simp add: sameShapes_def shape_def)

lemma sameShapes_bodyStrikeOnPlayer: "sameShapes (fst sn) (fst (bodyStrikeOnPlayer p r sn))"
  by (simp add: bodyStrikeOnPlayer_def sameShapes_killNpc)

lemma marked_die_at_other:
  "a \<noteq> r \<Longrightarrow> markedForDeletion (heap (fst (die_at r sn)) a) = markedForDeletion (heap (fst sn) a)"
  by (simp add: heap_die_at)

lemma marked_killNpc_self: "markedForDeletion (heap (fst (killNpc p r sn)) r)"
  by (simp add: heap_killNpc Let_def destroy_def)

lemma marked_killNpc_other:
  "a \<noteq> r \<Longrightarrow>
   markedForDeletion (heap (fst (killNpc p r sn)) a) = markedForDeletion (heap (fst sn) a)"
  by (simp add: heap_killNpc Let_def)

lemma stays_marked_killNpc:
  "markedForDeletion (heap (fst sn) a) \<Longrightarrow> markedForDeletion (heap (fst (killNpc p r sn)) a)"
  by (cases "a = r") (simp_all add: marked_killNpc_self marked_killNpc_other)

lemma stays_marked_playerSnakeLoop:
  "markedForDeletion (heap (fst sn) a) \<Longrightarrow>
   markedForDeletion (heap (fst (playerSnakeLoop p rs sn)) a)"
  by (rule playerSnakeLoop_keeps [of "\<lambda>s. markedForDeletion (heap s a)"])
    (simp_all add: stays_marked_die_at stays_marked_killNpc)

text \<open>
  One iteration of the loop of \<^verbatim>\<open>checkPlayerSnakeCollisions\<close>, as a rule with one premise
  for each way through the body.
\<close>

lemma playerSnakeLoop_step:
  assumes skip: "(type (heap (fst sn) r) \<noteq> SnakeT \<and> type (heap (fst sn) r) \<noteq> NpcT) \<or> r = p \<or>
      markedForDeletion (heap (fst sn) r) \<Longrightarrow> Q (playerSnakeLoop p rs sn)"
    and strike: "r \<noteq> p \<Longrightarrow> type (heap (fst sn) r) = SnakeT \<or> type (heap (fst sn) r) = NpcT \<Longrightarrow>
      \<not> markedForDeletion (heap (fst sn) r) \<Longrightarrow>
      isCollidingWithSnake False (heap (fst sn) p) (heap (fst sn) r) \<Longrightarrow> Q (die_at p sn)"
    and smaller: "r \<noteq> p \<Longrightarrow> type (heap (fst sn) r) = SnakeT \<or> type (heap (fst sn) r) = NpcT \<Longrightarrow>
      \<not> markedForDeletion (heap (fst sn) r) \<Longrightarrow>
      \<not> isCollidingWithSnake False (heap (fst sn) p) (heap (fst sn) r) \<Longrightarrow>
      isHeadCollidingWithHead False (heap (fst (bodyStrikeOnPlayer p r sn)) p)
        (heap (fst (bodyStrikeOnPlayer p r sn)) r) \<Longrightarrow>
      Q (die_at p (bodyStrikeOnPlayer p r sn))"
    and larger: "r \<noteq> p \<Longrightarrow> type (heap (fst sn) r) = SnakeT \<or> type (heap (fst sn) r) = NpcT \<Longrightarrow>
      \<not> markedForDeletion (heap (fst sn) r) \<Longrightarrow>
      \<not> isCollidingWithSnake False (heap (fst sn) p) (heap (fst sn) r) \<Longrightarrow>
      isHeadCollidingWithHead False (heap (fst (bodyStrikeOnPlayer p r sn)) p)
        (heap (fst (bodyStrikeOnPlayer p r sn)) r) \<Longrightarrow>
      Q (playerSnakeLoop p rs (killNpc p r (bodyStrikeOnPlayer p r sn)))"
    and apart: "r \<noteq> p \<Longrightarrow> type (heap (fst sn) r) = SnakeT \<or> type (heap (fst sn) r) = NpcT \<Longrightarrow>
      \<not> markedForDeletion (heap (fst sn) r) \<Longrightarrow>
      \<not> isCollidingWithSnake False (heap (fst sn) p) (heap (fst sn) r) \<Longrightarrow>
      Q (playerSnakeLoop p rs (bodyStrikeOnPlayer p r sn))"
  shows "Q (playerSnakeLoop p (r # rs) sn)"
proof (cases "(type (heap (fst sn) r) \<noteq> SnakeT \<and> type (heap (fst sn) r) \<noteq> NpcT) \<or> r = p \<or>
      markedForDeletion (heap (fst sn) r)")
  case True
  then have "playerSnakeLoop p (r # rs) sn = playerSnakeLoop p rs sn"
    unfolding playerSnakeLoop_Cons by simp
  then show ?thesis using skip [OF True] by simp
next
  case False
  then have f: "r \<noteq> p" "type (heap (fst sn) r) = SnakeT \<or> type (heap (fst sn) r) = NpcT"
    "\<not> markedForDeletion (heap (fst sn) r)" by auto
  have eq: "(p = r) = False" using f(1) by auto
  have ns: "((type (heap (fst sn) r) \<noteq> SnakeT \<and> type (heap (fst sn) r) \<noteq> NpcT) \<or> r = p \<or>
      markedForDeletion (heap (fst sn) r)) = False"
    using False by simp
  show ?thesis
  proof (cases "isCollidingWithSnake False (heap (fst sn) p) (heap (fst sn) r)")
    case True
    then have "playerSnakeLoop p (r # rs) sn = die_at p sn"
      unfolding playerSnakeLoop_Cons eq ns using True by simp
    then show ?thesis using strike [OF f True] by simp
  next
    case nostrike: False
    show ?thesis
    proof (cases "isHeadCollidingWithHead False (heap (fst (bodyStrikeOnPlayer p r sn)) p)
        (heap (fst (bodyStrikeOnPlayer p r sn)) r)")
      case True
      show ?thesis
      proof (cases "size' (heap (fst (bodyStrikeOnPlayer p r sn)) p)
          < size' (heap (fst (bodyStrikeOnPlayer p r sn)) r)")
        case lt: True
        have "playerSnakeLoop p (r # rs) sn = die_at p (bodyStrikeOnPlayer p r sn)"
          unfolding playerSnakeLoop_Cons eq ns using nostrike True lt by simp
        then show ?thesis using smaller [OF f nostrike True] by simp
      next
        case ge: False
        have "playerSnakeLoop p (r # rs) sn =
            playerSnakeLoop p rs (killNpc p r (bodyStrikeOnPlayer p r sn))"
          unfolding playerSnakeLoop_Cons eq ns using nostrike True ge by simp
        then show ?thesis using larger [OF f nostrike True] by simp
      qed
    next
      case nohead: False
      have "playerSnakeLoop p (r # rs) sn = playerSnakeLoop p rs (bodyStrikeOnPlayer p r sn)"
        unfolding playerSnakeLoop_Cons eq ns using nostrike nohead by simp
      then show ?thesis using apart [OF f nostrike] by simp
    qed
  qed
qed

text \<open>The head of another snake on the player's body.\<close>

lemma playerSnakeLoop_struck:
  assumes "a \<in> set rs" "a \<noteq> p"
    and "type (heap (fst sn) a) = NpcT \<or> type (heap (fst sn) a) = SnakeT"
    and "isCollidingWithSnake False (heap (fst sn) a) (heap (fst sn) p)"
  shows "markedForDeletion (heap (fst (playerSnakeLoop p rs sn)) p) \<or>
         markedForDeletion (heap (fst (playerSnakeLoop p rs sn)) a)"
  using assms
proof (induction rs arbitrary: sn)
  case Nil
  then show ?case by simp
next
  case (Cons r rs)
  let ?Q = "\<lambda>x. markedForDeletion (heap (fst x) p) \<or> markedForDeletion (heap (fst x) a)"
  let ?sn1 = "bodyStrikeOnPlayer p r sn"
  have keep: "?Q (playerSnakeLoop p rs x)" if "markedForDeletion (heap (fst x) a)" for x
    using stays_marked_playerSnakeLoop [OF that] by blast
  have carry: "?Q (playerSnakeLoop p rs x)" if "sameShapes (fst sn) (fst x)" "a \<in> set rs" for x
  proof (rule Cons.IH [OF that(2) Cons.prems(2)])
    show "type (heap (fst x) a) = NpcT \<or> type (heap (fst x) a) = SnakeT"
      using Cons.prems(3) by (simp add: type_sameShapes [OF that(1)])
    show "isCollidingWithSnake False (heap (fst x) a) (heap (fst x) p)"
      using Cons.prems(4) by (simp add: hit_sameShapes [OF that(1)])
  qed
  have sh1: "sameShapes (fst sn) (fst ?sn1)" by (rule sameShapes_bodyStrikeOnPlayer)
  have sh2: "sameShapes (fst sn) (fst (killNpc p r ?sn1))"
    using sh1 sameShapes_killNpc [of ?sn1 p r] by (rule sameShapes_trans)
  show ?case
  proof (cases "r = a")
    case True
    have hit: "?sn1 = killNpc p a sn"
      using Cons.prems(2,4) True by (simp add: bodyStrikeOnPlayer_def)
    then have m1: "markedForDeletion (heap (fst ?sn1) a)"
      by (simp add: marked_killNpc_self)
    show ?thesis
    proof (rule playerSnakeLoop_step [where Q = ?Q])
      assume "(type (heap (fst sn) r) \<noteq> SnakeT \<and> type (heap (fst sn) r) \<noteq> NpcT) \<or> r = p \<or>
        markedForDeletion (heap (fst sn) r)"
      then have "markedForDeletion (heap (fst sn) a)"
        using True Cons.prems(2,3) by auto
      then show "?Q (playerSnakeLoop p rs sn)" by (rule keep)
    next
      show "?Q (die_at p sn)" by (simp add: marked_die_at_self)
    next
      show "?Q (die_at p ?sn1)" by (simp add: marked_die_at_self)
    next
      show "?Q (playerSnakeLoop p rs (killNpc p r ?sn1))"
        using m1 by (intro keep stays_marked_killNpc)
    next
      show "?Q (playerSnakeLoop p rs ?sn1)" using m1 by (rule keep)
    qed
  next
    case False
    then have a: "a \<in> set rs" using Cons.prems(1) by simp
    show ?thesis
    proof (rule playerSnakeLoop_step [where Q = ?Q])
      show "?Q (playerSnakeLoop p rs sn)" by (rule carry [OF _ a]) simp
    next
      show "?Q (die_at p sn)" by (simp add: marked_die_at_self)
    next
      show "?Q (die_at p ?sn1)" by (simp add: marked_die_at_self)
    next
      show "?Q (playerSnakeLoop p rs (killNpc p r ?sn1))" by (rule carry [OF sh2 a])
    next
      show "?Q (playerSnakeLoop p rs ?sn1)" by (rule carry [OF sh1 a])
    qed
  qed
qed

lemma player_struck:
  assumes "a \<in> set es" "a \<noteq> p"
    and "type (heap s a) = NpcT \<or> type (heap s a) = SnakeT"
    and "isCollidingWithSnake False (heap s a) (heap s p)"
  shows "markedForDeletion (heap (fst (checkCollisions es p s)) p) \<or>
         markedForDeletion (heap (fst (checkCollisions es p s)) a)"
proof -
  define s1 where "s1 = checkPlayerFoodCollisions p es s"
  define sn2 where "sn2 = checkPlayerSnakeCollisions p es (s1, [] :: entity list)"
  have sh: "sameShapes s s1"
    by (simp add: s1_def checkPlayerFoodCollisions_def sameShapes_eatLoop)
  have t: "type (heap (fst (s1, [] :: entity list)) a) = NpcT \<or>
      type (heap (fst (s1, [] :: entity list)) a) = SnakeT"
    using assms(3) by (simp add: type_sameShapes [OF sh])
  have h: "isCollidingWithSnake False (heap (fst (s1, [] :: entity list)) a)
      (heap (fst (s1, [] :: entity list)) p)"
    using assms(4) by (simp add: hit_sameShapes [OF sh])
  have "markedForDeletion (heap (fst sn2) p) \<or> markedForDeletion (heap (fst sn2) a)"
    using playerSnakeLoop_struck [OF assms(1,2) t h]
    by (simp add: sn2_def checkPlayerSnakeCollisions_def)
  then have "markedForDeletion (heap (fst (checkNPCCollisions es sn2)) p) \<or>
      markedForDeletion (heap (fst (checkNPCCollisions es sn2)) a)"
    using stays_marked_checkNPCCollisions by blast
  then show ?thesis
    by (simp add: checkCollisions_def sn2_def s1_def)
qed

lemma isCollidingWithSnake_same [simp]: "\<not> isCollidingWithSnake True a b"
  by (simp add: isCollidingWithSnake_def)

lemma isHeadCollidingWithHead_same [simp]: "\<not> isHeadCollidingWithHead True a b"
  by (simp add: isHeadCollidingWithHead_def)

lemma stays_marked_checkCollisions:
  assumes "markedForDeletion (heap s a)"
  shows "markedForDeletion (heap (fst (checkCollisions es p s)) a)"
proof -
  have "markedForDeletion
      (heap (fst (checkPlayerSnakeCollisions p es (checkPlayerFoodCollisions p es s, []))) a)"
    by (rule playerPasses_keeps [of "\<lambda>s. markedForDeletion (heap s a)"])
      (simp_all add: stays_marked_eatStep stays_marked_die_at stays_marked_killNpc assms)
  then show ?thesis
    unfolding checkCollisions_def by (rule stays_marked_checkNPCCollisions)
qed

text \<open>
  One iteration of the inner loop of \<^verbatim>\<open>checkNPCCollisions\<close>, as a rule with one premise
  for each way through the body.
\<close>

lemma npcInner_step:
  assumes dead: "markedForDeletion (heap (fst sn) r2) \<Longrightarrow> Q (npcInner r1 rs sn)"
    and first: "\<not> markedForDeletion (heap (fst sn) r2) \<Longrightarrow> r1 \<noteq> r2 \<Longrightarrow>
      isCollidingWithSnake False (heap (fst sn) r1) (heap (fst sn) r2) \<Longrightarrow> Q (die_at r1 sn)"
    and second: "\<not> markedForDeletion (heap (fst sn) r2) \<Longrightarrow> r1 \<noteq> r2 \<Longrightarrow>
      isCollidingWithSnake False (heap (fst sn) r2) (heap (fst sn) r1) \<Longrightarrow>
      Q (npcInner r1 rs (die_at r2 sn))"
    and heads: "\<not> markedForDeletion (heap (fst sn) r2) \<Longrightarrow> r1 \<noteq> r2 \<Longrightarrow>
      \<not> isCollidingWithSnake False (heap (fst sn) r1) (heap (fst sn) r2) \<Longrightarrow>
      \<not> isCollidingWithSnake False (heap (fst sn) r2) (heap (fst sn) r1) \<Longrightarrow>
      isHeadCollidingWithHead False (heap (fst sn) r1) (heap (fst sn) r2) \<Longrightarrow>
      Q (die_at r1 sn) \<and> Q (npcInner r1 rs (die_at r2 sn)) \<and> Q (die_at r2 (die_at r1 sn))"
    and apart: "\<not> markedForDeletion (heap (fst sn) r2) \<Longrightarrow> Q (npcInner r1 rs sn)"
  shows "Q (npcInner r1 (r2 # rs) sn)"
proof (cases "markedForDeletion (heap (fst sn) r2)")
  case True
  then show ?thesis using dead by (simp add: npcInner_Cons del: npcInner.simps(2))
next
  case m: False
  show ?thesis
  proof (cases "r1 = r2")
    case True
    then have "npcInner r1 (r2 # rs) sn = npcInner r1 rs sn"
      using m by (simp add: npcInner_Cons del: npcInner.simps(2))
    then show ?thesis using apart [OF m] by simp
  next
    case ne: False
    then have eq: "(r1 = r2) = False" "(r2 = r1) = False" by auto
    show ?thesis
    proof (cases "isCollidingWithSnake False (heap (fst sn) r1) (heap (fst sn) r2)")
      case True
      then have "npcInner r1 (r2 # rs) sn = die_at r1 sn"
        using m by (simp add: npcInner_Cons eq del: npcInner.simps(2))
      then show ?thesis using first [OF m ne True] by simp
    next
      case c1: False
      show ?thesis
      proof (cases "isCollidingWithSnake False (heap (fst sn) r2) (heap (fst sn) r1)")
        case True
        then have "npcInner r1 (r2 # rs) sn = npcInner r1 rs (die_at r2 sn)"
          using m c1 by (simp add: npcInner_Cons eq del: npcInner.simps(2))
        then show ?thesis using second [OF m ne True] by simp
      next
        case c2: False
        show ?thesis
        proof (cases "isHeadCollidingWithHead False (heap (fst sn) r1) (heap (fst sn) r2)")
          case True
          note h = heads [OF m ne c1 c2 True]
          have "npcInner r1 (r2 # rs) sn = die_at r1 sn \<or>
              npcInner r1 (r2 # rs) sn = npcInner r1 rs (die_at r2 sn) \<or>
              npcInner r1 (r2 # rs) sn = die_at r2 (die_at r1 sn)"
            using m c1 c2 True by (simp add: npcInner_Cons eq del: npcInner.simps(2))
          then show ?thesis using h by auto
        next
          case False
          then have "npcInner r1 (r2 # rs) sn = npcInner r1 rs sn"
            using m c1 c2 by (simp add: npcInner_Cons eq del: npcInner.simps(2))
          then show ?thesis using apart [OF m] by simp
        qed
      qed
    qed
  qed
qed

text \<open>
  A snake whose head is clear survives the pass: every death in the pass is the death of
  a snake whose head lies on a body or on a head.
\<close>

lemma headClear_body:
  assumes "headClear b es p s0" "sameShapes s0 s" "r \<in> set (p # es)" "r \<noteq> b" "isSnakeOf p r s0"
  shows "\<not> isCollidingWithSnake False (heap s b) (heap s r)"
  using assms by (auto simp add: headClear_def headOnBody_def hit_sameShapes)

lemma headClear_head:
  assumes "headClear b es p s0" "sameShapes s0 s" "r \<in> set (p # es)" "r \<noteq> b" "isSnakeOf p r s0"
    and "isHeadCollidingWithHead False (heap s b) (heap s r) \<or>
         isHeadCollidingWithHead False (heap s r) (heap s b)"
  shows "b \<noteq> p \<and> isCollidingWithSnake False (heap s r) (heap s b)"
proof -
  have "isHeadCollidingWithHead False (heap s b) (heap s r)"
    using assms(6) isHeadCollidingWithHead_commute [of False "heap s r" "heap s b"] by blast
  then have "headOnHead b r s0"
    using assms(2,4) by (simp add: headOnHead_def head_sameShapes)
  then have "b \<noteq> p \<and> headOnBody r b s0"
    using assms(1,3,4,5) by (auto simp add: headClear_def)
  then show ?thesis
    using assms(2) by (simp add: headOnBody_def hit_sameShapes)
qed

lemma isSnakeOf_current:
  assumes "sameShapes s0 s" "r \<noteq> p" "type (heap s r) = SnakeT \<or> type (heap s r) = NpcT"
  shows "isSnakeOf p r s0"
  using assms by (auto simp add: isSnakeOf_def type_sameShapes)

lemma survive_playerSnakeLoop:
  assumes "set rs \<subseteq> set es" "sameShapes s0 (fst sn)" "headClear b es p s0"
    and "\<not> markedForDeletion (heap (fst sn) b)"
  shows "\<not> markedForDeletion (heap (fst (playerSnakeLoop p rs sn)) b)"
  using assms(1,2,4)
proof (induction rs arbitrary: sn)
  case Nil
  then show ?case by simp
next
  case (Cons r rs)
  let ?Q = "\<lambda>x. \<not> markedForDeletion (heap (fst x) b)"
  let ?sn1 = "bodyStrikeOnPlayer p r sn"
  note hc = assms(3)
  have sub: "set rs \<subseteq> set es" and r: "r \<in> set (p # es)" using Cons.prems(1) by auto
  have pin: "p \<in> set (p # es)" by simp
  have psnake: "isSnakeOf p p s0" by (simp add: isSnakeOf_def)
  have sh1: "sameShapes s0 (fst ?sn1)"
    using Cons.prems(2) sameShapes_bodyStrikeOnPlayer [of sn p r] by (rule sameShapes_trans)
  have sh2: "sameShapes s0 (fst (killNpc p r ?sn1))"
    using sh1 sameShapes_killNpc [of ?sn1 p r] by (rule sameShapes_trans)
  have m1: "?Q ?sn1" if "r \<noteq> p"
  proof (cases "isCollidingWithSnake False (heap (fst sn) r) (heap (fst sn) p)")
    case True
    have "r \<noteq> b"
    proof
      assume "r = b"
      then have "p \<noteq> b" using that by simp
      from headClear_body [OF hc Cons.prems(2) pin this psnake] True \<open>r = b\<close>
      show False by simp
    qed
    then show ?thesis
      using Cons.prems(3) by (simp add: bodyStrikeOnPlayer_def marked_killNpc_other)
  next
    case False
    then show ?thesis
      using Cons.prems(3) that by (simp add: bodyStrikeOnPlayer_def)
  qed
  show ?case
  proof (rule playerSnakeLoop_step [where Q = ?Q])
    show "?Q (playerSnakeLoop p rs sn)"
      by (rule Cons.IH [OF sub Cons.prems(2,3)])
  next
    assume a: "r \<noteq> p" "type (heap (fst sn) r) = SnakeT \<or> type (heap (fst sn) r) = NpcT"
      "isCollidingWithSnake False (heap (fst sn) p) (heap (fst sn) r)"
    have rs: "isSnakeOf p r s0" using isSnakeOf_current [OF Cons.prems(2) a(1,2)] .
    have "b \<noteq> p"
    proof
      assume "b = p"
      with headClear_body [OF hc Cons.prems(2) r _ rs] a(1,3) show False by simp
    qed
    then show "?Q (die_at p sn)"
      using Cons.prems(3) by (simp add: marked_die_at_other)
  next
    assume a: "r \<noteq> p" "type (heap (fst sn) r) = SnakeT \<or> type (heap (fst sn) r) = NpcT"
      "isHeadCollidingWithHead False (heap (fst ?sn1) p) (heap (fst ?sn1) r)"
    have rs: "isSnakeOf p r s0" using isSnakeOf_current [OF Cons.prems(2) a(1,2)] .
    have "b \<noteq> p"
    proof
      assume "b = p"
      with headClear_head [OF hc sh1 r _ rs] a(1,3) show False by blast
    qed
    then show "?Q (die_at p ?sn1)"
      using m1 [OF a(1)] by (simp add: marked_die_at_other)
  next
    assume a: "r \<noteq> p" "type (heap (fst sn) r) = SnakeT \<or> type (heap (fst sn) r) = NpcT"
      "\<not> isCollidingWithSnake False (heap (fst sn) p) (heap (fst sn) r)"
      "isHeadCollidingWithHead False (heap (fst ?sn1) p) (heap (fst ?sn1) r)"
    have "r \<noteq> b"
    proof
      assume rb: "r = b"
      then have pb: "p \<noteq> b" using a(1) by simp
      from headClear_head [OF hc sh1 pin pb psnake] a(4) rb
      have "isCollidingWithSnake False (heap (fst ?sn1) p) (heap (fst ?sn1) b)" by blast
      then have "isCollidingWithSnake False (heap (fst sn) p) (heap (fst sn) b)"
        using hit_sameShapes [OF sameShapes_bodyStrikeOnPlayer [of sn p r], of False p b] by simp
      with a(3) rb show False by simp
    qed
    then have "?Q (killNpc p r ?sn1)"
      using m1 [OF a(1)] by (simp add: marked_killNpc_other)
    then show "?Q (playerSnakeLoop p rs (killNpc p r ?sn1))"
      by (rule Cons.IH [OF sub sh2])
  next
    assume a: "r \<noteq> p"
    show "?Q (playerSnakeLoop p rs ?sn1)"
      by (rule Cons.IH [OF sub sh1 m1 [OF a]])
  qed
qed

lemma survive_npcInner:
  assumes "r1 \<in> set es" "isSnakeOf p r1 s0" "set rs \<subseteq> set es" "\<forall>r\<in>set rs. isSnakeOf p r s0"
    and "sameShapes s0 (fst sn)" "headClear b es p s0"
    and "\<not> markedForDeletion (heap (fst sn) b)"
  shows "\<not> markedForDeletion (heap (fst (npcInner r1 rs sn)) b)"
  using assms(3,4,5,7)
proof (induction rs arbitrary: sn)
  case Nil
  then show ?case by simp
next
  case (Cons r2 rs)
  let ?Q = "\<lambda>x. \<not> markedForDeletion (heap (fst x) b)"
  note hc = assms(6)
  note sh = Cons.prems(3)
  have sub: "set rs \<subseteq> set es" and sn: "\<forall>r\<in>set rs. isSnakeOf p r s0"
    and r2: "r2 \<in> set (p # es)" "isSnakeOf p r2 s0"
    using Cons.prems(1,2) by auto
  have r1: "r1 \<in> set (p # es)" using assms(1) by simp
  have sh2: "sameShapes s0 (fst (die_at r sn))" for r
    using sh sameShapes_die_at [of sn r] by (rule sameShapes_trans)
  have ih: "?Q (npcInner r1 rs x)" if "sameShapes s0 (fst x)" "?Q x" for x
    using Cons.IH [OF sub sn that] .
  show ?case
  proof (rule npcInner_step [where Q = ?Q])
    show "?Q (npcInner r1 rs sn)" by (rule ih [OF sh Cons.prems(4)])
  next
    assume a: "r1 \<noteq> r2" "isCollidingWithSnake False (heap (fst sn) r1) (heap (fst sn) r2)"
    have "r1 \<noteq> b"
    proof
      assume "r1 = b"
      with headClear_body [OF hc sh r2(1) _ r2(2)] a show False by auto
    qed
    then show "?Q (die_at r1 sn)"
      using Cons.prems(4) by (simp add: marked_die_at_other)
  next
    assume a: "r1 \<noteq> r2" "isCollidingWithSnake False (heap (fst sn) r2) (heap (fst sn) r1)"
    have "r2 \<noteq> b"
    proof
      assume "r2 = b"
      with headClear_body [OF hc sh r1 _ assms(2)] a show False by auto
    qed
    then have "?Q (die_at r2 sn)"
      using Cons.prems(4) by (simp add: marked_die_at_other)
    then show "?Q (npcInner r1 rs (die_at r2 sn))"
      by (rule ih [OF sh2])
  next
    assume a: "r1 \<noteq> r2"
      "\<not> isCollidingWithSnake False (heap (fst sn) r1) (heap (fst sn) r2)"
      "\<not> isCollidingWithSnake False (heap (fst sn) r2) (heap (fst sn) r1)"
      "isHeadCollidingWithHead False (heap (fst sn) r1) (heap (fst sn) r2)"
    have n1: "r1 \<noteq> b"
    proof
      assume "r1 = b"
      with headClear_head [OF hc sh r2(1) _ r2(2)] a show False by blast
    qed
    have n2: "r2 \<noteq> b"
    proof
      assume "r2 = b"
      with headClear_head [OF hc sh r1 _ assms(2)] a show False by blast
    qed
    have q1: "?Q (die_at r1 sn)"
      using Cons.prems(4) n1 by (simp add: marked_die_at_other)
    have q2: "?Q (die_at r2 sn)"
      using Cons.prems(4) n2 by (simp add: marked_die_at_other)
    have q3: "?Q (die_at r2 (die_at r1 sn))"
      using q1 n2 by (simp add: marked_die_at_other)
    from q1 ih [OF sh2 q2] q3
    show "?Q (die_at r1 sn) \<and> ?Q (npcInner r1 rs (die_at r2 sn)) \<and> ?Q (die_at r2 (die_at r1 sn))"
      by blast
  next
    show "?Q (npcInner r1 rs sn)" by (rule ih [OF sh Cons.prems(4)])
  qed
qed

lemma survive_npcOuter:
  assumes "set rs \<subseteq> set es" "\<forall>r\<in>set rs. isSnakeOf p r s0"
    and "sameShapes s0 (fst sn)" "headClear b es p s0"
    and "\<not> markedForDeletion (heap (fst sn) b)"
  shows "\<not> markedForDeletion (heap (fst (npcOuter rs sn)) b)"
  using assms(1,2,3,5)
proof (induction rs arbitrary: sn)
  case Nil
  then show ?case by simp
next
  case (Cons r1 rs)
  have sub: "set rs \<subseteq> set es" and sn: "\<forall>r\<in>set rs. isSnakeOf p r s0"
    and r1: "r1 \<in> set es" "isSnakeOf p r1 s0"
    using Cons.prems(1,2) by auto
  have sh1: "sameShapes s0 (fst (npcInner r1 rs sn))"
    using Cons.prems(3) sameShapes_npcInner [of sn r1 rs] by (rule sameShapes_trans)
  have m1: "\<not> markedForDeletion (heap (fst (npcInner r1 rs sn)) b)"
    using survive_npcInner [OF r1 sub sn Cons.prems(3) assms(4) Cons.prems(4)] .
  show ?case
    using Cons.IH [OF sub sn Cons.prems(3,4)] Cons.IH [OF sub sn sh1 m1]
    by simp
qed

lemma survives:
  assumes tp: "type (heap s p) = PlayerT" and sb: "isSnakeOf p b s"
    and mb: "\<not> markedForDeletion (heap s b)" and hc: "headClear b es p s"
  shows "\<not> markedForDeletion (heap (fst (checkCollisions es p s)) b)"
proof -
  define s1 where "s1 = checkPlayerFoodCollisions p es s"
  define sn2 where "sn2 = checkPlayerSnakeCollisions p es (s1, [] :: entity list)"
  define npcs where "npcs = liveSnakes es (fst sn2)"
  define s3 where "s3 = foldl (\<lambda>s0 npc. foldl (eatStep npc) s0 es) (fst sn2) npcs"
  have c: "checkCollisions es p s = npcOuter npcs (s3, snd sn2)"
    by (simp add: checkCollisions_def checkNPCCollisions_def Let_def sn2_def s1_def npcs_def s3_def)
  have nf: "\<not> isFoodType (heap s b)"
    using tp sb by (auto simp add: isSnakeOf_def isFoodType_def)
  have sh1: "sameShapes s s1"
    by (simp add: s1_def checkPlayerFoodCollisions_def sameShapes_eatLoop)
  have m1: "\<not> markedForDeletion (heap s1 b)"
    using marked_eatLoop [OF nf, of p es] mb by (simp add: s1_def checkPlayerFoodCollisions_def)
  have sh2: "sameShapes s (fst sn2)"
    unfolding sn2_def s1_def by (rule sameShapes_playerPasses)
  have m2: "\<not> markedForDeletion (heap (fst sn2) b)"
  proof (cases "markedForDeletion (heap s1 p)")
    case True
    then show ?thesis using m1 by (simp add: sn2_def checkPlayerSnakeCollisions_def)
  next
    case False
    have "\<not> markedForDeletion (heap (fst (playerSnakeLoop p es (s1, []))) b)"
      by (rule survive_playerSnakeLoop [where es = es and ?s0.0 = s and p = p])
        (simp_all add: sh1 hc m1)
    then show ?thesis using False by (simp add: sn2_def checkPlayerSnakeCollisions_def)
  qed
  have nf2: "\<not> isFoodType (heap (fst sn2) b)"
    using nf by (simp add: isFoodType_def type_sameShapes [OF sh2])
  have m3: "\<not> markedForDeletion (heap s3 b)"
    using marked_npcFood [OF nf2, of es npcs] m2 by (simp add: s3_def)
  have sh3: "sameShapes s s3"
    using sh2 sameShapes_npcFood [of "fst sn2" es npcs] unfolding s3_def
    by (rule sameShapes_trans)
  have sub: "set npcs \<subseteq> set es" by (simp add: npcs_def liveSnakes_def)
  have sn: "\<forall>r\<in>set npcs. isSnakeOf p r s"
    by (auto simp add: npcs_def liveSnakes_def isSnakeOf_def type_sameShapes [OF sh2])
  show ?thesis
    unfolding c
    by (rule survive_npcOuter [where es = es and ?s0.0 = s and p = p])
      (simp_all add: sub sn sh3 hc m3)
qed

lemma pair_not_both_survive:
  assumes "a \<in> set es" "b \<in> set es" "isSnakeOf p a s" "isSnakeOf p b s" "headOnBody a b s"
  shows "markedForDeletion (heap (fst (checkCollisions es p s)) a) \<or>
         markedForDeletion (heap (fst (checkCollisions es p s)) b)"
proof -
  have ab: "a \<noteq> b" and hit: "isCollidingWithSnake False (heap s a) (heap s b)"
    using assms(5) by (simp_all add: headOnBody_def)
  consider (marked) "markedForDeletion (heap s a) \<or> markedForDeletion (heap s b)"
    | (striker) "a = p" "\<not> markedForDeletion (heap s b)"
    | (struck) "b = p" "a \<noteq> p"
    | (others) "a \<noteq> p" "b \<noteq> p" "\<not> markedForDeletion (heap s a)" "\<not> markedForDeletion (heap s b)"
    by blast
  then show ?thesis
  proof cases
    case marked
    then show ?thesis using stays_marked_checkCollisions by blast
  next
    case striker
    then have "strikes p b s"
      using ab hit assms(4) by (auto simp add: strikes_def isSnakeOf_def)
    from player_strike_dies [OF assms(2) this] striker(1) show ?thesis by simp
  next
    case struck
    then have "type (heap s a) = NpcT \<or> type (heap s a) = SnakeT"
      using assms(3) by (simp add: isSnakeOf_def)
    from player_struck [OF assms(1) struck(2) this] hit struck(1) show ?thesis by blast
  next
    case others
    then have "liveSnake a s" "strikes a b s"
      using ab hit assms(3,4) by (auto simp add: liveSnake_def strikes_def isSnakeOf_def)
    from checkCollisions_strike [OF assms(1,2) this] show ?thesis .
  qed
qed

subsection \<open>Worlds without food, and head against head\<close>

lemma world2_simps:
  "entities (world2 e0 e1) = [0, 1]"
  "player (world2 e0 e1) = 0"
  "heap (world2 e0 e1) 0 = e0"
  "heap (world2 e0 e1) 1 = e1"
  by (simp_all add: push_entity_def new_GameState_def)

lemma world3_simps:
  "entities (world3 e0 e1 e2) = [0, 1, 2]"
  "player (world3 e0 e1 e2) = 0"
  "heap (world3 e0 e1 e2) 0 = e0"
  "heap (world3 e0 e1 e2) 1 = e1"
  "heap (world3 e0 e1 e2) 2 = e2"
  by (simp_all add: push_entity_def new_GameState_def numeral_2_eq_2)

lemma eatStep_no_food: "\<not> isFoodType (heap s r) \<Longrightarrow> eatStep p s r = s"
  by (simp add: eatStep_def)

lemma eatLoop_no_food:
  "\<forall>r\<in>set rs. \<not> isFoodType (heap s r) \<Longrightarrow> foldl (eatStep p) s rs = s"
  by (induction rs) (simp_all add: eatStep_no_food)

lemma npcFood_no_food:
  "\<forall>r\<in>set es. \<not> isFoodType (heap s r) \<Longrightarrow>
   foldl (\<lambda>s0 npc. foldl (eatStep npc) s0 es) s npcs = s"
  by (induction npcs) (simp_all add: eatLoop_no_food)

lemma playerSnakeLoop_no_contact:
  "\<forall>r\<in>set rs. r = p \<or> noContact p r (fst sn) \<Longrightarrow> playerSnakeLoop p rs sn = sn"
proof (induction rs)
  case Nil
  then show ?case by simp
next
  case (Cons r rs)
  then have ih: "playerSnakeLoop p rs sn = sn" by simp
  show ?case
  proof (cases "r = p")
    case True
    then show ?thesis by (simp add: ih)
  next
    case False
    then have "noContact p r (fst sn)" and "(p = r) = False" "(r = p) = False"
      using Cons.prems by auto
    then show ?thesis
      by (simp add: playerSnakeLoop_Cons ih noContact_def bodyStrikeOnPlayer_def
          del: playerSnakeLoop.simps(2))
  qed
qed

lemma checkCollisions_player_apart:
  assumes "\<forall>r\<in>set es. \<not> isFoodType (heap s r)"
    and "\<forall>r\<in>set es. r = p \<or> noContact p r s"
  shows "checkCollisions es p s = checkNPCCollisions es (s, [])"
  using assms
  by (simp add: checkCollisions_def checkPlayerFoodCollisions_def eatLoop_no_food
      checkPlayerSnakeCollisions_def playerSnakeLoop_no_contact)

text \<open>Head against head, for the player and for two other snakes.\<close>

lemma player_tie:
  assumes pr: "p \<noteq> r"
    and tp: "type (heap s p) = PlayerT"
    and lr: "liveSnake r s"
    and mp: "\<not> markedForDeletion (heap s p)"
    and nc: "\<not> isCollidingWithSnake False (heap s p) (heap s r)"
      "\<not> isCollidingWithSnake False (heap s r) (heap s p)"
    and hd: "isHeadCollidingWithHead False (heap s p) (heap s r)"
    and sz: "size' (heap s p) = size' (heap s r)"
  shows "markedForDeletion (heap (fst (checkCollisions [p, r] p s)) r) \<and>
         \<not> markedForDeletion (heap (fst (checkCollisions [p, r] p s)) p)"
proof -
  have tr: "type (heap s r) = NpcT \<or> type (heap s r) = SnakeT"
    and mr: "\<not> markedForDeletion (heap s r)"
    using lr by (simp_all add: liveSnake_def)
  have nf: "\<forall>x\<in>set [p, r]. \<not> isFoodType (heap s x)"
    using tp tr by (auto simp add: isFoodType_def)
  have f: "checkPlayerFoodCollisions p [p, r] s = s"
    unfolding checkPlayerFoodCollisions_def using nf by (rule eatLoop_no_food)
  have eq: "(p = r) = False" "(r = p) = False" using pr by auto
  have l: "playerSnakeLoop p [p, r] (s, []) = killNpc p r (s, [])"
    using tr mr nc hd sz
    by (auto simp add: playerSnakeLoop_Cons eq bodyStrikeOnPlayer_def
        simp del: playerSnakeLoop.simps(2))
  define sn2 where "sn2 = killNpc p r (s, [] :: entity list)"
  have c: "checkCollisions [p, r] p s = checkNPCCollisions [p, r] sn2"
    using mp
    by (simp add: checkCollisions_def f checkPlayerSnakeCollisions_def l sn2_def
        del: playerSnakeLoop.simps)
  have h2: "markedForDeletion (heap (fst sn2) r)" "\<not> markedForDeletion (heap (fst sn2) p)"
    "type (heap (fst sn2) p) = PlayerT"
    using pr mp tp by (simp_all add: sn2_def heap_killNpc Let_def destroy_def)
  have "liveSnakes [p, r] (fst sn2) = []"
    using h2 by (simp add: liveSnakes_def)
  then have "checkNPCCollisions [p, r] sn2 = sn2"
    by (simp add: checkNPCCollisions_def)
  then show ?thesis
    using h2 by (simp add: c)
qed

lemma npc_tie:
  assumes ab: "a \<noteq> b"
    and la: "liveSnake a (fst sn)" and lb: "liveSnake b (fst sn)"
    and nc: "\<not> isCollidingWithSnake False (heap (fst sn) a) (heap (fst sn) b)"
      "\<not> isCollidingWithSnake False (heap (fst sn) b) (heap (fst sn) a)"
    and hd: "isHeadCollidingWithHead False (heap (fst sn) a) (heap (fst sn) b)"
    and sz: "size' (heap (fst sn) a) = size' (heap (fst sn) b)"
  shows "markedForDeletion (heap (fst (checkNPCCollisions [a, b] sn)) a) \<and>
         markedForDeletion (heap (fst (checkNPCCollisions [a, b] sn)) b)"
proof -
  have t: "type (heap (fst sn) a) = NpcT \<or> type (heap (fst sn) a) = SnakeT"
    "type (heap (fst sn) b) = NpcT \<or> type (heap (fst sn) b) = SnakeT"
    and m: "\<not> markedForDeletion (heap (fst sn) a)" "\<not> markedForDeletion (heap (fst sn) b)"
    using la lb by (simp_all add: liveSnake_def)
  have nf: "\<forall>x\<in>set [a, b]. \<not> isFoodType (heap (fst sn) x)"
    using t by (auto simp add: isFoodType_def)
  have l: "liveSnakes [a, b] (fst sn) = [a, b]"
    using t m by (auto simp add: liveSnakes_def)
  have f: "foldl (\<lambda>s0 npc. foldl (eatStep npc) s0 [a, b]) (fst sn) [a, b] = fst sn"
    using nf by (rule npcFood_no_food)
  have eq: "(a = b) = False" "(b = a) = False" using ab by auto
  have "checkNPCCollisions [a, b] sn = npcOuter [a, b] sn"
    unfolding checkNPCCollisions_def l Let_def f by simp
  also have "\<dots> = npcOuter [b] (die_at b (die_at a sn))"
    using m nc hd sz by (simp add: npcInner_Cons eq del: npcInner.simps(2))
  finally show ?thesis
    using ab by (simp add: heap_die_at destroy_def)
qed

text \<open>Snakes of size 10 at chosen places.\<close>

lemma snake10:
  "headSegment (playerAt px py) = \<lparr>x = px, y = py, radius = 10\<rparr>"
  "bodySegments (playerAt px py) =
     [\<lparr>x = px - 5, y = py, radius = 9\<rparr>, \<lparr>x = px - 10, y = py, radius = 8\<rparr>,
      \<lparr>x = px - 15, y = py, radius = 7\<rparr>, \<lparr>x = px - 20, y = py, radius = 6\<rparr>]"
  "headSegment (npcAt px py) = \<lparr>x = px, y = py, radius = 10\<rparr>"
  "bodySegments (npcAt px py) =
     [\<lparr>x = px - 5, y = py, radius = 9\<rparr>, \<lparr>x = px - 10, y = py, radius = 8\<rparr>,
      \<lparr>x = px - 15, y = py, radius = 7\<rparr>, \<lparr>x = px - 20, y = py, radius = 6\<rparr>]"
  by (simp_all only: new_NPC_fields new_Player_fields segments_new_Snake_10)

lemma snake10_fields:
  "type (playerAt px py) = PlayerT" "type (npcAt px py) = NpcT"
  "size' (playerAt px py) = 10" "size' (npcAt px py) = 10"
  "markedForDeletion (playerAt px py) = False" "markedForDeletion (npcAt px py) = False"
  by (simp_all only: new_NPC_fields new_Player_fields)

lemma contact_examples:
  "isCollidingWithSnake False (playerAt 170 100) (npcAt 200 100)"
  "isCollidingWithSnake False (npcAt 170 100) (npcAt 200 100)"
  "\<not> isCollidingWithSnake False (npcAt 200 100) (npcAt 170 100)"
  "\<not> isCollidingWithSnake False (playerAt 1000 1000) (npcAt 170 100)"
  "\<not> isCollidingWithSnake False (npcAt 170 100) (playerAt 1000 1000)"
  "\<not> isHeadCollidingWithHead False (playerAt 1000 1000) (npcAt 170 100)"
  "\<not> isCollidingWithSnake False (playerAt 1000 1000) (npcAt 200 100)"
  "\<not> isCollidingWithSnake False (npcAt 200 100) (playerAt 1000 1000)"
  "\<not> isHeadCollidingWithHead False (playerAt 1000 1000) (npcAt 200 100)"
  "\<not> isCollidingWithSnake False (playerAt 100 100) (npcAt 100 119)"
  "\<not> isCollidingWithSnake False (npcAt 100 119) (playerAt 100 100)"
  "isHeadCollidingWithHead False (playerAt 100 100) (npcAt 100 119)"
  "\<not> isCollidingWithSnake False (npcAt 100 100) (npcAt 100 119)"
  "\<not> isCollidingWithSnake False (npcAt 100 119) (npcAt 100 100)"
  "isHeadCollidingWithHead False (npcAt 100 100) (npcAt 100 119)"
  by (simp_all add: isCollidingWithSnake_def isHeadCollidingWithHead_def snake10
      circleCollision_iff)

subsection \<open>Body strike\<close>

lemma strike_world_facts:
  "liveSnake 1 (world3 (playerAt 1000 1000) (npcAt 170 100) (npcAt 200 100))"
  "liveSnake 2 (world3 (playerAt 1000 1000) (npcAt 170 100) (npcAt 200 100))"
  "strikes 1 2 (world3 (playerAt 1000 1000) (npcAt 170 100) (npcAt 200 100))"
  "\<not> strikes 2 1 (world3 (playerAt 1000 1000) (npcAt 170 100) (npcAt 200 100))"
  "liveSnakes [0, 1, 2] (world3 (playerAt 1000 1000) (npcAt 170 100) (npcAt 200 100)) = [1, 2]"
  "\<forall>r\<in>set [0, 1, 2].
     \<not> isFoodType (heap (world3 (playerAt 1000 1000) (npcAt 170 100) (npcAt 200 100)) r)"
  "\<forall>r\<in>set [0, 1, 2].
     r = 0 \<or> noContact 0 r (world3 (playerAt 1000 1000) (npcAt 170 100) (npcAt 200 100))"
  unfolding liveSnake_def strikes_def liveSnakes_def noContact_def isFoodType_def
    list.set ball_simps filter.simps world3_simps snake10_fields
  by (simp_all add: contact_examples)

lemma strike_world_pass:
  "checkCollisions [0, 1, 2] 0 (world3 (playerAt 1000 1000) (npcAt 170 100) (npcAt 200 100)) =
   checkNPCCollisions [0, 1, 2]
     (world3 (playerAt 1000 1000) (npcAt 170 100) (npcAt 200 100), [])"
  using strike_world_facts(6,7) by (rule checkCollisions_player_apart)

lemma player_strike_world_facts:
  "strikes 0 1 (world2 (playerAt 170 100) (npcAt 200 100))"
  unfolding strikes_def world2_simps snake10_fields
  by (simp add: contact_examples)

lemma world4_simps:
  "entities (world4 e0 e1 e2 e3) = [0, 1, 2, 3]"
  "player (world4 e0 e1 e2 e3) = 0"
  "heap (world4 e0 e1 e2 e3) 0 = e0"
  "heap (world4 e0 e1 e2 e3) 1 = e1"
  "heap (world4 e0 e1 e2 e3) 2 = e2"
  "heap (world4 e0 e1 e2 e3) 3 = e3"
  by (simp_all add: push_entity_def new_GameState_def numeral_2_eq_2 numeral_3_eq_3)

text \<open>
  Two snakes of size 10 on the line \<open>y = 100\<close>, the second 30 to the right of the first:
  the head of the first lies on the body of the second and nothing else touches. Two
  snakes far from each other do not touch.
\<close>

lemma row_contacts:
  "isCollidingWithSnake False (npcAt 170 100) (playerAt 200 100)"
  "\<not> isCollidingWithSnake False (playerAt 200 100) (npcAt 170 100)"
  "\<not> isHeadCollidingWithHead False (playerAt 200 100) (npcAt 170 100)"
  "\<not> isHeadCollidingWithHead False (npcAt 200 100) (npcAt 170 100)"
  "\<not> isHeadCollidingWithHead False (npcAt 200 100) (playerAt 1000 1000)"
  "isCollidingWithSnake False (npcAt 200 100) (npcAt 230 100)"
  "\<not> isCollidingWithSnake False (npcAt 230 100) (npcAt 200 100)"
  "\<not> isHeadCollidingWithHead False (npcAt 230 100) (npcAt 200 100)"
  "\<not> isCollidingWithSnake False (npcAt 230 100) (npcAt 170 100)"
  "\<not> isCollidingWithSnake False (npcAt 170 100) (npcAt 230 100)"
  "\<not> isHeadCollidingWithHead False (npcAt 230 100) (npcAt 170 100)"
  "\<not> isCollidingWithSnake False (playerAt 1000 1000) (npcAt 230 100)"
  "\<not> isCollidingWithSnake False (npcAt 230 100) (playerAt 1000 1000)"
  "\<not> isHeadCollidingWithHead False (playerAt 1000 1000) (npcAt 230 100)"
  "\<not> isHeadCollidingWithHead False (npcAt 230 100) (playerAt 1000 1000)"
  by (simp_all add: isCollidingWithSnake_def isHeadCollidingWithHead_def snake10
      circleCollision_iff)

lemma strike_world_clear:
  "isSnakeOf 0 1 (world3 (playerAt 1000 1000) (npcAt 170 100) (npcAt 200 100))"
  "isSnakeOf 0 2 (world3 (playerAt 1000 1000) (npcAt 170 100) (npcAt 200 100))"
  "headOnBody 1 2 (world3 (playerAt 1000 1000) (npcAt 170 100) (npcAt 200 100))"
  "type (heap (world3 (playerAt 1000 1000) (npcAt 170 100) (npcAt 200 100)) 0) = PlayerT"
  "\<not> markedForDeletion (heap (world3 (playerAt 1000 1000) (npcAt 170 100) (npcAt 200 100)) 2)"
  "headClear 2 [0, 1, 2] 0 (world3 (playerAt 1000 1000) (npcAt 170 100) (npcAt 200 100))"
  unfolding isSnakeOf_def headOnBody_def headOnHead_def headClear_def
    list.set ball_simps world3_simps snake10_fields
  by (simp_all add: contact_examples row_contacts)

lemma struck_player_world:
  "isSnakeOf 0 1 (world2 (playerAt 200 100) (npcAt 170 100))"
  "isSnakeOf 0 0 (world2 (playerAt 200 100) (npcAt 170 100))"
  "headOnBody 1 0 (world2 (playerAt 200 100) (npcAt 170 100))"
  "type (heap (world2 (playerAt 200 100) (npcAt 170 100)) 0) = PlayerT"
  "\<not> markedForDeletion (heap (world2 (playerAt 200 100) (npcAt 170 100)) 0)"
  "headClear 0 [0, 1] 0 (world2 (playerAt 200 100) (npcAt 170 100))"
  unfolding isSnakeOf_def headOnBody_def headOnHead_def headClear_def
    list.set ball_simps world2_simps snake10_fields
  by (simp_all add: row_contacts)

lemma npc_chain:
  assumes d: "b \<noteq> c" "b \<noteq> a" "c \<noteq> a"
    and m: "\<not> markedForDeletion (heap (fst sn) b)" "\<not> markedForDeletion (heap (fst sn) c)"
      "\<not> markedForDeletion (heap (fst sn) a)"
    and bc: "isCollidingWithSnake False (heap (fst sn) b) (heap (fst sn) c)"
    and ca: "\<not> isCollidingWithSnake False (heap (fst sn) c) (heap (fst sn) a)"
      "\<not> isCollidingWithSnake False (heap (fst sn) a) (heap (fst sn) c)"
      "\<not> isHeadCollidingWithHead False (heap (fst sn) c) (heap (fst sn) a)"
  shows "npcOuter [b, c, a] sn = die_at b sn"
proof -
  have eq: "(b = c) = False" "(c = a) = False" "(a = c) = False" "(c = b) = False" "(a = b) = False"
    using d by auto
  have 1: "npcInner b [c, a] sn = die_at b sn"
    using m bc by (simp add: npcInner_Cons eq del: npcInner.simps(2))
  have h: "heap (fst (die_at b sn)) c = heap (fst sn) c" "heap (fst (die_at b sn)) a = heap (fst sn) a"
    using d by (simp_all add: heap_die_at)
  have 2: "npcInner c [a] (die_at b sn) = die_at b sn"
    using m ca by (simp add: npcInner_Cons eq h del: npcInner.simps(2))
  show ?thesis
    using m by (simp add: 1 2 h del: npcInner.simps(2))
qed

text \<open>
  Claim C2, as stated: when the head of a live snake A overlaps a non-head segment of a
  live snake B, the snake that was struck (B) is the one marked by the collision pass.
  In the world of a player at \<open>(1000, 1000)\<close> and two NPCs of size 10, A (reference 1)
  at \<open>(170, 100)\<close> and B (reference 2) at \<open>(200, 100)\<close>, the head of A overlaps the
  third body segment of B (centres 15 apart, radii 10 and 7). After
  \<^verbatim>\<open>checkCollisions\<close> A is marked and B is not.
\<close>

theorem struck_snake_survives_counterexample:
  "liveSnake 1 (world3 (playerAt 1000 1000) (npcAt 170 100) (npcAt 200 100)) \<and>
   strikes 1 2 (world3 (playerAt 1000 1000) (npcAt 170 100) (npcAt 200 100)) \<and>
   markedForDeletion
     (heap (fst (checkCollisions [0, 1, 2] 0
        (world3 (playerAt 1000 1000) (npcAt 170 100) (npcAt 200 100)))) 1) \<and>
   \<not> markedForDeletion
     (heap (fst (checkCollisions [0, 1, 2] 0
        (world3 (playerAt 1000 1000) (npcAt 170 100) (npcAt 200 100)))) 2)"
proof -
  let ?W = "world3 (playerAt 1000 1000) (npcAt 170 100) (npcAt 200 100)"
  have l: "liveSnakes [0, 1, 2] (fst (?W, [] :: entity list)) = [1, 2] \<or>
      liveSnakes [0, 1, 2] (fst (?W, [] :: entity list)) = [2, 1]"
    by (simp only: fst_conv strike_world_facts(5) simp_thms)
  have h: "isCollidingWithSnake False (heap (fst (?W, [] :: entity list)) 1)
      (heap (fst (?W, [] :: entity list)) 2)"
    using strike_world_facts(3) by (simp add: strikes_def)
  have n: "\<not> isCollidingWithSnake False (heap (fst (?W, [] :: entity list)) 2)
      (heap (fst (?W, [] :: entity list)) 1)"
    using strike_world_facts(1,4) by (simp add: strikes_def liveSnake_def)
  have d: "(1 :: nat) \<noteq> 2" by simp
  from npc_pair_strike [OF l d h n] strike_world_facts(1,3)
  show ?thesis
    by (simp only: strike_world_pass simp_thms)
qed

text \<open>
  Claim C2, amended: the snake whose head strikes is the one that dies, unless the snake
  it strikes has died first. A snake is the player or an object of type \<^verbatim>\<open>npc\<close> or
  \<^verbatim>\<open>snake\<close>. (1) If the head of a snake A of the array overlaps a non-head segment of
  another snake B of the array, A and B do not both survive \<^verbatim>\<open>checkCollisions\<close>. (2) If
  moreover B is not marked before the pass and the head of B is clear (it lies on no body
  segment of another snake, and it overlaps another head only where B is not the player
  and that head lies on the body of B), then after the pass the striker A is marked and
  the struck snake B is not; B may be the player. (3) If the player's head overlaps a
  non-head segment of a live snake of the array, the player is marked after the pass.
\<close>

theorem body_strike_kills_striker:
  "(a \<in> set es \<and> b \<in> set es \<and> isSnakeOf p a s \<and> isSnakeOf p b s \<and> headOnBody a b s \<longrightarrow>
      markedForDeletion (heap (fst (checkCollisions es p s)) a) \<or>
      markedForDeletion (heap (fst (checkCollisions es p s)) b)) \<and>
   (a \<in> set es \<and> b \<in> set es \<and> isSnakeOf p a s \<and> isSnakeOf p b s \<and> headOnBody a b s \<and>
    type (heap s p) = PlayerT \<and> \<not> markedForDeletion (heap s b) \<and> headClear b es p s \<longrightarrow>
      markedForDeletion (heap (fst (checkCollisions es p s)) a) \<and>
      \<not> markedForDeletion (heap (fst (checkCollisions es p s)) b)) \<and>
   (b \<in> set es \<and> strikes p b s \<longrightarrow>
      markedForDeletion (heap (fst (checkCollisions es p s)) p))"
proof -
  have 1: "markedForDeletion (heap (fst (checkCollisions es p s)) a) \<or>
      markedForDeletion (heap (fst (checkCollisions es p s)) b)"
    if "a \<in> set es \<and> b \<in> set es \<and> isSnakeOf p a s \<and> isSnakeOf p b s \<and> headOnBody a b s"
    using that pair_not_both_survive by blast
  have 2: "markedForDeletion (heap (fst (checkCollisions es p s)) a) \<and>
      \<not> markedForDeletion (heap (fst (checkCollisions es p s)) b)"
    if h: "a \<in> set es \<and> b \<in> set es \<and> isSnakeOf p a s \<and> isSnakeOf p b s \<and> headOnBody a b s \<and>
      type (heap s p) = PlayerT \<and> \<not> markedForDeletion (heap s b) \<and> headClear b es p s"
  proof -
    have "\<not> markedForDeletion (heap (fst (checkCollisions es p s)) b)"
      using h survives by blast
    with 1 h show ?thesis by blast
  qed
  have 3: "markedForDeletion (heap (fst (checkCollisions es p s)) p)"
    if "b \<in> set es \<and> strikes p b s"
    using that player_strike_dies by blast
  from 1 2 3 show ?thesis by blast
qed

theorem body_strike_kills_striker_witness:
  "1 \<in> set [0, 1, 2 :: nat] \<and> 2 \<in> set [0, 1, 2 :: nat] \<and>
   isSnakeOf 0 1 (world3 (playerAt 1000 1000) (npcAt 170 100) (npcAt 200 100)) \<and>
   isSnakeOf 0 2 (world3 (playerAt 1000 1000) (npcAt 170 100) (npcAt 200 100)) \<and>
   headOnBody 1 2 (world3 (playerAt 1000 1000) (npcAt 170 100) (npcAt 200 100)) \<and>
   type (heap (world3 (playerAt 1000 1000) (npcAt 170 100) (npcAt 200 100)) 0) = PlayerT \<and>
   \<not> markedForDeletion (heap (world3 (playerAt 1000 1000) (npcAt 170 100) (npcAt 200 100)) 2) \<and>
   headClear 2 [0, 1, 2] 0 (world3 (playerAt 1000 1000) (npcAt 170 100) (npcAt 200 100)) \<and>
   markedForDeletion
     (heap (fst (checkCollisions [0, 1, 2] 0
        (world3 (playerAt 1000 1000) (npcAt 170 100) (npcAt 200 100)))) 1) \<and>
   \<not> markedForDeletion
     (heap (fst (checkCollisions [0, 1, 2] 0
        (world3 (playerAt 1000 1000) (npcAt 170 100) (npcAt 200 100)))) 2) \<and>
   1 \<in> set [0, 1 :: nat] \<and> 0 \<in> set [0, 1 :: nat] \<and>
   isSnakeOf 0 1 (world2 (playerAt 200 100) (npcAt 170 100)) \<and>
   isSnakeOf 0 0 (world2 (playerAt 200 100) (npcAt 170 100)) \<and>
   headOnBody 1 0 (world2 (playerAt 200 100) (npcAt 170 100)) \<and>
   type (heap (world2 (playerAt 200 100) (npcAt 170 100)) 0) = PlayerT \<and>
   \<not> markedForDeletion (heap (world2 (playerAt 200 100) (npcAt 170 100)) 0) \<and>
   headClear 0 [0, 1] 0 (world2 (playerAt 200 100) (npcAt 170 100)) \<and>
   markedForDeletion
     (heap (fst (checkCollisions [0, 1] 0 (world2 (playerAt 200 100) (npcAt 170 100)))) 1) \<and>
   \<not> markedForDeletion
     (heap (fst (checkCollisions [0, 1] 0 (world2 (playerAt 200 100) (npcAt 170 100)))) 0) \<and>
   strikes 0 1 (world2 (playerAt 170 100) (npcAt 200 100)) \<and>
   markedForDeletion
     (heap (fst (checkCollisions [0, 1] 0 (world2 (playerAt 170 100) (npcAt 200 100)))) 0)"
proof -
  have m: "1 \<in> set [0, 1, 2 :: nat]" "2 \<in> set [0, 1, 2 :: nat]"
    "1 \<in> set [0, 1 :: nat]" "0 \<in> set [0, 1 :: nat]"
    by simp_all
  note t1 = body_strike_kills_striker
    [where es = "[0, 1, 2]" and p = 0 and a = 1 and b = 2
      and s = "world3 (playerAt 1000 1000) (npcAt 170 100) (npcAt 200 100)",
      THEN conjunct2, THEN conjunct1]
  note t2 = body_strike_kills_striker
    [where es = "[0, 1]" and p = 0 and a = 1 and b = 0
      and s = "world2 (playerAt 200 100) (npcAt 170 100)", THEN conjunct2, THEN conjunct1]
  note t3 = body_strike_kills_striker
    [where es = "[0, 1]" and p = 0 and b = 1
      and s = "world2 (playerAt 170 100) (npcAt 200 100)", THEN conjunct2, THEN conjunct2]
  from m strike_world_clear struck_player_world player_strike_world_facts t1 t2 t3
  show ?thesis by blast
qed

text \<open>
  The striker is not always the one that dies: it survives when the snake it strikes has
  died before the two are compared. B at \<open>(200, 100)\<close> (reference 1) strikes the body of
  C at \<open>(230, 100)\<close> (reference 2) and dies; A at \<open>(170, 100)\<close> (reference 3), whose head
  lies on the body of B, is compared with B after that and survives.
\<close>

lemma striker_survives_example:
  "headOnBody 3 1 (world4 (playerAt 1000 1000) (npcAt 200 100) (npcAt 230 100) (npcAt 170 100)) \<and>
   markedForDeletion
     (heap (fst (checkCollisions [0, 1, 2, 3] 0
        (world4 (playerAt 1000 1000) (npcAt 200 100) (npcAt 230 100) (npcAt 170 100)))) 1) \<and>
   \<not> markedForDeletion
     (heap (fst (checkCollisions [0, 1, 2, 3] 0
        (world4 (playerAt 1000 1000) (npcAt 200 100) (npcAt 230 100) (npcAt 170 100)))) 3)"
proof -
  let ?W = "world4 (playerAt 1000 1000) (npcAt 200 100) (npcAt 230 100) (npcAt 170 100)"
  have h: "heap ?W 0 = playerAt 1000 1000" "heap ?W 1 = npcAt 200 100"
    "heap ?W 2 = npcAt 230 100" "heap ?W 3 = npcAt 170 100"
    by (simp_all only: world4_simps)
  have hb: "headOnBody 3 1 ?W"
    unfolding headOnBody_def h by (simp add: contact_examples)
  have nf: "\<forall>r\<in>set [0, 1, 2, 3]. \<not> isFoodType (heap ?W r)"
    unfolding list.set ball_simps h isFoodType_def snake10_fields by simp
  have nc: "\<forall>r\<in>set [0, 1, 2, 3]. r = 0 \<or> noContact 0 r ?W"
    unfolding list.set ball_simps h noContact_def
    by (simp add: contact_examples row_contacts)
  have c: "checkCollisions [0, 1, 2, 3] 0 ?W = checkNPCCollisions [0, 1, 2, 3] (?W, [])"
    using nf nc by (rule checkCollisions_player_apart)
  have l: "liveSnakes [0, 1, 2, 3] ?W = [1, 2, 3]"
    unfolding liveSnakes_def filter.simps h snake10_fields by simp
  have f: "foldl (\<lambda>s0 npc. foldl (eatStep npc) s0 [0, 1, 2, 3]) ?W [1, 2, 3] = ?W"
    using nf by (rule npcFood_no_food)
  have n: "checkNPCCollisions [0, 1, 2, 3] (?W, []) = npcOuter [1, 2, 3] (?W, [])"
    unfolding checkNPCCollisions_def fst_conv snd_conv l Let_def f ..
  have o: "npcOuter [1, 2, 3] (?W, []) = die_at 1 (?W, [])"
  proof (rule npc_chain)
    show "(1 :: nat) \<noteq> 2" "(1 :: nat) \<noteq> 3" "(2 :: nat) \<noteq> 3" by simp_all
  qed (simp_all only: fst_conv h snake10_fields row_contacts simp_thms)
  have "markedForDeletion (heap (fst (die_at 1 (?W, []))) 1)"
    by (rule marked_die_at_self)
  moreover have "\<not> markedForDeletion (heap (fst (die_at 1 (?W, []))) 3)"
    using marked_die_at_other [of 3 1 "(?W, [])"] by (simp add: h snake10_fields)
  ultimately show ?thesis
    unfolding c n o using hb by blast
qed

subsection \<open>Head against head with equal sizes\<close>

lemma tie_world_facts:
  "type (heap (world2 (playerAt 100 100) (npcAt 100 119)) 0) = PlayerT"
  "liveSnake 1 (world2 (playerAt 100 100) (npcAt 100 119))"
  "\<not> markedForDeletion (heap (world2 (playerAt 100 100) (npcAt 100 119)) 0)"
  "\<not> isCollidingWithSnake False (heap (world2 (playerAt 100 100) (npcAt 100 119)) 0)
      (heap (world2 (playerAt 100 100) (npcAt 100 119)) 1)"
  "\<not> isCollidingWithSnake False (heap (world2 (playerAt 100 100) (npcAt 100 119)) 1)
      (heap (world2 (playerAt 100 100) (npcAt 100 119)) 0)"
  "isHeadCollidingWithHead False (heap (world2 (playerAt 100 100) (npcAt 100 119)) 0)
      (heap (world2 (playerAt 100 100) (npcAt 100 119)) 1)"
  "size' (heap (world2 (playerAt 100 100) (npcAt 100 119)) 0) =
   size' (heap (world2 (playerAt 100 100) (npcAt 100 119)) 1)"
  unfolding liveSnake_def world2_simps snake10_fields
  by (simp_all add: contact_examples)

lemma npc_tie_world_facts:
  "liveSnake 0 (world2 (npcAt 100 100) (npcAt 100 119))"
  "liveSnake 1 (world2 (npcAt 100 100) (npcAt 100 119))"
  "\<not> isCollidingWithSnake False (heap (world2 (npcAt 100 100) (npcAt 100 119)) 0)
      (heap (world2 (npcAt 100 100) (npcAt 100 119)) 1)"
  "\<not> isCollidingWithSnake False (heap (world2 (npcAt 100 100) (npcAt 100 119)) 1)
      (heap (world2 (npcAt 100 100) (npcAt 100 119)) 0)"
  "isHeadCollidingWithHead False (heap (world2 (npcAt 100 100) (npcAt 100 119)) 0)
      (heap (world2 (npcAt 100 100) (npcAt 100 119)) 1)"
  "size' (heap (world2 (npcAt 100 100) (npcAt 100 119)) 0) =
   size' (heap (world2 (npcAt 100 100) (npcAt 100 119)) 1)"
  unfolding liveSnake_def world2_simps snake10_fields
  by (simp_all add: contact_examples)

lemma npc_tie_example:
  "markedForDeletion
     (heap (fst (checkNPCCollisions [0, 1] (world2 (npcAt 100 100) (npcAt 100 119), []))) 0) \<and>
   markedForDeletion
     (heap (fst (checkNPCCollisions [0, 1] (world2 (npcAt 100 100) (npcAt 100 119), []))) 1)"
proof (rule npc_tie)
  show "(0 :: nat) \<noteq> 1" by simp
qed (simp_all only: fst_conv npc_tie_world_facts simp_thms)

text \<open>
  Claim C3: two snakes of equal size whose heads overlap are both marked, also when one
  of them is the player. In the world of a player of size 10 at \<open>(100, 100)\<close>
  (reference 0) and an NPC of size 10 at \<open>(100, 119)\<close> (reference 1) the heads overlap
  (centres 19 apart, radii 10 and 10) and no head touches a body segment of the other
  snake. After \<^verbatim>\<open>checkCollisions\<close> the NPC is marked and the player is not: the
  \<^verbatim>\<open>else\<close> branch of \<^verbatim>\<open>checkPlayerSnakeCollisions\<close> covers the tie and kills only the
  other snake. For two NPCs at the same places both are marked (lemma
  \<open>npc_tie_example\<close>).
\<close>

theorem player_tie_spares_player:
  "size' (heap (world2 (playerAt 100 100) (npcAt 100 119)) 0) =
     size' (heap (world2 (playerAt 100 100) (npcAt 100 119)) 1) \<and>
   isHeadCollidingWithHead False (heap (world2 (playerAt 100 100) (npcAt 100 119)) 0)
     (heap (world2 (playerAt 100 100) (npcAt 100 119)) 1) \<and>
   markedForDeletion
     (heap (fst (checkCollisions [0, 1] 0 (world2 (playerAt 100 100) (npcAt 100 119)))) 1) \<and>
   \<not> markedForDeletion
     (heap (fst (checkCollisions [0, 1] 0 (world2 (playerAt 100 100) (npcAt 100 119)))) 0)"
proof -
  have d: "(0 :: nat) \<noteq> 1" by simp
  from player_tie [OF d tie_world_facts] tie_world_facts(6,7)
  show ?thesis by blast
qed

section \<open>Properties of the game state\<close>

lemma marked_new_Entity [simp]: "\<not> markedForDeletion (fst (new_Entity px py r g))"
  by (simp add: new_Entity_def case_prod_beta)

lemma marked_new_Food [simp]: "\<not> markedForDeletion (fst (new_Food px py v c g))"
  by (simp add: new_Food_def case_prod_beta split: option.splits)

lemma marked_initSegments [simp]: "markedForDeletion (initSegments e) = markedForDeletion e"
  by (simp add: initSegments_def Let_def)

lemma marked_new_Snake [simp]: "\<not> markedForDeletion (fst (new_Snake px py sz c h g))"
  by (simp add: new_Snake_def case_prod_beta)

lemma marked_new_NPC [simp]: "\<not> markedForDeletion (fst (new_NPC px py sz t d g))"
  by (simp add: new_NPC_def case_prod_beta)

lemma marked_new_Player [simp]: "\<not> markedForDeletion (fst (new_Player px py sz ev g))"
  by (simp add: new_Player_def case_prod_beta)

lemma noneMarked_push_entity:
  "noneMarked w \<Longrightarrow> \<not> markedForDeletion e \<Longrightarrow> noneMarked (push_entity w e)"
  by (simp add: noneMarked_def push_entity_def)

lemma noneMarked_rng [simp]: "noneMarked (w\<lparr>rng := g\<rparr>) = noneMarked w"
  by (simp add: noneMarked_def)

lemma entities_push_entity: "set (entities (push_entity w e)) = insert (nextRef w) (set (entities w))"
  by (simp add: push_entity_def)

lemma noneMarked_compact: "noneMarked (compact w)"
  by (simp add: noneMarked_def compact_def)

lemma noneMarked_spawnFood: "noneMarked w \<Longrightarrow> noneMarked (spawnFood w)"
  by (auto simp add: spawnFood_def Let_def case_prod_beta noneMarked_def push_entity_def)

lemma entities_spawnFood: "set (entities w) \<subseteq> set (entities (spawnFood w))"
  by (auto simp add: spawnFood_def Let_def case_prod_beta push_entity_def)

lemma noneMarked_checkGameOver: "noneMarked (checkGameOver w) = noneMarked w"
  by (simp add: checkGameOver_def noneMarked_def)

lemma entities_checkGameOver [simp]: "entities (checkGameOver w) = entities w"
  by (simp add: checkGameOver_def)

lemma noneMarked_spawnNPC: "noneMarked w \<Longrightarrow> noneMarked (spawnNPC w)"
  by (simp add: spawnNPC_def Let_def case_prod_beta noneMarked_push_entity)

lemma entities_spawnNPC: "set (entities w) \<subseteq> set (entities (spawnNPC w))"
  by (auto simp add: spawnNPC_def Let_def case_prod_beta push_entity_def)

lemma noneMarked_spawnNPCs: "noneMarked w \<Longrightarrow> noneMarked ((spawnNPC ^^ n) w)"
  by (induction n) (simp_all add: noneMarked_spawnNPC)

lemma entities_spawnNPCs: "set (entities w) \<subseteq> set (entities ((spawnNPC ^^ n) w))"
proof (induction n)
  case 0
  then show ?case by simp
next
  case (Suc n)
  then show ?case
    using entities_spawnNPC [of "(spawnNPC ^^ n) w"] by auto
qed

lemma noneMarked_maintainNPCCount: "noneMarked w \<Longrightarrow> noneMarked (maintainNPCCount w)"
  by (simp add: maintainNPCCount_def Let_def noneMarked_spawnNPCs)

lemma entities_maintainNPCCount: "set (entities w) \<subseteq> set (entities (maintainNPCCount w))"
  by (simp add: maintainNPCCount_def Let_def entities_spawnNPCs)

lemma noneMarked_afterCompaction: "noneMarked w \<Longrightarrow> noneMarked (afterCompaction w)"
  by (simp add: afterCompaction_def noneMarked_maintainNPCCount noneMarked_checkGameOver
      noneMarked_spawnFood)

lemma entities_afterCompaction: "set (entities w) \<subseteq> set (entities (afterCompaction w))"
  unfolding afterCompaction_def
  using entities_maintainNPCCount [of "checkGameOver (spawnFood w)"] entities_spawnFood [of w]
  by auto


lemma sameRefs_refl [simp]: "sameRefs w w"
  by (simp add: sameRefs_def)

lemma sameRefs_modify: "sameRefs w s \<Longrightarrow> sameRefs w (modify r f s)"
  by (simp add: sameRefs_def modify_def)

lemma sameRefs_die_at: "sameRefs w (fst sn) \<Longrightarrow> sameRefs w (fst (die_at r sn))"
  by (cases sn) (simp add: sameRefs_def die_at_def case_prod_beta)

lemma sameRefs_eatStep: "sameRefs w s \<Longrightarrow> sameRefs w (eatStep p s r)"
  by (simp add: sameRefs_def eatStep_def Let_def modify_def)

lemma sameRefs_eatLoop: "sameRefs w s \<Longrightarrow> sameRefs w (foldl (eatStep p) s rs)"
  by (induction rs arbitrary: s) (simp_all add: sameRefs_eatStep)

lemma sameRefs_killNpc: "sameRefs w (fst sn) \<Longrightarrow> sameRefs w (fst (killNpc p r sn))"
  using sameRefs_die_at [of w sn r]
  by (simp add: killNpc_def case_prod_beta sameRefs_def modify_def)

lemma sameRefs_bodyStrikeOnPlayer:
  "sameRefs w (fst sn) \<Longrightarrow> sameRefs w (fst (bodyStrikeOnPlayer p r sn))"
  by (simp add: bodyStrikeOnPlayer_def sameRefs_killNpc)

lemma sameRefs_playerSnakeLoop:
  "sameRefs w (fst sn) \<Longrightarrow> sameRefs w (fst (playerSnakeLoop p rs sn))"
  by (induction rs arbitrary: sn)
    (simp_all add: Let_def sameRefs_die_at sameRefs_killNpc sameRefs_bodyStrikeOnPlayer)

lemma sameRefs_npcInner:
  "sameRefs w (fst sn) \<Longrightarrow> sameRefs w (fst (npcInner r1 rs sn))"
  by (induction rs arbitrary: sn) (simp_all add: Let_def sameRefs_die_at)

lemma sameRefs_npcOuter:
  "sameRefs w (fst sn) \<Longrightarrow> sameRefs w (fst (npcOuter rs sn))"
  by (induction rs arbitrary: sn) (simp_all add: sameRefs_npcInner)

lemma sameRefs_npcFood:
  "sameRefs w s \<Longrightarrow> sameRefs w (foldl (\<lambda>s0 npc. foldl (eatStep npc) s0 es) s npcs)"
  by (induction npcs arbitrary: s) (simp_all add: sameRefs_eatLoop)

lemma sameRefs_checkCollisions: "sameRefs w (fst (checkCollisions es p w))"
  by (simp add: checkCollisions_def checkNPCCollisions_def checkPlayerSnakeCollisions_def
      checkPlayerFoodCollisions_def Let_def sameRefs_npcOuter sameRefs_npcFood
      sameRefs_playerSnakeLoop sameRefs_eatLoop)

lemma refsAllocated_push_entity: "refsAllocated w \<Longrightarrow> refsAllocated (push_entity w e)"
  by (auto simp add: refsAllocated_def push_entity_def)

lemma refsAllocated_sameRefs: "sameRefs w w' \<Longrightarrow> refsAllocated w \<Longrightarrow> refsAllocated w'"
  by (simp add: refsAllocated_def sameRefs_def)

lemma refsAllocated_updatePlayer: "refsAllocated w \<Longrightarrow> refsAllocated (updatePlayer ev w)"
proof -
  assume a: "refsAllocated w"
  have "refsAllocated (w\<lparr>heap := h, rng := g\<rparr>)" for h g
    using a by (simp add: refsAllocated_def)
  then show ?thesis
    by (simp add: updatePlayer_def Let_def case_prod_beta refsAllocated_push_entity
        split: option.splits)
qed

lemma refsAllocated_updateEntity: "refsAllocated w \<Longrightarrow> refsAllocated (updateEntity i w)"
proof -
  assume a: "refsAllocated w"
  have 1: "refsAllocated (w\<lparr>heap := h, rng := g\<rparr>)" for h g
    using a by (simp add: refsAllocated_def)
  have 2: "refsAllocated (w\<lparr>heap := h\<rparr>)" for h
    using a by (simp add: refsAllocated_def)
  show ?thesis
    by (simp add: updateEntity_def Let_def case_prod_beta refsAllocated_push_entity 1 2 a
        split: option.splits)
qed

lemma refsAllocated_updateLoop: "refsAllocated w \<Longrightarrow> refsAllocated (updateLoop i w)"
proof (induction i w rule: updateLoop.induct)
  case (1 i w)
  show ?case
  proof (cases "i < length (entities w)")
    case True
    then show ?thesis
      using "1.IH" [OF True] "1.prems" refsAllocated_updateEntity [of w i]
      by (subst updateLoop.simps) simp
  next
    case False
    then show ?thesis using "1.prems" by (subst updateLoop.simps) simp
  qed
qed

lemma refsAllocated_pushAll: "refsAllocated w \<Longrightarrow> refsAllocated (foldl push_entity w es)"
  by (induction es arbitrary: w) (simp_all add: refsAllocated_push_entity)

lemma refsAllocated_beforeCollisions:
  assumes "refsAllocated w"
  shows "refsAllocated (beforeCollisions ev w)"
proof -
  have "refsAllocated (rebuildQuadtree (w\<lparr>frameCount := frameCount w + 1\<rparr>))"
    using assms by (simp add: refsAllocated_def rebuildQuadtree_def)
  then show ?thesis
    unfolding beforeCollisions_def
    by (intro refsAllocated_updateLoop refsAllocated_updatePlayer)
qed

lemma refsAllocated_beforeCompaction:
  assumes "refsAllocated w"
  shows "refsAllocated (beforeCompaction ev w)"
proof -
  define w4 where "w4 = beforeCollisions ev w"
  have 4: "refsAllocated w4"
    using assms by (simp add: w4_def refsAllocated_beforeCollisions)
  have "refsAllocated (fst (checkCollisions (entities w4) (player w4) w4))"
    using sameRefs_checkCollisions [of w4 "entities w4" "player w4"] 4
    by (rule refsAllocated_sameRefs)
  then show ?thesis
    by (simp add: beforeCompaction_def Let_def case_prod_beta w4_def [symmetric]
        refsAllocated_pushAll)
qed

lemma onlyFresh_refl [simp]: "onlyFresh w w"
  by (simp add: onlyFresh_def)

lemma onlyFresh_trans: "onlyFresh a b \<Longrightarrow> onlyFresh b c \<Longrightarrow> onlyFresh a c"
  by (fastforce simp add: onlyFresh_def)

lemma onlyFresh_push_entity: "onlyFresh w (push_entity (w\<lparr>rng := g\<rparr>) e)"
  by (simp add: onlyFresh_def push_entity_def)

lemma onlyFresh_spawnFood: "onlyFresh w (spawnFood w)"
  by (simp add: spawnFood_def Let_def case_prod_beta onlyFresh_def push_entity_def)

lemma onlyFresh_checkGameOver: "onlyFresh w (checkGameOver w)"
  by (simp add: checkGameOver_def onlyFresh_def)

lemma onlyFresh_spawnNPC: "onlyFresh w (spawnNPC w)"
  by (simp add: spawnNPC_def Let_def case_prod_beta onlyFresh_push_entity)

lemma onlyFresh_spawnNPCs: "onlyFresh w ((spawnNPC ^^ n) w)"
proof (induction n)
  case 0
  then show ?case by simp
next
  case (Suc n)
  then show ?case
    using onlyFresh_spawnNPC [of "(spawnNPC ^^ n) w"] by (auto intro: onlyFresh_trans)
qed

lemma onlyFresh_maintainNPCCount: "onlyFresh w (maintainNPCCount w)"
  by (simp add: maintainNPCCount_def Let_def onlyFresh_spawnNPCs)

lemma onlyFresh_afterCompaction: "onlyFresh w (afterCompaction w)"
  unfolding afterCompaction_def
  by (blast intro: onlyFresh_trans onlyFresh_spawnFood onlyFresh_checkGameOver
      onlyFresh_maintainNPCCount)

lemma marked_removed:
  assumes "isRunning w" "refsAllocated w"
    and "r \<in> set (entities (beforeCompaction ev w))"
    and "markedForDeletion (heap (beforeCompaction ev w) r)"
  shows "r \<notin> set (entities (update ev w))"
proof
  define wb where "wb = beforeCompaction ev w"
  assume "r \<in> set (entities (update ev w))"
  then have "r \<in> set (entities (afterCompaction (compact wb)))"
    using assms(1) by (simp add: update_def wb_def)
  then have "r \<in> set (entities (compact wb)) \<or> nextRef (compact wb) \<le> r"
    using onlyFresh_afterCompaction [of "compact wb"] by (simp add: onlyFresh_def)
  moreover have "r \<notin> set (entities (compact wb))"
    using assms(4) by (simp add: compact_def wb_def)
  moreover have "r < nextRef wb"
    using refsAllocated_beforeCompaction [OF assms(2), of ev] assms(3)
    by (simp add: refsAllocated_def wb_def)
  ultimately show False by (simp add: compact_def)
qed

lemma isRunning_init: "isRunning (init diff ev w)"
  by (simp add: init_def Let_def case_prod_beta)

lemma noneMarked_createNPC: "noneMarked w \<Longrightarrow> noneMarked (createNPC w)"
  by (simp add: createNPC_def Let_def case_prod_beta noneMarked_push_entity)

lemma noneMarked_createFood: "noneMarked w \<Longrightarrow> noneMarked (createFood w)"
  by (simp add: createFood_def Let_def case_prod_beta noneMarked_push_entity)

lemma noneMarked_funpow:
  "(\<And>v. noneMarked v \<Longrightarrow> noneMarked (f v)) \<Longrightarrow> noneMarked w \<Longrightarrow> noneMarked ((f ^^ n) w)"
  by (induction n) simp_all

lemma refsAllocated_fields [simp]:
  "refsAllocated (w\<lparr>rng := g\<rparr>) = refsAllocated w"
  "refsAllocated (w\<lparr>isRunning := b\<rparr>) = refsAllocated w"
  "refsAllocated (w\<lparr>frameCount := n\<rparr>) = refsAllocated w"
  "refsAllocated (w\<lparr>spawnCounter := n\<rparr>) = refsAllocated w"
  "refsAllocated (w\<lparr>gameOverEvents := evs\<rparr>) = refsAllocated w"
  "refsAllocated (w\<lparr>quadtree := q\<rparr>) = refsAllocated w"
  "refsAllocated (w\<lparr>gameDifficulty := d\<rparr>) = refsAllocated w"
  "refsAllocated (w\<lparr>heap := h\<rparr>) = refsAllocated w"
  by (simp_all add: refsAllocated_def)

lemma noneMarked_fields [simp]:
  "noneMarked (w\<lparr>isRunning := b\<rparr>) = noneMarked w"
  "noneMarked (w\<lparr>frameCount := n\<rparr>) = noneMarked w"
  "noneMarked (w\<lparr>spawnCounter := n\<rparr>) = noneMarked w"
  "noneMarked (w\<lparr>gameOverEvents := evs\<rparr>) = noneMarked w"
  "noneMarked (w\<lparr>quadtree := q\<rparr>) = noneMarked w"
  "noneMarked (w\<lparr>gameDifficulty := d\<rparr>) = noneMarked w"
  "noneMarked (w\<lparr>player := p\<rparr>) = noneMarked w"
  by (simp_all add: noneMarked_def)

lemma refsAllocated_createNPC: "refsAllocated w \<Longrightarrow> refsAllocated (createNPC w)"
  by (simp add: createNPC_def Let_def case_prod_beta refsAllocated_push_entity)

lemma refsAllocated_createFood: "refsAllocated w \<Longrightarrow> refsAllocated (createFood w)"
  by (simp add: createFood_def Let_def case_prod_beta refsAllocated_push_entity)

lemma refsAllocated_funpow:
  "(\<And>v. refsAllocated v \<Longrightarrow> refsAllocated (f v)) \<Longrightarrow> refsAllocated w \<Longrightarrow>
   refsAllocated ((f ^^ n) w)"
  by (induction n) simp_all

lemma init_invariants:
  assumes "entities w = []"
  shows "noneMarked (init diff ev w)" and "refsAllocated (init diff ev w)"
proof -
  define w1 where "w1 = w\<lparr>gameDifficulty := diff, quadtree := initQuadtree WORLD_WIDTH WORLD_HEIGHT\<rparr>"
  define g1 where "g1 = snd (getRandomPosition 100 (rng w1))"
  define pos where "pos = fst (getRandomPosition 100 (rng w1))"
  define pl where "pl = fst (new_Player (x pos) (y pos) PLAYER_INITIAL_SIZE ev g1)"
  define g2 where "g2 = snd (new_Player (x pos) (y pos) PLAYER_INITIAL_SIZE ev g1)"
  define w2 where "w2 = (push_entity (w1\<lparr>rng := g2\<rparr>) pl)\<lparr>player := nextRef w1\<rparr>"
  have i: "init diff ev w =
      ((createFood ^^ FOOD_COUNT diff) ((createNPC ^^ NPC_COUNT diff) w2))
        \<lparr>isRunning := True, frameCount := 0\<rparr>"
    by (simp add: init_def Let_def case_prod_beta w1_def [symmetric] g1_def [symmetric]
        pos_def [symmetric] pl_def [symmetric] g2_def [symmetric] w2_def [symmetric])
  have n2: "noneMarked w2"
    using assms by (simp add: w2_def noneMarked_def push_entity_def w1_def pl_def)
  have r2: "refsAllocated w2"
    using assms by (simp add: w2_def refsAllocated_def push_entity_def w1_def)
  show "noneMarked (init diff ev w)"
    unfolding i using n2
    by (simp add: noneMarked_funpow noneMarked_createNPC noneMarked_createFood)
  show "refsAllocated (init diff ev w)"
    unfolding i using r2
    by (simp add: refsAllocated_funpow refsAllocated_createNPC refsAllocated_createFood)
qed

lemma refsAllocated_compact: "refsAllocated w \<Longrightarrow> refsAllocated (compact w)"
  by (simp add: refsAllocated_def compact_def)

lemma refsAllocated_spawnFood: "refsAllocated w \<Longrightarrow> refsAllocated (spawnFood w)"
  by (simp add: spawnFood_def Let_def case_prod_beta refsAllocated_push_entity)

lemma refsAllocated_checkGameOver: "refsAllocated w \<Longrightarrow> refsAllocated (checkGameOver w)"
  by (simp add: checkGameOver_def)

lemma refsAllocated_spawnNPC: "refsAllocated w \<Longrightarrow> refsAllocated (spawnNPC w)"
  by (simp add: spawnNPC_def Let_def case_prod_beta refsAllocated_push_entity)

lemma refsAllocated_update: "refsAllocated w \<Longrightarrow> refsAllocated (update ev w)"
  by (simp add: update_def afterCompaction_def maintainNPCCount_def Let_def
      refsAllocated_funpow refsAllocated_spawnNPC refsAllocated_checkGameOver
      refsAllocated_spawnFood refsAllocated_compact refsAllocated_beforeCompaction)

lemma noneMarked_update: "noneMarked w \<Longrightarrow> noneMarked (update ev w)"
  by (simp add: update_def noneMarked_afterCompaction noneMarked_compact)

text \<open>
  Claim C9. When a tick of a running game returns, no entity in \<^verbatim>\<open>entities\<close> is marked
  for deletion; every entity that was unmarked when the filter ran is still in the array;
  and an entity that was marked then is no longer in it (given that the references in use
  are below the next free one, as they are from \<^verbatim>\<open>init\<close> on: lemmas \<open>init_invariants\<close>
  and \<open>refsAllocated_update\<close>).
\<close>

theorem update_compacts:
  assumes "isRunning w"
  shows "noneMarked (update ev w) \<and>
    (\<forall>r \<in> set (entities (beforeCompaction ev w)).
       \<not> markedForDeletion (heap (beforeCompaction ev w) r) \<longrightarrow>
         r \<in> set (entities (update ev w))) \<and>
    (refsAllocated w \<longrightarrow>
       (\<forall>r \<in> set (entities (beforeCompaction ev w)).
          markedForDeletion (heap (beforeCompaction ev w) r) \<longrightarrow>
            r \<notin> set (entities (update ev w))))"
proof (intro conjI)
  show "noneMarked (update ev w)"
    using assms by (simp add: update_def noneMarked_afterCompaction noneMarked_compact)
next
  have "r \<in> set (entities (compact (beforeCompaction ev w)))"
    if "r \<in> set (entities (beforeCompaction ev w))"
      and "\<not> markedForDeletion (heap (beforeCompaction ev w) r)" for r
    using that by (simp add: compact_def)
  then show "\<forall>r \<in> set (entities (beforeCompaction ev w)).
       \<not> markedForDeletion (heap (beforeCompaction ev w) r) \<longrightarrow> r \<in> set (entities (update ev w))"
    using assms entities_afterCompaction [of "compact (beforeCompaction ev w)"]
    by (auto simp add: update_def)
next
  show "refsAllocated w \<longrightarrow>
       (\<forall>r \<in> set (entities (beforeCompaction ev w)).
          markedForDeletion (heap (beforeCompaction ev w) r) \<longrightarrow>
            r \<notin> set (entities (update ev w)))"
    using marked_removed [OF assms] by blast
qed

theorem update_compacts_witness:
  "isRunning (init NORMAL \<lparr>innerWidth = 800, innerHeight = 600, now = 0\<rparr>
               (reset (new_GameState (constant_rng (1 / 2))))) \<and>
   refsAllocated (init NORMAL \<lparr>innerWidth = 800, innerHeight = 600, now = 0\<rparr>
               (reset (new_GameState (constant_rng (1 / 2))))) \<and>
   noneMarked (update \<lparr>innerWidth = 800, innerHeight = 600, now = 16\<rparr>
     (init NORMAL \<lparr>innerWidth = 800, innerHeight = 600, now = 0\<rparr>
        (reset (new_GameState (constant_rng (1 / 2))))))"
proof -
  have e: "entities (reset (new_GameState (constant_rng (1 / 2)))) = []"
    by (simp add: reset_def)
  note r = isRunning_init [of NORMAL "\<lparr>innerWidth = 800, innerHeight = 600, now = 0\<rparr>"
      "reset (new_GameState (constant_rng (1 / 2)))"]
  note a = init_invariants(2) [OF e, of NORMAL "\<lparr>innerWidth = 800, innerHeight = 600, now = 0\<rparr>"]
  from r a update_compacts [OF r, of "\<lparr>innerWidth = 800, innerHeight = 600, now = 16\<rparr>"]
  show ?thesis by blast
qed

end
